(* ===== verification/Rust_Prelude.thy ===== *)
theory Rust_Prelude
  imports Main "HOL-Library.Word"
begin

text \<open>
  The vocabulary the components share: the machine integers, bytes, instants and durations of
  the Rust sources as HOL types, the pieces of the Rust standard library the sources call
  (saturating arithmetic, big-endian conversions, checked slices, \<open>Result\<close> chaining), and the
  generic lemmas about them.  Durations are whole nanoseconds; an instant is a signed number of
  nanoseconds on the monotonic clock.  Arithmetic on \<open>u32\<close> and \<open>u64\<close> is word arithmetic, which
  wraps as a release build does; the components prove where no wrap can happen.
\<close>

unbundle bit_operations_syntax

section \<open>Types\<close>

type_synonym u8 = "8 word"
type_synonym u16 = "16 word"
type_synonym u32 = "32 word"
type_synonym u64 = "64 word"
type_synonym usize = nat
type_synonym bytes = "u8 list"
type_synonym duration = nat
type_synonym instant = int

section \<open>Collections of rewrite rules\<close>

named_theorems be_simps \<open>big-endian conversions\<close>
named_theorems unat_simps \<open>words read as natural numbers\<close>

section \<open>Saturating arithmetic\<close>

definition sat_add :: "'a::len word \<Rightarrow> 'a word \<Rightarrow> 'a word" where
  "sat_add a b = (if unat a + unat b < 2 ^ LENGTH('a) then a + b else - 1)"

definition sat_sub :: "'a::len word \<Rightarrow> 'a word \<Rightarrow> 'a word" where
  "sat_sub a b = (if b \<le> a then a - b else 0)"

section \<open>Instants and durations\<close>

definition from_millis :: "nat \<Rightarrow> duration" where
  "from_millis n = n * 1000000"

definition from_secs :: "nat \<Rightarrow> duration" where
  "from_secs n = n * 1000000000"

definition as_millis :: "duration \<Rightarrow> nat" where
  "as_millis d = d div 1000000"

text \<open>\<open>Instant::duration_since\<close> saturates at zero when the argument is later.\<close>

definition duration_since :: "instant \<Rightarrow> instant \<Rightarrow> duration" where
  "duration_since now earlier = nat (now - earlier)"

section \<open>Results\<close>

fun rbind :: "'e + 'a \<Rightarrow> ('a \<Rightarrow> 'e + 'b) \<Rightarrow> 'e + 'b" where
  "rbind (Inl e) f = Inl e"
| "rbind (Inr x) f = f x"

fun ok_or :: "'a option \<Rightarrow> 'e \<Rightarrow> 'e + 'a" where
  "ok_or None e = Inl e"
| "ok_or (Some x) e = Inr x"

fun is_ok :: "'e + 'a \<Rightarrow> bool" where
  "is_ok (Inl e) = False"
| "is_ok (Inr x) = True"

section \<open>Slices and big-endian integers\<close>

definition slice_get :: "'a list \<Rightarrow> nat \<Rightarrow> nat \<Rightarrow> 'a list option" where
  "slice_get xs a b = (if a \<le> b \<and> b \<le> length xs then Some (take (b - a) (drop a xs)) else None)"

primrec to_be :: "nat \<Rightarrow> 'a::len word \<Rightarrow> bytes" where
  "to_be 0 w = []"
| "to_be (Suc n) w = to_be n (drop_bit 8 w) @ [ucast w]"

definition from_be :: "bytes \<Rightarrow> 'a::len word" where
  "from_be bs = foldl (\<lambda>acc b. push_bit 8 acc OR ucast b) 0 bs"

section \<open>Lemmas on saturating arithmetic\<close>

lemma unat_sat_sub [unat_simps]: "unat (sat_sub a b) = unat a - unat b"
  by (simp add: sat_sub_def word_le_nat_alt unat_sub)

lemma sat_sub_0 [simp]: "sat_sub a 0 = a"
  by (simp add: sat_sub_def)

lemma unat_max_word_eq: "unat (- 1 :: 'a::len word) = 2 ^ LENGTH('a) - 1"
  by (simp add: unsigned_minus_1_eq_mask mask_eq_exp_minus_1)

lemma unat_sat_add [unat_simps]:
  "unat (sat_add a b) = min (unat a + unat b) (2 ^ LENGTH('a) - 1)" for a b :: "'a::len word"
  by (auto simp: sat_add_def unat_max_word_eq unat_word_ariths)

lemma unat_succ: "unat (a + 1) = Suc (unat a)" if "unat a < 2 ^ LENGTH('a) - 1" for a :: "'a::len word"
proof -
  from that have "Suc (unat a) < 2 ^ LENGTH('a)" by simp
  then show ?thesis by (simp add: unat_word_ariths)
qed

lemma unat_succ_less: "unat (a + 1) = Suc (unat a)" if "a < b" for a b :: "'a::len word"
proof (rule unat_succ)
  have "unat b < 2 ^ LENGTH('a)" by (rule unsigned_less)
  with that show "unat a < 2 ^ LENGTH('a) - 1" unfolding word_less_nat_alt by linarith
qed

lemma succ_eq_0_iff: "a + 1 = 0 \<longleftrightarrow> a = (- 1 :: 'a::len word)"
  by (metis add.commute add.right_inverse add_diff_cancel diff_0)

lemma unat_u32_less: "unat (w :: u32) < 4294967296"
  by (rule order.strict_trans2 [OF unsigned_less]) simp

lemma unat_ucast_u32_u64 [unat_simps]: "unat (ucast (w :: u32) :: u64) = unat w"
  by (simp only: unat_eq_nat_uint) (simp add: uint_up_ucast is_up)

lemma ucast_u32_u64_inj: "(ucast (a :: u32) :: u64) = ucast b \<longleftrightarrow> a = b"
  by (metis unat_ucast_u32_u64 word_unat_eq_iff)

lemma duration_since_self [simp]: "duration_since t t = 0"
  by (simp add: duration_since_def)

section \<open>Ranges of sequence numbers\<close>

definition word_range :: "u32 \<Rightarrow> u32 \<Rightarrow> u32 list" where
  "word_range a b = map of_nat [unat a..<unat b]"

lemma unat_of_nat_u32: "n < 4294967296 \<Longrightarrow> unat (of_nat n :: u32) = n"
  by (simp add: unat_of_nat)

lemma set_word_range [simp]: "set (word_range a b) = {s. a \<le> s \<and> s < b}"
proof (rule set_eqI)
  fix s :: u32
  have "s \<in> set (word_range a b) \<longleftrightarrow> (\<exists>n. unat a \<le> n \<and> n < unat b \<and> s = of_nat n)"
    by (auto simp: word_range_def)
  also have "\<dots> \<longleftrightarrow> unat a \<le> unat s \<and> unat s < unat b"
  proof
    assume "\<exists>n. unat a \<le> n \<and> n < unat b \<and> s = of_nat n"
    then obtain n where n: "unat a \<le> n" "n < unat b" "s = of_nat n" by blast
    then have "unat s = n" using unat_of_nat_u32 [of n] unat_u32_less [of b] by simp
    with n show "unat a \<le> unat s \<and> unat s < unat b" by simp
  qed (auto intro: exI [of _ "unat s"])
  finally show "s \<in> set (word_range a b) \<longleftrightarrow> s \<in> {s. a \<le> s \<and> s < b}"
    by (simp add: word_le_nat_alt word_less_nat_alt)
qed

lemma sorted_word_range: "sorted_wrt (<) (word_range a b)"
  unfolding word_range_def sorted_wrt_map
proof (rule sorted_wrt_mono_rel [OF _ sorted_wrt_upt])
  fix x y assume "x \<in> set [unat a..<unat b]" "y \<in> set [unat a..<unat b]" "x < y"
  then show "(of_nat x :: u32) < of_nat y"
    using unat_u32_less [of b] by (simp add: word_less_nat_alt unat_of_nat_u32)
qed

lemma word_range_Cons: "a < b \<Longrightarrow> word_range a b = a # word_range (a + 1) b"
  using unat_succ_less [of a b] by (simp add: word_range_def upt_conv_Cons word_less_nat_alt)

lemma word_range_empty: "\<not> a < b \<Longrightarrow> word_range a b = []"
  by (simp add: word_range_def word_less_nat_alt)

lemma length_word_range [simp]: "length (word_range a b) = unat b - unat a"
  by (simp add: word_range_def)

section \<open>Lemmas on results\<close>

lemma rbind_Inr_iff: "rbind m f = Inr y \<longleftrightarrow> (\<exists>x. m = Inr x \<and> f x = Inr y)"
  by (cases m) auto

lemma ok_or_Inr_iff [simp]: "ok_or m e = Inr y \<longleftrightarrow> m = Some y"
  by (cases m) auto

lemma ok_or_Inl_iff [simp]: "ok_or m e = Inl e' \<longleftrightarrow> m = None \<and> e' = e"
  by (cases m) auto

lemma map_filter_append: "List.map_filter f (xs @ ys) = List.map_filter f xs @ List.map_filter f ys"
  by (simp add: List.map_filter_def)

lemma set_map_filter_iff: "y \<in> set (List.map_filter f xs) \<longleftrightarrow> (\<exists>x \<in> set xs. f x = Some y)"
  by (force simp: map_filter_def)

section \<open>Lemmas on slices and big-endian integers\<close>

lemma slice_get_Some_iff:
  "slice_get xs a b = Some ys \<longleftrightarrow> a \<le> b \<and> b \<le> length xs \<and> ys = take (b - a) (drop a xs)"
  by (auto simp: slice_get_def)

lemma length_to_be [simp]: "length (to_be n w) = n"
  by (induction n arbitrary: w) auto

lemma from_be_Nil [simp]: "from_be [] = 0"
  by (simp add: from_be_def)

lemma from_be_snoc [simp]: "from_be (bs @ [b]) = push_bit 8 (from_be bs) OR ucast b"
  by (simp add: from_be_def)

lemma bit_from_be_bound: "bit (from_be bs) k \<Longrightarrow> k < 8 * length bs"
proof (induction bs arbitrary: k rule: rev_induct)
  case Nil
  then show ?case by simp
next
  case (snoc b bs)
  from snoc.prems have "8 \<le> k \<and> bit (from_be bs :: 'a word) (k - 8) \<or> k < 8"
    by (auto simp: bit_simps dest: bit_imp_le_length)
  with snoc.IH [of "k - 8"] show ?case by auto
qed

lemma from_be_to_be: "from_be (to_be n w) = take_bit (8 * n) w"
proof (induction n arbitrary: w)
  case 0
  then show ?case by simp
next
  case (Suc n)
  have "push_bit 8 (take_bit (8 * n) (drop_bit 8 w)) OR ucast (ucast w :: u8)
      = take_bit (8 * Suc n) w"
    by (rule bit_word_eqI) (auto simp: bit_simps)
  with Suc.IH show ?case by simp
qed

lemma to_be_from_be:
  assumes "length bs = n" and "8 * n \<le> LENGTH('a::len)"
  shows "to_be n (from_be bs :: 'a word) = bs"
  using assms
proof (induction n arbitrary: bs)
  case 0
  then show ?case by simp
next
  case (Suc n)
  then obtain xs b where bs: "bs = xs @ [b]" and len: "length xs = n"
    by (metis length_Suc_conv_rev)
  have hi: "drop_bit 8 (push_bit 8 (from_be xs) OR ucast b) = (from_be xs :: 'a word)"
  proof (rule bit_word_eqI)
    fix k assume "k < LENGTH('a)"
    have "bit (from_be xs :: 'a word) k \<Longrightarrow> 8 + k < LENGTH('a)"
      using bit_from_be_bound [of xs k, where 'a = 'a] len Suc.prems(2) by auto
    then show "bit (drop_bit 8 (push_bit 8 (from_be xs) OR ucast b) :: 'a word) k
      = bit (from_be xs :: 'a word) k"
      using Suc.prems(2) by (auto simp: bit_simps dest: bit_imp_le_length)
  qed
  have lo: "ucast (push_bit 8 (from_be xs) OR ucast b :: 'a word) = b"
    using Suc.prems(2) by (intro bit_word_eqI) (auto simp: bit_simps)
  from Suc.IH [OF len] Suc.prems(2) have "to_be n (from_be xs :: 'a word) = xs" by simp
  then show ?case by (simp only: bs from_be_snoc to_be.simps hi lo)
qed

lemma from_be_to_be_u16 [be_simps, simp]: "from_be (to_be 2 w) = (w :: u16)"
  by (simp add: from_be_to_be take_bit_word_eq_self)

lemma from_be_to_be_u32 [be_simps, simp]: "from_be (to_be 4 w) = (w :: u32)"
  by (simp add: from_be_to_be take_bit_word_eq_self)

lemma from_be_to_be_u64 [be_simps, simp]: "from_be (to_be 8 w) = (w :: u64)"
  by (simp add: from_be_to_be take_bit_word_eq_self)

lemma to_be_inj_u32: "to_be 4 (v :: u32) = to_be 4 w \<longleftrightarrow> v = w"
  by (metis from_be_to_be_u32)

lemma to_be_inj_u64: "to_be 8 (v :: u64) = to_be 8 w \<longleftrightarrow> v = w"
  by (metis from_be_to_be_u64)

lemma to_be_from_be_u16 [be_simps]: "length bs = 2 \<Longrightarrow> to_be 2 (from_be bs :: u16) = bs"
  by (rule to_be_from_be) auto

lemma to_be_from_be_u32 [be_simps]: "length bs = 4 \<Longrightarrow> to_be 4 (from_be bs :: u32) = bs"
  by (rule to_be_from_be) auto

lemma to_be_from_be_u64 [be_simps]: "length bs = 8 \<Longrightarrow> to_be 8 (from_be bs :: u64) = bs"
  by (rule to_be_from_be) auto

end
