(* ===== verification/Pf4_Types.thy ===== *)
theory Pf4_Types
  imports Rust_Prelude "HOL-Library.List_Lexorder"
begin

text \<open>
  The shared data types of the sans-IO crate: \<open>protofish4-proto/src/types.rs\<close> (identifiers,
  sequence counters, direction, nonce class, outcomes), \<open>error.rs\<close> (the error enumeration) and
  \<open>frame/tag.rs\<close>, \<open>frame/mod.rs\<close> (packet kinds and bodies).  The newtypes over \<open>u32\<close> and \<open>u64\<close>
  are synonyms of their field; \<open>RequestId\<close> keeps the sixteen raw octets of its UUID.
  Constructors that several enumerations share carry the initials of their enumeration.
\<close>

section \<open>types.rs\<close>

datatype RequestId = RequestId (uuid_octets: bytes)

definition RequestId_LEN :: usize where
  "RequestId_LEN = 16"

definition RequestId_to_bytes :: "RequestId \<Rightarrow> bytes" where
  "RequestId_to_bytes r = uuid_octets r"

definition RequestId_from_bytes :: "bytes \<Rightarrow> RequestId" where
  "RequestId_from_bytes b = RequestId b"

text \<open>The type \<open>[u8; 16]\<close> of the octets.\<close>

definition request_id_wf :: "RequestId \<Rightarrow> bool" where
  "request_id_wf r \<longleftrightarrow> length (uuid_octets r) = RequestId_LEN"

type_synonym XferSeq = u32
type_synonym ControlSeq = u32
type_synonym TimestampMs = u64

definition XferSeq_FIRST :: XferSeq where
  "XferSeq_FIRST = 1"

definition XferSeq_next :: "XferSeq \<Rightarrow> XferSeq" where
  "XferSeq_next s = sat_add s 1"

definition ControlSeq_FIRST :: ControlSeq where
  "ControlSeq_FIRST = 0"

definition ControlSeq_next :: "ControlSeq \<Rightarrow> ControlSeq" where
  "ControlSeq_next s = s + 1"

datatype Direction = Dir_Send | Dir_Recv

fun Direction_to_u8 :: "Direction \<Rightarrow> u8" where
  "Direction_to_u8 Dir_Send = 0x00"
| "Direction_to_u8 Dir_Recv = 0x01"

fun Direction_peer :: "Direction \<Rightarrow> Direction" where
  "Direction_peer Dir_Send = Dir_Recv"
| "Direction_peer Dir_Recv = Dir_Send"

datatype SeqClass = SC_Data | SC_Control

fun SeqClass_to_u8 :: "SeqClass \<Rightarrow> u8" where
  "SeqClass_to_u8 SC_Data = 0x00"
| "SeqClass_to_u8 SC_Control = 0x01"

datatype RelAbortReason =
  UnrecoverableGap | BufferExhausted | Stalled | SenderDiscarded | PeerGone | NotAttempted

datatype RelOutcome = Complete XferSeq | Aborted RelAbortReason

section \<open>error.rs\<close>

datatype Error =
  Truncated usize usize
| UnsupportedVersion u8
| UnknownKind u8
| MalformedBody string string
| TrailingBytes string
| DecryptFailed RequestId
| Replay u32
| BadKeyLength usize
| PayloadTooLarge usize usize
| RetransBufferFull usize
| ReorderBudgetExhausted usize usize
| NoCredit
| UnexpectedFrame string
| WrongDirection string
| BadFinalSeq XferSeq XferSeq

type_synonym 'a result = "Error + 'a"

section \<open>frame/tag.rs\<close>

datatype PacketKind = PK_Data | PK_End | PK_EndAck | PK_Ack | PK_Nack | PK_Keepalive

definition PacketKind_from_u8 :: "u8 \<Rightarrow> PacketKind result" where
  "PacketKind_from_u8 v =
     (if v = 0x00 then Inr PK_Data
      else if v = 0x01 then Inr PK_End
      else if v = 0x02 then Inr PK_EndAck
      else if v = 0x03 then Inr PK_Ack
      else if v = 0x04 then Inr PK_Nack
      else if v = 0x05 then Inr PK_Keepalive
      else Inl (UnknownKind v))"

text \<open>The cast \<open>kind as u8\<close> of the \<open>repr(u8)\<close> enumeration.\<close>

fun PacketKind_as_u8 :: "PacketKind \<Rightarrow> u8" where
  "PacketKind_as_u8 PK_Data = 0x00"
| "PacketKind_as_u8 PK_End = 0x01"
| "PacketKind_as_u8 PK_EndAck = 0x02"
| "PacketKind_as_u8 PK_Ack = 0x03"
| "PacketKind_as_u8 PK_Nack = 0x04"
| "PacketKind_as_u8 PK_Keepalive = 0x05"

fun PacketKind_name :: "PacketKind \<Rightarrow> string" where
  "PacketKind_name PK_Data = ''Data''"
| "PacketKind_name PK_End = ''End''"
| "PacketKind_name PK_EndAck = ''EndAck''"
| "PacketKind_name PK_Ack = ''Ack''"
| "PacketKind_name PK_Nack = ''Nack''"
| "PacketKind_name PK_Keepalive = ''Keepalive''"

fun PacketKind_direction :: "PacketKind \<Rightarrow> Direction" where
  "PacketKind_direction PK_Data = Dir_Send"
| "PacketKind_direction PK_End = Dir_Send"
| "PacketKind_direction PK_Keepalive = Dir_Send"
| "PacketKind_direction PK_EndAck = Dir_Recv"
| "PacketKind_direction PK_Ack = Dir_Recv"
| "PacketKind_direction PK_Nack = Dir_Recv"

definition PacketKind_seq_class :: "PacketKind \<Rightarrow> SeqClass" where
  "PacketKind_seq_class k = (case k of PK_Data \<Rightarrow> SC_Data | _ \<Rightarrow> SC_Control)"

section \<open>frame/mod.rs\<close>

datatype Body =
  B_Data (body_ts: TimestampMs) (body_payload: bytes)
| B_End (body_final_seq: XferSeq)
| B_EndAck
| B_Ack (body_contiguous: XferSeq) (body_highest: XferSeq) (body_buffered_ms: u16)
| B_Nack (body_missing: "XferSeq list")
| B_Keepalive (body_lost_below: XferSeq)

fun Body_kind :: "Body \<Rightarrow> PacketKind" where
  "Body_kind (B_Data ts payload) = PK_Data"
| "Body_kind (B_End final_seq) = PK_End"
| "Body_kind B_EndAck = PK_EndAck"
| "Body_kind (B_Ack contiguous highest buffered_ms) = PK_Ack"
| "Body_kind (B_Nack missing) = PK_Nack"
| "Body_kind (B_Keepalive lost_below) = PK_Keepalive"

section \<open>Lemmas\<close>

lemma RequestId_roundtrip [simp]: "RequestId_from_bytes (RequestId_to_bytes r) = r"
  by (simp add: RequestId_from_bytes_def RequestId_to_bytes_def)

lemma RequestId_bytes_roundtrip [simp]: "RequestId_to_bytes (RequestId_from_bytes b) = b"
  by (simp add: RequestId_from_bytes_def RequestId_to_bytes_def)

lemma RequestId_to_bytes_inj: "RequestId_to_bytes r = RequestId_to_bytes r' \<longleftrightarrow> r = r'"
  by (metis RequestId_roundtrip)

text \<open>The derived order of \<open>RequestId\<close> is that of its octets.\<close>

instantiation RequestId :: linorder
begin

definition less_eq_RequestId :: "RequestId \<Rightarrow> RequestId \<Rightarrow> bool" where
  "less_eq_RequestId r r' \<longleftrightarrow> RequestId_to_bytes r \<le> RequestId_to_bytes r'"

definition less_RequestId :: "RequestId \<Rightarrow> RequestId \<Rightarrow> bool" where
  "less_RequestId r r' \<longleftrightarrow> RequestId_to_bytes r < RequestId_to_bytes r'"

instance
  by intro_classes
    (auto simp: less_eq_RequestId_def less_RequestId_def simp flip: RequestId_to_bytes_inj)

end

lemma request_id_wf_from_bytes [simp]:
  "request_id_wf (RequestId_from_bytes b) \<longleftrightarrow> length b = 16"
  by (simp add: request_id_wf_def RequestId_from_bytes_def RequestId_LEN_def)

lemma length_RequestId_to_bytes [simp]:
  "request_id_wf r \<Longrightarrow> length (RequestId_to_bytes r) = 16"
  by (simp add: request_id_wf_def RequestId_to_bytes_def RequestId_LEN_def)

lemma PacketKind_roundtrip [simp]: "PacketKind_from_u8 (PacketKind_as_u8 k) = Inr k"
  by (cases k) (simp_all add: PacketKind_from_u8_def)

lemma PacketKind_from_u8_Inr_iff:
  "PacketKind_from_u8 v = Inr k \<longleftrightarrow> v = PacketKind_as_u8 k"
  by (cases k) (auto simp: PacketKind_from_u8_def)

lemma PacketKind_from_u8_Inl_iff:
  "PacketKind_from_u8 v = Inl e \<longleftrightarrow> 5 < v \<and> e = UnknownKind v"
proof -
  have "v \<in> {0, 1, 2, 3, 4, 5}" if "\<not> 5 < v"
  proof -
    from that have "unat v \<le> 5" by (simp add: word_less_nat_alt)
    then have "unat v \<in> {0, 1, 2, 3, 4, 5}" by simp arith
    moreover have "v = of_nat (unat v)" by simp
    ultimately show ?thesis by (elim insertE) simp_all
  qed
  then show ?thesis by (auto simp: PacketKind_from_u8_def)
qed

lemma PacketKind_as_u8_inj: "PacketKind_as_u8 k = PacketKind_as_u8 k' \<longleftrightarrow> k = k'"
  by (metis PacketKind_roundtrip sum.inject(2))

lemma Direction_to_u8_inj: "Direction_to_u8 d = Direction_to_u8 d' \<longleftrightarrow> d = d'"
  by (cases d; cases d') auto

lemma SeqClass_to_u8_inj: "SeqClass_to_u8 c = SeqClass_to_u8 c' \<longleftrightarrow> c = c'"
  by (cases c; cases c') auto

lemma Direction_peer_involutive [simp]: "Direction_peer (Direction_peer d) = d"
  by (cases d) auto

lemma unat_XferSeq_next: "unat (XferSeq_next s) = min (Suc (unat s)) (2 ^ 32 - 1)"
  by (simp add: XferSeq_next_def unat_simps)

lemma XferSeq_next_less: "unat s < 2 ^ 32 - 1 \<Longrightarrow> unat (XferSeq_next s) = Suc (unat s)"
  by (simp add: unat_XferSeq_next)

end
