(* ===== verification/Pf4_Replay.thy ===== *)
theory Pf4_Replay
  imports Pf4_Types
begin

text \<open>
  \<open>ReplayWindow\<close> of \<open>protofish4-proto/src/crypto.rs\<close>: a 1024-bit sliding window over control
  counters, kept as sixteen 64-bit words that are shifted in place.  The first part translates
  the code, the second shows what the shifting loops do to the bits, and the third states the
  contract of a replay guard as a locale and interprets it on the window.

  The contract has one exception, which is the code's: a jump of exactly \<open>WIDTH\<close> clears the
  bitmap without recording the outgoing highest counter, which therefore is accepted again.
\<close>

record ReplayWindow =
  rw_highest :: u64
  rw_seen :: "u64 list"
  rw_started :: bool

definition WIDTH :: u64 where
  "WIDTH = 16 * 64"

definition ReplayWindow_new :: ReplayWindow where
  "ReplayWindow_new = \<lparr>rw_highest = 0, rw_seen = replicate 16 0, rw_started = False\<rparr>"

definition rw_set :: "ReplayWindow \<Rightarrow> u64 \<Rightarrow> ReplayWindow" where
  "rw_set w b =
     (if b \<ge> WIDTH then w
      else let i = unat (b div 64)
           in w\<lparr>rw_seen := (rw_seen w)[i := rw_seen w ! i OR push_bit (unat (b mod 64)) 1]\<rparr>)"

definition rw_get :: "ReplayWindow \<Rightarrow> u64 \<Rightarrow> bool" where
  "rw_get w b =
     (if b \<ge> WIDTH then False
      else rw_seen w ! unat (b div 64) AND push_bit (unat (b mod 64)) 1 \<noteq> 0)"

text \<open>The loop \<open>for i in (0..len).rev()\<close> that moves whole words up, in place.\<close>

definition shift_words :: "nat \<Rightarrow> u64 list \<Rightarrow> u64 list" where
  "shift_words words xs =
     fold (\<lambda>i ys. ys[i := (if i \<ge> words then ys ! (i - words) else 0)]) (rev [0..<length xs]) xs"

text \<open>The loop that shifts every word left and carries the bits pushed out of it upwards.\<close>

primrec shift_bits :: "nat \<Rightarrow> u64 \<Rightarrow> u64 list \<Rightarrow> u64 list" where
  "shift_bits bits carry [] = []"
| "shift_bits bits carry (w # ws) =
     (push_bit bits w OR carry) # shift_bits bits (drop_bit (64 - bits) w) ws"

definition shift_by :: "ReplayWindow \<Rightarrow> u64 \<Rightarrow> ReplayWindow" where
  "shift_by w shift =
     (if shift \<ge> WIDTH then w\<lparr>rw_seen := map (\<lambda>_. 0) (rw_seen w)\<rparr>
      else let words = unat (shift div 64);
               bits = unat (shift mod 64);
               w1 = (if words > 0 then w\<lparr>rw_seen := shift_words words (rw_seen w)\<rparr> else w);
               w2 = (if bits > 0 then w1\<lparr>rw_seen := shift_bits bits 0 (rw_seen w1)\<rparr> else w1)
           in if shift - 1 < WIDTH then rw_set w2 (shift - 1) else w2)"

definition accept :: "ReplayWindow \<Rightarrow> u32 \<Rightarrow> ReplayWindow \<times> unit result" where
  "accept w counter =
     (let c = (ucast counter :: u64) in
      if \<not> rw_started w then (w\<lparr>rw_started := True, rw_highest := c\<rparr>, Inr ())
      else if c > rw_highest w then ((shift_by w (c - rw_highest w))\<lparr>rw_highest := c\<rparr>, Inr ())
      else let back = rw_highest w - c in
        if back = 0 \<or> back > WIDTH then (w, Inl (Replay counter))
        else if rw_get w (back - 1) then (w, Inl (Replay counter))
        else (rw_set w (back - 1), Inr ()))"

text \<open>Feeding a sequence of counters to a guard, collecting those it accepts.\<close>

fun accept_all ::
  "('s \<Rightarrow> u32 \<Rightarrow> 's \<times> unit result) \<Rightarrow> 's \<Rightarrow> u32 list \<Rightarrow> 's \<times> u32 list" where
  "accept_all acc s [] = (s, [])"
| "accept_all acc s (c # cs) =
     (case acc s c of
        (s', Inr _) \<Rightarrow> (let (s'', cs') = accept_all acc s' cs in (s'', c # cs'))
      | (s', Inl _) \<Rightarrow> accept_all acc s' cs)"

declare accept_all.simps(2) [simp del]

section \<open>The bitmap as a set of positions\<close>

definition wbit :: "u64 list \<Rightarrow> nat \<Rightarrow> bool" where
  "wbit xs i \<longleftrightarrow> bit (xs ! (i div 64)) (i mod 64)"

lemma unat_WIDTH [simp]: "unat WIDTH = 1024"
  by (simp add: WIDTH_def)

lemma and_single_bit [simp]: "w AND 2 ^ n = 0 \<longleftrightarrow> \<not> bit w n" for w :: u64
  by (simp add: bit_iff_and_push_bit_not_eq_0)

lemma unat_div_64 [simp]: "unat (b div 64) = unat b div 64" for b :: u64
  by (simp add: unat_div)

lemma unat_mod_64 [simp]: "unat (b mod 64) = unat b mod 64" for b :: u64
  by (simp add: unat_mod)

lemma rw_get_wbit: "rw_get w b \<longleftrightarrow> unat b < 1024 \<and> wbit (rw_seen w) (unat b)"
  by (auto simp: rw_get_def wbit_def word_le_nat_alt)

lemma rw_set_fields [simp]:
  "rw_highest (rw_set w b) = rw_highest w" "rw_started (rw_set w b) = rw_started w"
  "length (rw_seen (rw_set w b)) = length (rw_seen w)"
  by (simp_all add: rw_set_def Let_def)

lemma wbit_rw_set:
  assumes "length (rw_seen w) = 16" and "i < 1024"
  shows "wbit (rw_seen (rw_set w b)) i \<longleftrightarrow> i = unat b \<or> wbit (rw_seen w) i"
proof (cases "unat b < 1024")
  case True
  then have "unat b div 64 < 16" by simp
  moreover have "i = unat b \<longleftrightarrow> i div 64 = unat b div 64 \<and> i mod 64 = unat b mod 64"
    by (metis div_mult_mod_eq)
  ultimately show ?thesis using assms True
    by (auto simp: rw_set_def wbit_def word_le_nat_alt Let_def nth_list_update bit_simps)
next
  case False
  then show ?thesis using assms(2) by (auto simp: rw_set_def word_le_nat_alt)
qed

lemma length_fold_update: "length (fold (\<lambda>i ys. ys[i := f i ys]) is xs) = length xs"
  by (induction "is" arbitrary: xs) auto

lemma nth_shift_words_aux:
  fixes ys :: "u64 list"
  assumes "k \<le> length ys" and "j < length ys"
  shows "fold (\<lambda>i ys. ys[i := (if i \<ge> words then ys ! (i - words) else 0)]) (rev [0..<k]) ys ! j
       = (if j < k then (if words \<le> j then ys ! (j - words) else 0) else ys ! j)"
  using assms
proof (induction k arbitrary: ys)
  case 0
  then show ?case by simp
next
  case (Suc k)
  define ys' where "ys' = ys[k := (if k \<ge> words then ys ! (k - words) else 0)]"
  have "fold (\<lambda>i ys. ys[i := (if i \<ge> words then ys ! (i - words) else 0)]) (rev [0..<k]) ys' ! j
      = (if j < k then (if words \<le> j then ys' ! (j - words) else 0) else ys' ! j)"
    using Suc.prems by (intro Suc.IH) (simp_all add: ys'_def)
  with Suc.prems show ?case
    by (cases "j = k") (auto simp: ys'_def nth_list_update)
qed

lemma shift_words_nth:
  "j < length xs \<Longrightarrow> shift_words words xs ! j = (if words \<le> j then xs ! (j - words) else 0)"
  by (simp add: shift_words_def nth_shift_words_aux)

lemma length_shift_words [simp]: "length (shift_words words xs) = length xs"
  by (simp add: shift_words_def length_fold_update)

lemma wbit_shift_words:
  assumes "i < 64 * length xs"
  shows "wbit (shift_words words xs) i \<longleftrightarrow> 64 * words \<le> i \<and> wbit xs (i - 64 * words)"
proof -
  have "i div 64 < length xs" using assms by (simp add: less_mult_imp_div_less mult.commute)
  moreover have "words \<le> i div 64 \<longleftrightarrow> 64 * words \<le> i"
    by (simp add: less_eq_div_iff_mult_less_eq mult.commute)
  moreover have "(i - 64 * words) div 64 = i div 64 - words" "(i - 64 * words) mod 64 = i mod 64"
    if "64 * words \<le> i"
    using that by (auto simp: le_iff_add)
  ultimately show ?thesis by (auto simp: wbit_def shift_words_nth)
qed

lemma length_shift_bits [simp]: "length (shift_bits bits carry xs) = length xs"
  by (induction xs arbitrary: carry) auto

lemma shift_bits_nth:
  "j < length xs \<Longrightarrow> shift_bits bits carry xs ! j =
     push_bit bits (xs ! j) OR (if j = 0 then carry else drop_bit (64 - bits) (xs ! (j - 1)))"
proof (induction xs arbitrary: carry j)
  case Nil
  then show ?case by simp
next
  case (Cons x xs)
  then show ?case by (cases j; cases "j - 1") auto
qed

lemma wbit_shift_bits:
  assumes "i < 64 * length xs" and "0 < bits" and "bits < 64"
  shows "wbit (shift_bits bits 0 xs) i \<longleftrightarrow> bits \<le> i \<and> wbit xs (i - bits)"
proof -
  define q r where "q = i div 64" and "r = i mod 64"
  have i: "i = 64 * q + r" and r: "r < 64" by (simp_all add: q_def r_def)
  have q: "q < length xs" using assms(1) by (simp add: q_def less_mult_imp_div_less mult.commute)
  have lhs: "wbit (shift_bits bits 0 xs) i \<longleftrightarrow>
      bits \<le> r \<and> bit (xs ! q) (r - bits) \<or> 0 < q \<and> bit (xs ! (q - 1)) (r + (64 - bits))"
    using q r by (auto simp: wbit_def shift_bits_nth bit_simps add.commute simp flip: q_def r_def)
  show ?thesis
  proof (cases "bits \<le> r")
    case True
    then obtain t where t: "r = bits + t" using le_Suc_ex by blast
    then have "i - bits = 64 * q + t" and "t < 64" using r by (simp_all add: i)
    then have "(i - bits) div 64 = q" "(i - bits) mod 64 = r - bits" by (simp_all add: t)
    moreover have "\<not> bit (xs ! (q - 1)) (r + (64 - bits))"
      using True bit_imp_le_length [of "xs ! (q - 1)" "r + (64 - bits)"] assms(3) by auto
    ultimately show ?thesis using True i lhs by (simp add: wbit_def)
  next
    case False
    show ?thesis
    proof (cases "q = 0")
      case True
      with False i lhs show ?thesis by simp
    next
      case q0: False
      then obtain p where p: "q = Suc p" by (cases q) auto
      have "i - bits = 64 * p + (r + (64 - bits))" using False assms(3) by (simp add: i p)
      moreover have "r + (64 - bits) < 64" using False assms(3) by simp
      ultimately have "(i - bits) div 64 = p" "(i - bits) mod 64 = r + (64 - bits)" by simp_all
      with False i lhs assms(3) show ?thesis by (simp add: wbit_def p)
    qed
  qed
qed

text \<open>
  One shift of the whole window by fewer than \<open>WIDTH\<close> positions: every bit moves up by the
  shift, the vacated positions are clear, and the outgoing highest counter gets its bit.
\<close>

lemma shift_by_fields [simp]:
  "rw_highest (shift_by w s) = rw_highest w" "rw_started (shift_by w s) = rw_started w"
  "length (rw_seen (shift_by w s)) = length (rw_seen w)"
  by (simp_all add: shift_by_def Let_def)

lemma wbit_shift_by:
  assumes len: "length (rw_seen w) = 16" and i: "i < 1024" and s: "0 < unat s" "unat s < 1024"
  shows "wbit (rw_seen (shift_by w s)) i \<longleftrightarrow>
           i = unat s - 1 \<or> unat s \<le> i \<and> wbit (rw_seen w) (i - unat s)"
proof -
  define q r where "q = unat s div 64" and "r = unat s mod 64"
  have sqr: "unat s = 64 * q + r" and r: "r < 64" by (simp_all add: q_def r_def)
  define w1 where "w1 = (if q > 0 then w\<lparr>rw_seen := shift_words q (rw_seen w)\<rparr> else w)"
  define w2 where "w2 = (if r > 0 then w1\<lparr>rw_seen := shift_bits r 0 (rw_seen w1)\<rparr> else w1)"
  have len2: "length (rw_seen w1) = 16" "length (rw_seen w2) = 16"
    using len by (simp_all add: w1_def w2_def)
  have w1: "wbit (rw_seen w1) j \<longleftrightarrow> 64 * q \<le> j \<and> wbit (rw_seen w) (j - 64 * q)" if "j < 1024" for j
    using that len by (simp add: w1_def wbit_shift_words)
  have w2: "wbit (rw_seen w2) i \<longleftrightarrow> r \<le> i \<and> wbit (rw_seen w1) (i - r)"
    using i r len2 by (simp add: w2_def wbit_shift_bits)
  have "wbit (rw_seen w2) i \<longleftrightarrow> unat s \<le> i \<and> wbit (rw_seen w) (i - unat s)"
    using w1 [of "i - r"] i by (auto simp: w2 sqr add.commute)
  moreover have "1 \<le> s" using s(1) by (simp add: word_le_nat_alt)
  then have "unat (s - 1) = unat s - 1" by (simp add: unat_sub)
  moreover have "shift_by w s = rw_set w2 (s - 1)"
    using s calculation(2)
    by (simp add: shift_by_def Let_def w1_def w2_def q_def r_def word_le_nat_alt word_less_nat_alt)
  ultimately show ?thesis using wbit_rw_set [OF len2(2) i, of "s - 1"] by simp
qed

lemma shift_by_all:
  "1024 \<le> unat s \<Longrightarrow> rw_seen (shift_by w s) = map (\<lambda>_. 0) (rw_seen w)"
  by (simp add: shift_by_def word_le_nat_alt)

lemma wbit_zero: "length xs = 16 \<Longrightarrow> i < 1024 \<Longrightarrow> \<not> wbit (map (\<lambda>_. 0) xs) i"
  by (simp add: wbit_def)

section \<open>The contract of a replay guard\<close>

text \<open>
  \<open>blocked s c\<close>: state \<open>s\<close> refuses counter \<open>c\<close>.  The laws say when a counter is refused, that a
  refusal changes nothing, that an accepted counter and every blocked one stay blocked (but
  for one counter exactly \<open>width\<close> behind the accepted one), and that nothing else becomes
  blocked except counters more than \<open>width\<close> behind.
\<close>

locale replay_guard =
  fixes acc :: "'s \<Rightarrow> u32 \<Rightarrow> 's \<times> unit result"
    and init :: 's
    and invar :: "'s \<Rightarrow> bool"
    and blocked :: "'s \<Rightarrow> nat \<Rightarrow> bool"
    and width :: nat
  assumes invar_init: "invar init"
    and blocked_init: "\<not> blocked init d"
    and acc_ok_iff: "invar s \<Longrightarrow> is_ok (snd (acc s c)) \<longleftrightarrow> \<not> blocked s (unat c)"
    and acc_reject: "invar s \<Longrightarrow> blocked s (unat c) \<Longrightarrow> fst (acc s c) = s"
    and invar_acc: "invar s \<Longrightarrow> invar (fst (acc s c))"
    and acc_self: "invar s \<Longrightarrow> blocked (fst (acc s c)) (unat c)"
    and acc_keeps: "invar s \<Longrightarrow> blocked s d \<Longrightarrow> unat c \<noteq> d + width \<Longrightarrow> blocked (fst (acc s c)) d"
    and acc_adds: "invar s \<Longrightarrow> blocked (fst (acc s c)) d \<Longrightarrow>
      blocked s d \<or> d = unat c \<or> d + width < unat c"
begin

lemma accept_all_Cons:
  assumes "invar s"
  shows "accept_all acc s (c # cs) =
    (if blocked s (unat c) then accept_all acc s cs
     else (fst (accept_all acc (fst (acc s c)) cs), c # snd (accept_all acc (fst (acc s c)) cs)))"
proof -
  obtain s' r where eq: "acc s c = (s', r)" by (cases "acc s c")
  show ?thesis
    using acc_ok_iff [OF assms, of c] acc_reject [OF assms, of c] eq
    by (cases r) (auto simp: split_beta accept_all.simps(2))
qed

text \<open>A blocked counter is accepted only after one exactly \<open>width\<close> ahead of it was.\<close>

lemma blocked_until_jump:
  assumes "invar s" and "blocked s (unat c)" and "snd (accept_all acc s cs) = xs @ c # ys"
  shows "\<exists>d \<in> set xs. unat d = unat c + width"
  using assms
proof (induction cs arbitrary: s xs)
  case Nil
  then show ?case by simp
next
  case (Cons e cs)
  let ?s' = "fst (acc s e)"
  show ?case
  proof (cases "blocked s (unat e)")
    case True
    with Cons show ?thesis by (simp add: accept_all_Cons)
  next
    case False
    with Cons.prems have "e # snd (accept_all acc ?s' cs) = xs @ c # ys"
      by (simp add: accept_all_Cons)
    moreover have "e \<noteq> c" using False Cons.prems(2) by auto
    ultimately obtain zs where xs: "xs = e # zs" and zs: "snd (accept_all acc ?s' cs) = zs @ c # ys"
      by (cases xs) auto
    show ?thesis
    proof (cases "unat e = unat c + width")
      case True
      then show ?thesis by (simp add: xs)
    next
      case False
      then have "blocked ?s' (unat c)" using Cons.prems(1,2) by (intro acc_keeps)
      from Cons.IH [OF invar_acc [OF Cons.prems(1)] this zs] show ?thesis by (auto simp: xs)
    qed
  qed
qed

lemma accepted_twice:
  assumes "invar s" and "snd (accept_all acc s cs) = xs @ c # ys @ c # zs"
  shows "\<exists>d \<in> set ys. unat d = unat c + width"
  using assms
proof (induction cs arbitrary: s xs)
  case Nil
  then show ?case by simp
next
  case (Cons e cs)
  let ?s' = "fst (acc s e)"
  show ?case
  proof (cases "blocked s (unat e)")
    case True
    with Cons show ?thesis by (simp add: accept_all_Cons)
  next
    case False
    with Cons.prems have eq: "e # snd (accept_all acc ?s' cs) = xs @ c # ys @ c # zs"
      by (simp add: accept_all_Cons)
    show ?thesis
    proof (cases xs)
      case Nil
      with eq have "e = c" and "snd (accept_all acc ?s' cs) = ys @ c # zs" by auto
      then show ?thesis
        using blocked_until_jump [OF invar_acc [OF Cons.prems(1)]] acc_self [OF Cons.prems(1)]
        by blast
    next
      case xs: (Cons a xs')
      with eq have "snd (accept_all acc ?s' cs) = xs' @ c # ys @ c # zs" by auto
      from Cons.IH [OF invar_acc [OF Cons.prems(1)] this] show ?thesis .
    qed
  qed
qed

text \<open>A counter that was never accepted and is not too old is not refused.\<close>

lemma invar_accept_all: "invar s \<Longrightarrow> invar (fst (accept_all acc s cs))"
  by (induction cs arbitrary: s) (auto simp: accept_all_Cons invar_acc)

lemma blocked_accept_all:
  assumes "invar s" and "blocked (fst (accept_all acc s cs)) d"
  shows "blocked s d \<or> (\<exists>c \<in> set (snd (accept_all acc s cs)). d = unat c \<or> d + width < unat c)"
  using assms
proof (induction cs arbitrary: s)
  case Nil
  then show ?case by simp
next
  case (Cons e cs)
  show ?case
  proof (cases "blocked s (unat e)")
    case True
    with Cons show ?thesis by (simp add: accept_all_Cons)
  next
    case False
    with Cons.prems have "blocked (fst (accept_all acc (fst (acc s e)) cs)) d"
      by (simp add: accept_all_Cons)
    from Cons.IH [OF invar_acc [OF Cons.prems(1)] this] acc_adds [OF Cons.prems(1), of e d]
    show ?thesis using False Cons.prems(1) by (auto simp: accept_all_Cons)
  qed
qed

lemma fresh_accepted:
  assumes "c \<notin> set (snd (accept_all acc init cs))"
    and "\<forall>d \<in> set (snd (accept_all acc init cs)). unat d \<le> unat c + width"
  shows "is_ok (snd (acc (fst (accept_all acc init cs)) c))"
proof -
  have "\<not> blocked (fst (accept_all acc init cs)) (unat c)"
    using blocked_accept_all [OF invar_init, of cs "unat c"] blocked_init assms
    by (metis leD word_unat_eq_iff)
  then show ?thesis using acc_ok_iff invar_accept_all [OF invar_init] by blast
qed

end

section \<open>The window keeps the contract\<close>

definition rw_invar :: "ReplayWindow \<Rightarrow> bool" where
  "rw_invar w \<longleftrightarrow> length (rw_seen w) = 16 \<and> unat (rw_highest w) < 2 ^ 32
     \<and> (\<not> rw_started w \<longrightarrow> rw_seen w = replicate 16 0)"

definition rw_blocked :: "ReplayWindow \<Rightarrow> nat \<Rightarrow> bool" where
  "rw_blocked w d \<longleftrightarrow> rw_started w \<and> d \<le> unat (rw_highest w)
     \<and> (d = unat (rw_highest w) \<or> unat (rw_highest w) > d + 1024
        \<or> wbit (rw_seen w) (unat (rw_highest w) - Suc d))"

lemma rw_invar_new: "rw_invar ReplayWindow_new"
  by (simp add: rw_invar_def ReplayWindow_new_def)

text \<open>The four branches of \<open>accept\<close>, over natural numbers.\<close>

lemma accept_first:
  "\<not> rw_started w \<Longrightarrow> accept w c = (w\<lparr>rw_started := True, rw_highest := ucast c\<rparr>, Inr ())"
  by (simp add: accept_def Let_def)

lemma accept_ahead:
  assumes "rw_started w" and "unat (rw_highest w) < unat c"
  shows "accept w c = ((shift_by w (ucast c - rw_highest w))\<lparr>rw_highest := ucast c\<rparr>, Inr ())"
  using assms by (simp add: accept_def Let_def word_less_nat_alt unat_simps)

lemma accept_blocked:
  assumes "rw_blocked w (unat c)"
  shows "accept w c = (w, Inl (Replay c))"
proof -
  from assms have le: "ucast c \<le> rw_highest w" and st: "rw_started w"
    by (auto simp: rw_blocked_def word_le_nat_alt unat_simps)
  define bk where "bk = rw_highest w - ucast c"
  have bk: "unat bk = unat (rw_highest w) - unat c"
    using le by (simp add: bk_def unat_sub unat_simps)
  have "bk = 0 \<or> bk > WIDTH \<or> rw_get w (bk - 1)"
  proof (cases "bk = 0 \<or> bk > WIDTH")
    case False
    then have "unat (bk - 1) = unat (rw_highest w) - unat c - 1" and "unat (bk - 1) < 1024"
      using bk by (auto simp: unat_minus_one word_less_nat_alt)
    with False assms bk show ?thesis
      by (auto simp: rw_blocked_def rw_get_wbit word_less_nat_alt unat_eq_0)
  qed auto
  then show ?thesis
    using le st unfolding accept_def Let_def bk_def by (auto simp: not_less)
qed

lemma accept_behind:
  assumes "rw_started w" and "unat c \<le> unat (rw_highest w)" and "\<not> rw_blocked w (unat c)"
  shows "accept w c = (rw_set w (rw_highest w - ucast c - 1), Inr ())"
    and "unat (rw_highest w - ucast c - 1) = unat (rw_highest w) - unat c - 1"
    and "unat (rw_highest w) - unat c - 1 < 1024" and "unat c < unat (rw_highest w)"
proof -
  have le: "ucast c \<le> rw_highest w" using assms by (simp add: word_le_nat_alt unat_simps)
  define bk where "bk = rw_highest w - ucast c"
  have bk: "unat bk = unat (rw_highest w) - unat c"
    using le by (simp add: bk_def unat_sub unat_simps)
  from assms show lt: "unat c < unat (rw_highest w)" and b: "unat (rw_highest w) - unat c - 1 < 1024"
    by (auto simp: rw_blocked_def)
  have b1: "unat (bk - 1) = unat (rw_highest w) - unat c - 1"
    using bk lt by (simp add: unat_sub word_le_nat_alt)
  then show "unat (rw_highest w - ucast c - 1) = unat (rw_highest w) - unat c - 1"
    by (simp add: bk_def)
  have "bk \<noteq> 0" "\<not> bk > WIDTH" "\<not> rw_get w (bk - 1)"
    using bk lt b b1 assms by (auto simp: word_less_nat_alt rw_get_wbit rw_blocked_def)
  then show "accept w c = (rw_set w (rw_highest w - ucast c - 1), Inr ())"
    using le assms(1) unfolding accept_def Let_def bk_def by (auto simp: not_less)
qed

text \<open>How each branch changes the set of blocked counters.\<close>

lemma rw_blocked_ahead:
  assumes inv: "rw_invar w" and st: "rw_started w" and lt: "unat (rw_highest w) < unat c"
  shows "rw_blocked (fst (accept w c)) d \<longleftrightarrow>
           d = unat c \<or> d + 1024 < unat c
           \<or> rw_blocked w d \<and> unat c \<noteq> unat (rw_highest w) + 1024"
proof -
  define s where "s = ucast c - rw_highest w"
  have us: "unat s = unat c - unat (rw_highest w)"
    using lt by (simp add: s_def unat_sub word_le_nat_alt unat_simps)
  let ?w' = "fst (accept w c)"
  have w': "?w' = (shift_by w s)\<lparr>rw_highest := ucast c\<rparr>"
    using accept_ahead [OF st lt] by (simp add: s_def)
  have fields: "rw_started ?w'" "unat (rw_highest ?w') = unat c"
    by (simp_all add: w' st unat_simps)
  have len: "length (rw_seen w) = 16" using inv by (simp add: rw_invar_def)
  show ?thesis
  proof (cases "d < unat c \<and> unat c \<le> d + 1024")
    case False
    then show ?thesis
      using lt by (auto simp: rw_blocked_def fields)
  next
    case True
    define i where "i = unat c - Suc d"
    have i: "i < 1024" using True by (simp add: i_def) linarith
    have bits: "wbit (rw_seen ?w') i \<longleftrightarrow>
        unat c \<noteq> unat (rw_highest w) + 1024 \<and> unat c < unat (rw_highest w) + 1024
        \<and> (i = unat s - 1 \<or> unat s \<le> i \<and> wbit (rw_seen w) (i - unat s))"
    proof (cases "unat s < 1024")
      case True
      then show ?thesis using wbit_shift_by [OF len i, of s] us lt by (auto simp: w')
    next
      case False
      then show ?thesis using shift_by_all [of s w] wbit_zero [OF len i] us lt by (auto simp: w')
    qed
    have "i = unat s - 1 \<longleftrightarrow> d = unat (rw_highest w)" and "unat s \<le> i \<longleftrightarrow> d < unat (rw_highest w)"
      and "i - unat s = unat (rw_highest w) - Suc d"
      using lt True us by (auto simp: i_def)
    then show ?thesis
      using True bits lt st by (auto simp: rw_blocked_def fields i_def)
  qed
qed

lemma rw_blocked_behind:
  assumes inv: "rw_invar w" and st: "rw_started w" and le: "unat c \<le> unat (rw_highest w)"
  shows "rw_blocked (fst (accept w c)) d \<longleftrightarrow> rw_blocked w d \<or> d = unat c"
proof (cases "rw_blocked w (unat c)")
  case True
  then show ?thesis by (auto simp: accept_blocked)
next
  case False
  note acc = accept_behind [OF st le False]
  have len: "length (rw_seen w) = 16" using inv by (simp add: rw_invar_def)
  show ?thesis
  proof (cases "d < unat (rw_highest w) \<and> unat (rw_highest w) \<le> d + 1024")
    case True
    define i where "i = unat (rw_highest w) - Suc d"
    have i: "i < 1024" using True by (simp add: i_def) linarith
    have "i = unat (rw_highest w) - unat c - 1 \<longleftrightarrow> d = unat c"
      using True acc(4) by (auto simp: i_def)
    then have "wbit (rw_seen (fst (accept w c))) i \<longleftrightarrow> d = unat c \<or> wbit (rw_seen w) i"
      using wbit_rw_set [OF len i, of "rw_highest w - ucast c - 1"] acc by simp
    then show ?thesis
      using True st acc by (auto simp: rw_blocked_def i_def)
  next
    case False
    then show ?thesis using acc st by (auto simp: rw_blocked_def)
  qed
qed

lemma rw_blocked_first:
  assumes inv: "rw_invar w" and st: "\<not> rw_started w"
  shows "rw_blocked (fst (accept w c)) d \<longleftrightarrow> d = unat c \<or> d + 1024 < unat c"
proof -
  have rw_seen: "rw_seen w = replicate 16 0" using inv st by (simp add: rw_invar_def)
  have "\<not> wbit (rw_seen w) i" if "i < 1024" for i
    using that by (simp add: rw_seen wbit_def)
  moreover have "unat c - Suc d < 1024" if "\<not> d + 1024 < unat c" using that by linarith
  ultimately show ?thesis
    using st by (auto simp: accept_first rw_blocked_def unat_simps)
qed

lemma rw_invar_accept: "rw_invar w \<Longrightarrow> rw_invar (fst (accept w c))"
  using unat_u32_less [of c]
  by (auto simp: rw_invar_def accept_def Let_def unat_simps)

interpretation rw: replay_guard accept ReplayWindow_new rw_invar rw_blocked 1024
proof unfold_locales
  show "rw_invar ReplayWindow_new" by (rule rw_invar_new)
  show "\<not> rw_blocked ReplayWindow_new d" for d
    by (simp add: rw_blocked_def ReplayWindow_new_def)
next
  fix w :: ReplayWindow and c :: u32 and d :: nat
  assume inv: "rw_invar w"
  show "rw_invar (fst (accept w c))" using inv by (rule rw_invar_accept)
  show "is_ok (snd (accept w c)) \<longleftrightarrow> \<not> rw_blocked w (unat c)"
    using accept_first [of w c] accept_ahead [of w c] accept_behind(1) [of w c] accept_blocked [of w c]
    by (cases "rw_started w"; cases "unat (rw_highest w) < unat c"; cases "rw_blocked w (unat c)")
      (auto simp: rw_blocked_def)
  show "rw_blocked w (unat c) \<Longrightarrow> fst (accept w c) = w" by (simp add: accept_blocked)
  note blocked = rw_blocked_first [OF inv, of c] rw_blocked_ahead [OF inv, of c]
    rw_blocked_behind [OF inv, of c]
  show "rw_blocked (fst (accept w c)) (unat c)" using blocked [of "unat c"] by linarith
  show "rw_blocked w d \<Longrightarrow> unat c \<noteq> d + 1024 \<Longrightarrow> rw_blocked (fst (accept w c)) d"
    using blocked [of d] rw_blocked_def [of w d] by linarith
  show "rw_blocked (fst (accept w c)) d \<Longrightarrow> rw_blocked w d \<or> d = unat c \<or> d + 1024 < unat c"
    using blocked [of d] by linarith
qed

section \<open>Properties\<close>

text \<open>
  C35: from a fresh window, a counter is accepted twice only if between the two acceptances the
  window accepted the counter exactly 1024 above it; in every other history a replayed control
  packet is refused.
\<close>

theorem replay_refused:
  assumes "snd (accept_all accept ReplayWindow_new cs) = xs @ c # ys @ c # zs"
  shows "\<exists>d \<in> set ys. unat d = unat c + 1024"
  using rw.accepted_twice [OF rw_invar_new assms] .

text \<open>
  The exception is real: after counters 0 and 1024 the window accepts 0 a second time, since
  the jump by its whole width clears the bitmap without recording the counter it leaves.
\<close>

lemma replay_accepted_after_exact_jump:
  "snd (accept_all accept ReplayWindow_new [0, 1024, 0]) = [0, 1024, 0]"
  by code_simp

theorem replay_refused_witness:
  "\<exists>d \<in> set [1024 :: u32]. unat d = unat (0 :: u32) + 1024"
proof -
  have "snd (accept_all accept ReplayWindow_new [0, 1024, 0]) = [] @ 0 # [1024] @ 0 # []"
    by code_simp
  from replay_refused [OF this] show ?thesis .
qed

text \<open>
  C36: the window refuses no more than it must: a counter that was never accepted and is at most
  1024 behind every accepted one is accepted, whatever was received before.
\<close>

theorem fresh_counter_accepted:
  assumes "c \<notin> set (snd (accept_all accept ReplayWindow_new cs))"
    and "\<forall>d \<in> set (snd (accept_all accept ReplayWindow_new cs)). unat d \<le> unat c + 1024"
  shows "is_ok (snd (accept (fst (accept_all accept ReplayWindow_new cs)) c))"
  using rw.fresh_accepted [OF assms] .

theorem fresh_counter_accepted_witness:
  "is_ok (snd (accept (fst (accept_all accept ReplayWindow_new [5, 8, 6])) 7))"
proof (rule fresh_counter_accepted)
  have eq: "snd (accept_all accept ReplayWindow_new [5, 8, 6]) = [5, 8, 6]" by code_simp
  show "7 \<notin> set (snd (accept_all accept ReplayWindow_new [5, 8, 6]))" unfolding eq by simp
  show "\<forall>d \<in> set (snd (accept_all accept ReplayWindow_new [5, 8, 6])). unat d \<le> unat (7 :: u32) + 1024"
    unfolding eq by simp
qed

end
