(* ===== verification/Pf4_Config.thy ===== *)
theory Pf4_Config
  imports Pf4_Types
begin

text \<open>
  \<open>protofish4-proto/src/config.rs\<close>: what a receiver wants (\<open>RecvMode\<close>), the tunable limits of
  both ends with their constructors, and the NACK backoff schedule \<open>nack_delay\<close>.
\<close>

datatype RecvMode = Dual | RelOnly

fun wants_unrel :: "RecvMode \<Rightarrow> bool" where
  "wants_unrel Dual = True"
| "wants_unrel RelOnly = False"

record ReceiverConfig =
  mode :: RecvMode
  reorder_window :: u32
  max_reorder_bytes :: usize
  max_nack_attempts :: u8
  nack_backoff :: "duration list"
  rel_stall_timeout :: duration
  idle_timeout :: duration
  ack_interval :: duration

definition audio_engine :: ReceiverConfig where
  "audio_engine = \<lparr>
     mode = Dual,
     reorder_window = 1024,
     max_reorder_bytes = 1024 * 1024,
     max_nack_attempts = 3,
     nack_backoff = [from_millis 30, from_millis 100, from_millis 300],
     rel_stall_timeout = from_secs 5,
     idle_timeout = from_secs 15,
     ack_interval = from_millis 200\<rparr>"

definition cache_worker :: ReceiverConfig where
  "cache_worker = \<lparr>
     mode = RelOnly,
     reorder_window = 65536,
     max_reorder_bytes = 32 * 1024 * 1024,
     max_nack_attempts = 12,
     nack_backoff = [from_millis 50, from_millis 200, from_millis 500, from_secs 1, from_secs 2],
     rel_stall_timeout = from_secs 60,
     idle_timeout = from_secs 30,
     ack_interval = from_millis 500\<rparr>"

definition nack_delay :: "ReceiverConfig \<Rightarrow> u8 \<Rightarrow> duration" where
  "nack_delay cfg attempt =
     (let i = min (unat attempt) (length (nack_backoff cfg) - 1)
      in if i < length (nack_backoff cfg) then nack_backoff cfg ! i else from_millis 100)"

record SenderConfig =
  retrans_ring_frames :: usize
  retrans_ring_bytes :: usize
  max_outstanding :: u32
  buffer_high_water_ms :: u16
  buffer_low_water_ms :: u16
  first_ack_timeout :: duration
  tail_keepalive_interval :: duration
  finalize_timeout :: duration

definition SenderConfig_default :: SenderConfig where
  "SenderConfig_default = \<lparr>
     retrans_ring_frames = 1024,
     retrans_ring_bytes = 1024 * 1024,
     max_outstanding = 512,
     buffer_high_water_ms = 10000,
     buffer_low_water_ms = 5000,
     first_ack_timeout = from_secs 2,
     tail_keepalive_interval = from_secs 5,
     finalize_timeout = from_secs 30\<rparr>"

section \<open>Lemmas\<close>

lemma wants_unrel_iff: "wants_unrel m \<longleftrightarrow> m = Dual"
  by (cases m) auto

lemma nack_delay_in_backoff:
  assumes "nack_backoff cfg \<noteq> []"
  shows "nack_delay cfg a \<in> set (nack_backoff cfg)"
proof -
  have "min (unat a) (length (nack_backoff cfg) - 1) < length (nack_backoff cfg)"
    using assms by (simp add: min_less_iff_disj)
  then show ?thesis by (simp add: nack_delay_def Let_def)
qed

lemma nack_delay_empty: "nack_backoff cfg = [] \<Longrightarrow> nack_delay cfg a = from_millis 100"
  by (simp add: nack_delay_def Let_def)

lemma nack_delay_last:
  assumes "nack_backoff cfg \<noteq> []" and "length (nack_backoff cfg) \<le> Suc (unat a)"
  shows "nack_delay cfg a = last (nack_backoff cfg)"
  using assms by (simp add: nack_delay_def Let_def last_conv_nth min_absorb2)

lemma nack_delay_nth:
  "unat a < length (nack_backoff cfg) \<Longrightarrow> nack_delay cfg a = nack_backoff cfg ! unat a"
  by (auto simp: nack_delay_def Let_def min_absorb1)

end
