(* ===== verification/Pf4_Codec.thy ===== *)
theory Pf4_Codec
  imports Pf4_Types
begin

text \<open>
  \<open>protofish4-proto/src/codec.rs\<close>: serialisation of packet bodies.  The lemmas show that decoding
  inverts encoding, that every buffer the decoder accepts is the encoding of the body it
  returns (so the wire form is canonical), exactly when each of the two fails, and how long an
  encoding is.
\<close>

definition MAX_PAYLOAD :: usize where
  "MAX_PAYLOAD = 1024"

definition MAX_NACK_ENTRIES :: usize where
  "MAX_NACK_ENTRIES = 128"

fun encode_body :: "Body \<Rightarrow> bytes result" where
  "encode_body (B_Data ts payload) =
     (if length payload > MAX_PAYLOAD then Inl (PayloadTooLarge (length payload) MAX_PAYLOAD)
      else Inr (to_be 8 ts @ payload))"
| "encode_body (B_End final_seq) = Inr (to_be 4 final_seq)"
| "encode_body B_EndAck = Inr []"
| "encode_body (B_Ack contiguous highest buffered_ms) =
     Inr (to_be 4 contiguous @ to_be 4 highest @ to_be 2 buffered_ms)"
| "encode_body (B_Nack missing) =
     (if length missing > MAX_NACK_ENTRIES
      then Inl (PayloadTooLarge (length missing) MAX_NACK_ENTRIES)
      else Inr (to_be 2 (of_nat (length missing) :: u16) @ concat (map (to_be 4) missing)))"
| "encode_body (B_Keepalive lost_below) = Inr (to_be 4 lost_below)"

definition expect_len :: "bytes \<Rightarrow> usize \<Rightarrow> string \<Rightarrow> unit result" where
  "expect_len buf want kind =
     (if length buf < want then Inl (MalformedBody kind ''body shorter than the fixed layout'')
      else if length buf > want then Inl (TrailingBytes kind)
      else Inr ())"

definition take_u16 :: "bytes \<Rightarrow> usize \<Rightarrow> string \<Rightarrow> u16 result" where
  "take_u16 buf at kind =
     ok_or (map_option from_be (slice_get buf at (at + 2))) (MalformedBody kind ''truncated u16'')"

definition take_u32 :: "bytes \<Rightarrow> usize \<Rightarrow> string \<Rightarrow> u32 result" where
  "take_u32 buf at kind =
     ok_or (map_option from_be (slice_get buf at (at + 4))) (MalformedBody kind ''truncated u32'')"

definition take_u64 :: "bytes \<Rightarrow> usize \<Rightarrow> string \<Rightarrow> u64 result" where
  "take_u64 buf at kind =
     ok_or (map_option from_be (slice_get buf at (at + 8))) (MalformedBody kind ''truncated u64'')"

text \<open>\<open>collect::<Result<Vec<_>>>()\<close>: the values, or the first error.\<close>

primrec collect_results :: "'a result list \<Rightarrow> 'a list result" where
  "collect_results [] = Inr []"
| "collect_results (r # rs) = rbind r (\<lambda>x. rbind (collect_results rs) (\<lambda>xs. Inr (x # xs)))"

definition decode_body :: "PacketKind \<Rightarrow> bytes \<Rightarrow> Body result" where
  "decode_body kind buf =
     (let name = PacketKind_name kind in
      case kind of
        PK_Data \<Rightarrow>
          rbind (take_u64 buf 0 name) (\<lambda>ts.
            let payload = drop 8 buf in
            if length payload > MAX_PAYLOAD
            then Inl (PayloadTooLarge (length payload) MAX_PAYLOAD)
            else Inr (B_Data ts payload))
      | PK_End \<Rightarrow>
          rbind (expect_len buf 4 name) (\<lambda>_.
          rbind (take_u32 buf 0 name) (\<lambda>s. Inr (B_End s)))
      | PK_EndAck \<Rightarrow>
          rbind (expect_len buf 0 name) (\<lambda>_. Inr B_EndAck)
      | PK_Ack \<Rightarrow>
          rbind (expect_len buf 10 name) (\<lambda>_.
          rbind (take_u32 buf 0 name) (\<lambda>c.
          rbind (take_u32 buf 4 name) (\<lambda>h.
          rbind (take_u16 buf 8 name) (\<lambda>b. Inr (B_Ack c h b)))))
      | PK_Nack \<Rightarrow>
          rbind (take_u16 buf 0 name) (\<lambda>n.
            let count = unat n in
            if count > MAX_NACK_ENTRIES then Inl (PayloadTooLarge count MAX_NACK_ENTRIES)
            else rbind (expect_len buf (2 + count * 4) name) (\<lambda>_.
                 rbind (collect_results (map (\<lambda>i. take_u32 buf (2 + i * 4) name) [0..<count]))
                   (\<lambda>missing. Inr (B_Nack missing))))
      | PK_Keepalive \<Rightarrow>
          rbind (expect_len buf 4 name) (\<lambda>_.
          rbind (take_u32 buf 0 name) (\<lambda>s. Inr (B_Keepalive s))))"

section \<open>The readers\<close>

lemma expect_len_Inr_iff [simp]: "expect_len buf n k = Inr u \<longleftrightarrow> length buf = n"
  by (auto simp: expect_len_def)

lemma take_u16_Inr_iff:
  "take_u16 buf at k = Inr v \<longleftrightarrow> at + 2 \<le> length buf \<and> v = from_be (take 2 (drop at buf))"
  by (auto simp: take_u16_def slice_get_Some_iff)

lemma take_u32_Inr_iff:
  "take_u32 buf at k = Inr v \<longleftrightarrow> at + 4 \<le> length buf \<and> v = from_be (take 4 (drop at buf))"
  by (auto simp: take_u32_def slice_get_Some_iff)

lemma take_u64_Inr_iff:
  "take_u64 buf at k = Inr v \<longleftrightarrow> at + 8 \<le> length buf \<and> v = from_be (take 8 (drop at buf))"
  by (auto simp: take_u64_def slice_get_Some_iff)

lemmas take_Inr_iffs = take_u16_Inr_iff take_u32_Inr_iff take_u64_Inr_iff

lemma take_u16_eq: "at + 2 \<le> length buf \<Longrightarrow> take_u16 buf at k = Inr (from_be (take 2 (drop at buf)))"
  by (simp add: take_u16_Inr_iff)

lemma take_u32_eq: "at + 4 \<le> length buf \<Longrightarrow> take_u32 buf at k = Inr (from_be (take 4 (drop at buf)))"
  by (simp add: take_u32_Inr_iff)

lemma take_u64_eq: "at + 8 \<le> length buf \<Longrightarrow> take_u64 buf at k = Inr (from_be (take 8 (drop at buf)))"
  by (simp add: take_u64_Inr_iff)

lemma collect_results_map_Inr: "collect_results (map (\<lambda>x. Inr (f x)) xs) = Inr (map f xs)"
  by (induction xs) auto

section \<open>Runs of 32-bit entries\<close>

text \<open>\<open>entries bs\<close> cuts a buffer into consecutive big-endian words.\<close>

definition entries :: "nat \<Rightarrow> bytes \<Rightarrow> u32 list" where
  "entries n bs = map (\<lambda>i. from_be (take 4 (drop (i * 4) bs))) [0..<n]"

lemma entries_Suc: "entries (Suc n) bs = from_be (take 4 bs) # entries n (drop 4 bs)"
proof -
  have "[0..<Suc n] = 0 # map Suc [0..<n]" by (simp add: map_Suc_upt upt_conv_Cons)
  then show ?thesis by (simp add: entries_def comp_def add.commute)
qed

lemma length_concat_to_be [simp]: "length (concat (map (to_be 4) ss)) = 4 * length ss"
  by (induction ss) auto

lemma entries_of_concat: "entries (length ss) (concat (map (to_be 4) ss)) = ss"
proof (induction ss)
  case Nil
  then show ?case by (simp add: entries_def)
next
  case (Cons a ss)
  then show ?case by (simp add: entries_Suc)
qed

lemma concat_of_entries:
  "length bs = 4 * n \<Longrightarrow> concat (map (to_be 4) (entries n bs)) = bs"
proof (induction n arbitrary: bs)
  case 0
  then show ?case by (simp add: entries_def)
next
  case (Suc n)
  then have "concat (map (to_be 4) (entries n (drop 4 bs))) = drop 4 bs"
    by (intro Suc.IH) simp
  with Suc.prems show ?case by (simp add: entries_Suc to_be_from_be_u32)
qed

lemma length_entries [simp]: "length (entries n bs) = n"
  by (simp add: entries_def)

lemma collect_take_u32:
  assumes "length buf = 2 + n * 4"
  shows "collect_results (map (\<lambda>i. take_u32 buf (2 + i * 4) k) [0..<n])
           = Inr (entries n (drop 2 buf))"
proof -
  have "map (\<lambda>i. take_u32 buf (2 + i * 4) k) [0..<n]
      = map (\<lambda>i. Inr (from_be (take 4 (drop (i * 4) (drop 2 buf))))) [0..<n]"
    using assms by (intro map_cong) (auto simp: take_u32_eq add.commute)
  then show ?thesis by (simp only: entries_def collect_results_map_Inr)
qed

lemma decode_nack:
  assumes "length buf = 2 + n * 4" and "n \<le> MAX_NACK_ENTRIES"
    and "unat (from_be (take 2 buf) :: u16) = n"
  shows "decode_body PK_Nack buf = Inr (B_Nack (entries n (drop 2 buf)))"
proof -
  have "take_u16 buf 0 k = Inr (from_be (take 2 buf))" for k
    using assms(1) by (simp add: take_u16_eq)
  moreover have "expect_len buf (2 + n * 4) k = Inr ()" for k
    using assms(1) by simp
  moreover have "\<not> MAX_NACK_ENTRIES < n" using assms(2) by simp
  ultimately show ?thesis
    using assms(3) unfolding decode_body_def Let_def
    by (simp only: PacketKind.case rbind.simps collect_take_u32 [OF assms(1)] if_False)
qed

section \<open>Round trips\<close>

lemma unat_of_nat_u16: "n \<le> MAX_NACK_ENTRIES \<Longrightarrow> unat (of_nat n :: u16) = n"
  by (simp add: MAX_NACK_ENTRIES_def unat_of_nat)

lemma decode_encode:
  assumes "encode_body b = Inr buf"
  shows "decode_body (Body_kind b) buf = Inr b"
proof (cases b)
  case (B_Nack missing)
  with assms have len: "length missing \<le> MAX_NACK_ENTRIES"
    and buf: "buf = to_be 2 (of_nat (length missing) :: u16) @ concat (map (to_be 4) missing)"
    by (auto split: if_splits)
  have "decode_body PK_Nack buf = Inr (B_Nack (entries (length missing) (drop 2 buf)))"
    using len by (intro decode_nack) (simp_all add: buf unat_of_nat_u16)
  then show ?thesis by (simp add: B_Nack buf entries_of_concat)
qed (use assms in \<open>auto simp: decode_body_def expect_len_def take_u16_eq take_u32_eq take_u64_eq
       Let_def split: if_splits\<close>)

lemma encode_decode:
  assumes "decode_body k buf = Inr b"
  shows "encode_body b = Inr buf \<and> Body_kind b = k"
proof (cases k)
  case PK_Nack
  define n where "n = unat (from_be (take 2 buf) :: u16)"
  from assms PK_Nack have two: "2 \<le> length buf" and le: "n \<le> MAX_NACK_ENTRIES"
    and len: "length buf = 2 + n * 4"
    by (auto simp: decode_body_def rbind_Inr_iff take_u16_Inr_iff Let_def n_def split: if_splits)
  have b: "b = B_Nack (entries n (drop 2 buf))"
    using assms PK_Nack decode_nack [OF len le] by (simp add: n_def)
  have "of_nat n = (from_be (take 2 buf) :: u16)" by (simp add: n_def)
  then have "to_be 2 (of_nat n :: u16) = take 2 buf" using two by (simp add: to_be_from_be_u16)
  moreover have "concat (map (to_be 4) (entries n (drop 2 buf))) = drop 2 buf"
    using len by (intro concat_of_entries) simp
  ultimately show ?thesis using le PK_Nack by (simp add: b)
next
  case PK_Ack
  then have len: "length buf = 10"
    and b: "b = B_Ack (from_be (take 4 buf)) (from_be (take 4 (drop 4 buf))) (from_be (drop 8 buf))"
    using assms by (auto simp: decode_body_def Let_def rbind_Inr_iff take_Inr_iffs)
  have "buf = take 4 buf @ take 4 (drop 4 buf) @ drop 4 (drop 4 buf)"
    by (simp only: append_take_drop_id)
  then show ?thesis using len PK_Ack
    by (simp add: b to_be_from_be_u16 to_be_from_be_u32)
qed (use assms in \<open>auto simp: decode_body_def rbind_Inr_iff take_Inr_iffs Let_def
       to_be_from_be_u32 to_be_from_be_u64 split: if_splits\<close>)

lemma encode_body_Inl_iff:
  "(\<exists>e. encode_body b = Inl e) \<longleftrightarrow>
     (case b of B_Data ts p \<Rightarrow> MAX_PAYLOAD < length p
      | B_Nack m \<Rightarrow> MAX_NACK_ENTRIES < length m | _ \<Rightarrow> False)"
  by (cases b) auto

lemma length_encode_body:
  assumes "encode_body b = Inr buf"
  shows "length buf \<le> 8 + MAX_PAYLOAD"
  using assms by (cases b) (auto simp: MAX_PAYLOAD_def MAX_NACK_ENTRIES_def split: if_splits)

section \<open>Properties\<close>

text \<open>
  C32: decoding a buffer as packet kind \<open>k\<close> yields the body \<open>b\<close> exactly when \<open>b\<close> is of that kind
  and encodes to that buffer; so encoding followed by decoding is the identity, no two buffers
  decode to the same body, and truncated, oversized or trailing input is refused.
\<close>

theorem body_wire_format:
  "decode_body k buf = Inr b \<longleftrightarrow> Body_kind b = k \<and> encode_body b = Inr buf"
  using decode_encode encode_decode by blast

end
