(* ===== verification/Rust_BTree.thy ===== *)
theory Rust_BTree
  imports Rust_Prelude
begin

text \<open>
  The ordered containers of the Rust standard library that the transfer state machines use.
  A \<open>BTreeSet\<close> is the strictly increasing list of its elements and a \<open>BTreeMap\<close> the list of its
  entries with strictly increasing keys, which is also the order their iterators follow.  Each
  has its contract as a locale; the accounting lemma on the total weight of a map (the reorder
  buffer's byte counter rests on it) is proved from the contract alone.
\<close>

section \<open>Operations\<close>

fun bset_insert :: "'a::linorder \<Rightarrow> 'a list \<Rightarrow> 'a list" where
  "bset_insert x [] = [x]"
| "bset_insert x (y # ys) =
     (if x < y then x # y # ys else if x = y then y # ys else y # bset_insert x ys)"

definition bset_remove :: "'a::linorder \<Rightarrow> 'a list \<Rightarrow> 'a list" where
  "bset_remove x ys = filter (\<lambda>y. y \<noteq> x) ys"

fun bmap_insert :: "'k::linorder \<Rightarrow> 'v \<Rightarrow> ('k \<times> 'v) list \<Rightarrow> ('k \<times> 'v) list" where
  "bmap_insert k v [] = [(k, v)]"
| "bmap_insert k v ((k', v') # m) =
     (if k < k' then (k, v) # (k', v') # m
      else if k = k' then (k, v) # m else (k', v') # bmap_insert k v m)"

definition bmap_remove :: "'k::linorder \<Rightarrow> ('k \<times> 'v) list \<Rightarrow> ('k \<times> 'v) list" where
  "bmap_remove k m = filter (\<lambda>e. fst e \<noteq> k) m"

section \<open>Contracts\<close>

locale ordered_set =
  fixes ins :: "'a::linorder \<Rightarrow> 's \<Rightarrow> 's"
    and rem :: "'a \<Rightarrow> 's \<Rightarrow> 's"
    and empty :: 's
    and elems :: "'s \<Rightarrow> 'a list"
    and invar :: "'s \<Rightarrow> bool"
  assumes invar_empty: "invar empty"
    and elems_empty: "elems empty = []"
    and invar_ins: "invar s \<Longrightarrow> invar (ins x s)"
    and invar_rem: "invar s \<Longrightarrow> invar (rem x s)"
    and sorted_elems: "invar s \<Longrightarrow> sorted_wrt (<) (elems s)"
    and set_ins: "invar s \<Longrightarrow> set (elems (ins x s)) = insert x (set (elems s))"
    and set_rem: "invar s \<Longrightarrow> set (elems (rem x s)) = set (elems s) - {x}"
begin

lemma length_ins: "invar s \<Longrightarrow> x \<notin> set (elems s) \<Longrightarrow> length (elems (ins x s)) = Suc (length (elems s))"
  using sorted_elems [of s] sorted_elems [OF invar_ins, of s x] set_ins [of s x]
  by (simp add: strict_sorted_iff flip: distinct_card)

lemma length_rem: "invar s \<Longrightarrow> x \<in> set (elems s) \<Longrightarrow> Suc (length (elems (rem x s))) = length (elems s)"
  using sorted_elems [of s] sorted_elems [OF invar_rem, of s x] set_rem [of s x]
    card_Suc_Diff1 [of "set (elems s)" x]
  by (simp add: strict_sorted_iff flip: distinct_card)

end

locale ordered_map =
  fixes ins :: "'k::linorder \<Rightarrow> 'v \<Rightarrow> 'm \<Rightarrow> 'm"
    and rem :: "'k \<Rightarrow> 'm \<Rightarrow> 'm"
    and empty :: 'm
    and items :: "'m \<Rightarrow> ('k \<times> 'v) list"
    and invar :: "'m \<Rightarrow> bool"
  assumes invar_empty: "invar empty"
    and items_empty: "items empty = []"
    and invar_ins: "invar m \<Longrightarrow> invar (ins k v m)"
    and invar_rem: "invar m \<Longrightarrow> invar (rem k m)"
    and sorted_keys: "invar m \<Longrightarrow> sorted_wrt (<) (map fst (items m))"
    and lookup_ins: "invar m \<Longrightarrow> map_of (items (ins k v m)) = (map_of (items m))(k \<mapsto> v)"
    and lookup_rem: "invar m \<Longrightarrow> map_of (items (rem k m)) = (map_of (items m))(k := None)"
begin

lemma distinct_keys: "invar m \<Longrightarrow> distinct (map fst (items m))"
  using sorted_keys strict_sorted_iff by blast

lemma items_graph: "invar m \<Longrightarrow> set (items m) = {(k, v). map_of (items m) k = Some v}"
  by (auto simp: distinct_keys)

lemma keys_ins: "invar m \<Longrightarrow> fst ` set (items (ins k v m)) = insert k (fst ` set (items m))"
  using dom_map_of_conv_image_fst [of "items (ins k v m)"] dom_map_of_conv_image_fst [of "items m"]
  by (simp add: lookup_ins)

lemma keys_rem: "invar m \<Longrightarrow> fst ` set (items (rem k m)) = fst ` set (items m) - {k}"
  using dom_map_of_conv_image_fst [of "items (rem k m)"] dom_map_of_conv_image_fst [of "items m"]
  by (simp add: lookup_rem)

text \<open>The total of a weight over the values.\<close>

definition weight :: "('v \<Rightarrow> nat) \<Rightarrow> 'm \<Rightarrow> nat" where
  "weight f m = sum_list (map (\<lambda>e. f (snd e)) (items m))"

lemma weight_sum: "invar m \<Longrightarrow> weight f m = (\<Sum>e \<in> set (items m). f (snd e))"
  unfolding weight_def
  by (rule sum_list_distinct_conv_sum_set) (use distinct_keys distinct_map in blast)

lemma weight_ins:
  assumes "invar m" and "map_of (items m) k = None"
  shows "weight f (ins k v m) = weight f m + f v"
proof -
  have "set (items (ins k v m)) = insert (k, v) (set (items m))"
    using assms by (auto simp: items_graph invar_ins lookup_ins split: if_splits)
  moreover have "(k, v) \<notin> set (items m)" using assms by (auto simp: items_graph)
  ultimately show ?thesis using assms(1) by (simp add: weight_sum invar_ins)
qed

lemma weight_rem:
  assumes "invar m" and "map_of (items m) k = Some v"
  shows "weight f m = weight f (rem k m) + f v"
proof -
  have "set (items m) = insert (k, v) (set (items (rem k m)))"
    using assms by (auto simp: items_graph invar_rem lookup_rem split: if_splits)
  moreover have "(k, v) \<notin> set (items (rem k m))"
    using assms by (auto simp: items_graph invar_rem lookup_rem split: if_splits)
  ultimately show ?thesis using assms(1) by (simp add: weight_sum invar_rem)
qed

lemma weight_rem_absent: "invar m \<Longrightarrow> map_of (items m) k = None \<Longrightarrow> set (items (rem k m)) = set (items m)"
  by (auto simp: items_graph invar_rem lookup_rem split: if_splits)

end

section \<open>The lists keep the contracts\<close>

definition bset_invar :: "'a::linorder list \<Rightarrow> bool" where
  "bset_invar s \<longleftrightarrow> sorted_wrt (<) s"

definition bmap_invar :: "('k::linorder \<times> 'v) list \<Rightarrow> bool" where
  "bmap_invar m \<longleftrightarrow> sorted_wrt (<) (map fst m)"

lemma set_bset_insert [simp]: "set (bset_insert x s) = insert x (set s)"
  by (induction s) auto

lemma set_bset_remove [simp]: "set (bset_remove x s) = set s - {x}"
  by (auto simp: bset_remove_def)

lemma sorted_bset_insert: "sorted_wrt (<) s \<Longrightarrow> sorted_wrt (<) (bset_insert x s)"
  by (induction s) auto

lemma length_bset_remove_less: "x \<in> set s \<Longrightarrow> length (bset_remove x s) < length s"
  by (simp add: bset_remove_def length_filter_less)

interpretation bset: ordered_set bset_insert bset_remove "[]" "\<lambda>s. s" bset_invar
  by unfold_locales
    (auto simp: bset_invar_def sorted_bset_insert bset_remove_def sorted_wrt_filter)

lemma keys_bmap_insert [simp]: "fst ` set (bmap_insert k v m) = insert k (fst ` set m)"
  by (induction k v m rule: bmap_insert.induct) auto

lemma map_of_bmap_insert [simp]: "map_of (bmap_insert k v m) = (map_of m)(k \<mapsto> v)"
  by (induction k v m rule: bmap_insert.induct) (auto simp: fun_eq_iff)

lemma map_of_bmap_remove [simp]: "map_of (bmap_remove k m) = (map_of m)(k := None)"
  unfolding bmap_remove_def by (induction m) (auto simp: fun_eq_iff)

lemma sorted_bmap_insert:
  "sorted_wrt (<) (map fst m) \<Longrightarrow> sorted_wrt (<) (map fst (bmap_insert k v m))"
proof (induction k v m rule: bmap_insert.induct)
  case (2 k v k' v' m)
  have "\<forall>y \<in> fst ` set (bmap_insert k v m). k' < y" if "k' < k"
    using that 2 by auto
  then show ?case using 2 by (auto simp: not_less)
qed simp

lemma sorted_bmap_remove:
  "sorted_wrt (<) (map fst m) \<Longrightarrow> sorted_wrt (<) (map fst (bmap_remove k m))"
  unfolding bmap_remove_def by (simp add: sorted_wrt_map sorted_wrt_filter)

interpretation bmap: ordered_map bmap_insert bmap_remove "[]" "\<lambda>m. m" bmap_invar
  by unfold_locales
    (auto simp: bmap_invar_def sorted_bmap_insert sorted_bmap_remove)

end
