(* ===== verification/Pf4_Gap_Tracker.thy ===== *)
theory Pf4_Gap_Tracker
  imports Pf4_Types Rust_BTree
begin

text \<open>
  \<open>protofish4-proto/src/xfer/gap_tracker.rs\<close>: which transfer sequence numbers have arrived, as a
  contiguous prefix plus the ordered set of everything above it.  The abstraction \<open>arrived\<close> is
  the set of sequence numbers the tracker holds; \<open>record\<close> is shown to insert into it and to report
  freshness, and \<open>missing\<close> to list its gaps.  What the receiver relies on is the locale
  \<open>arrival_tracker\<close>, interpreted here on the code's operations.
\<close>

record GapTracker =
  gt_contiguous :: u32
  gt_ahead :: "u32 list"
  gt_highest :: u32

definition GapTracker_new :: GapTracker where
  "GapTracker_new = \<lparr>gt_contiguous = 0, gt_ahead = [], gt_highest = 0\<rparr>"

text \<open>The loop \<open>while ahead.remove(&(contiguous + 1)) { contiguous += 1 }\<close>.\<close>

function advance :: "u32 \<Rightarrow> u32 list \<Rightarrow> u32 \<times> u32 list" where
  "advance contiguous ahead =
     (if contiguous + 1 \<in> set ahead
      then advance (contiguous + 1) (bset_remove (contiguous + 1) ahead)
      else (contiguous, ahead))"
  by pat_completeness auto
termination
  by (relation "measure (\<lambda>(c, a). length a)") (simp_all add: length_bset_remove_less)

declare advance.simps [simp del]

definition gt_record :: "GapTracker \<Rightarrow> XferSeq \<Rightarrow> GapTracker \<times> bool" where
  "gt_record g s =
     (if s = 0 \<or> s \<le> gt_contiguous g then (g, False)
      else if s \<in> set (gt_ahead g) then (g, False)
      else let ahead = bset_insert s (gt_ahead g);
               highest = (if s > gt_highest g then s else gt_highest g);
               (contiguous, ahead') = advance (gt_contiguous g) ahead
           in (g\<lparr>gt_contiguous := contiguous, gt_ahead := ahead', gt_highest := highest\<rparr>, True))"

definition is_complete :: "GapTracker \<Rightarrow> XferSeq \<Rightarrow> bool" where
  "is_complete g final_seq \<longleftrightarrow> gt_contiguous g \<ge> final_seq"

text \<open>The inner loop of \<open>missing\<close>: push while below the next arrival and below the limit.\<close>

function missing_fill :: "usize \<Rightarrow> u32 \<Rightarrow> u32 \<Rightarrow> XferSeq list \<Rightarrow> u32 \<times> XferSeq list" where
  "missing_fill limit have expect out =
     (if expect < have \<and> length out < limit
      then missing_fill limit have (expect + 1) (out @ [expect])
      else (expect, out))"
  by pat_completeness auto
termination
  by (relation "measure (\<lambda>(limit, have, expect, out). limit - length out)") auto

declare missing_fill.simps [simp del]

fun missing_loop :: "usize \<Rightarrow> u32 list \<Rightarrow> u32 \<Rightarrow> XferSeq list \<Rightarrow> XferSeq list" where
  "missing_loop limit [] expect out = out"
| "missing_loop limit (have # rest) expect out =
     (let (expect', out') = missing_fill limit have expect out in
      if length out' \<ge> limit then out'
      else missing_loop limit rest (have + 1) out')"

definition missing :: "GapTracker \<Rightarrow> usize \<Rightarrow> XferSeq list" where
  "missing g limit = missing_loop limit (gt_ahead g) (gt_contiguous g + 1) []"

definition window_span :: "GapTracker \<Rightarrow> u32" where
  "window_span g = sat_sub (gt_highest g) (gt_contiguous g)"

definition abandon :: "GapTracker \<Rightarrow> GapTracker" where
  "abandon g = g\<lparr>gt_ahead := []\<rparr>"

section \<open>Invariant and abstraction\<close>

text \<open>
  The invariant: \<open>ahead\<close> is an ordered set strictly above the successor of the prefix, and
  \<open>highest\<close> bounds both parts.
\<close>

definition gt_invar :: "GapTracker \<Rightarrow> bool" where
  "gt_invar g \<longleftrightarrow> bset_invar (gt_ahead g)
     \<and> (\<forall>s \<in> set (gt_ahead g). unat (gt_contiguous g) + 1 < unat s \<and> s \<le> gt_highest g)
     \<and> gt_contiguous g \<le> gt_highest g"

definition arrived :: "GapTracker \<Rightarrow> u32 set" where
  "arrived g = {s. 0 < s \<and> s \<le> gt_contiguous g} \<union> set (gt_ahead g)"

lemma gt_invar_new: "gt_invar GapTracker_new"
  by (simp add: gt_invar_def GapTracker_new_def bset_invar_def)

lemma arrived_new [simp]: "arrived GapTracker_new = {}"
  by (auto simp: arrived_def GapTracker_new_def)

lemma gt_invar_abandon: "gt_invar g \<Longrightarrow> gt_invar (abandon g)"
  by (simp add: gt_invar_def abandon_def bset_invar_def)

lemma abandon_fields [simp]:
  "gt_contiguous (abandon g) = gt_contiguous g" "gt_highest (abandon g) = gt_highest g"
  "gt_ahead (abandon g) = []"
  by (simp_all add: abandon_def)

section \<open>The prefix loop\<close>

text \<open>
  \<open>advance\<close> moves consecutive elements out of the ordered set into the prefix: what is held
  does not change, the prefix only grows, and it stops in front of a gap.
\<close>

lemma advance_spec:
  assumes "\<forall>s \<in> set a. unat c < unat s" and "bset_invar a" and "advance c a = (c', a')"
  shows "bset_invar a' \<and> unat c \<le> unat c' \<and> c' + 1 \<notin> set a'
    \<and> set a' = {s \<in> set a. unat c' < unat s}
    \<and> (\<forall>s. unat c < unat s \<and> unat s \<le> unat c' \<longrightarrow> s \<in> set a)"
  using assms
proof (induction c a rule: advance.induct)
  case (1 c a)
  show ?case
  proof (cases "c + 1 \<in> set a")
    case False
    with "1.prems" show ?thesis by (auto simp: advance.simps [of c a])
  next
    case True
    with "1.prems"(1) have "unat c < unat (c + 1)" by blast
    then have suc: "unat (c + 1) = Suc (unat c)" by (simp add: unat_succ_less word_less_nat_alt)
    let ?a = "bset_remove (c + 1) a"
    have above: "\<forall>s \<in> set ?a. unat (c + 1) < unat s"
    proof
      fix s assume "s \<in> set ?a"
      then have "s \<in> set a" and "s \<noteq> c + 1" by auto
      with "1.prems"(1) suc show "unat (c + 1) < unat s"
        by (metis Suc_lessI word_unat_eq_iff)
    qed
    have inv: "bset_invar ?a" using "1.prems"(2) by (rule bset.invar_rem)
    have adv: "advance (c + 1) ?a = (c', a')"
      using True "1.prems"(3) by (simp add: advance.simps [of c a])
    from "1.IH" [OF True above inv adv]
    have IH: "bset_invar a'" "unat (c + 1) \<le> unat c'" "c' + 1 \<notin> set a'"
      "set a' = {s \<in> set ?a. unat c' < unat s}"
      "\<And>s. unat (c + 1) < unat s \<Longrightarrow> unat s \<le> unat c' \<Longrightarrow> s \<in> set ?a"
      by blast+
    have "s \<in> set a" if "unat c < unat s" "unat s \<le> unat c'" for s
    proof (cases "s = c + 1")
      case False
      then have "unat (c + 1) < unat s" using that suc by (metis Suc_lessI word_unat_eq_iff)
      with IH(5) that show ?thesis by auto
    qed (use True in simp)
    moreover have "s \<noteq> c + 1" if "unat c' < unat s" for s
      using IH(2) that leD by blast
    then have "set a' = {s \<in> set a. unat c' < unat s}"
      unfolding IH(4) set_bset_remove by blast
    moreover have "unat c \<le> unat c'" using IH(2) suc by simp
    ultimately show ?thesis using IH(1,3) by blast
  qed
qed

section \<open>Recording an arrival\<close>

lemma gt_record_stale:
  assumes "s = 0 \<or> s \<in> arrived g"
  shows "gt_record g s = (g, False)"
  using assms by (auto simp: gt_record_def arrived_def)

lemma arrived_iff:
  "x \<in> arrived g \<longleftrightarrow> 0 < unat x \<and> unat x \<le> unat (gt_contiguous g) \<or> x \<in> set (gt_ahead g)"
  by (simp add: arrived_def word_le_nat_alt word_less_nat_alt)

text \<open>What the loop makes of a new arrival.\<close>

lemma advance_insert:
  assumes inv: "gt_invar g" and s: "unat (gt_contiguous g) < unat s"
    and adv: "advance (gt_contiguous g) (bset_insert s (gt_ahead g)) = (c, a)"
  shows "bset_invar a" and "unat (gt_contiguous g) \<le> unat c" and "c + 1 \<notin> set a"
    and "set a = {x \<in> insert s (set (gt_ahead g)). unat c < unat x}"
    and "unat (gt_contiguous g) < unat x \<Longrightarrow> unat x \<le> unat c \<Longrightarrow> x \<in> insert s (set (gt_ahead g))"
proof -
  have "\<forall>x \<in> set (bset_insert s (gt_ahead g)). unat (gt_contiguous g) < unat x" using s inv by (auto simp: gt_invar_def)
  moreover have b: "bset_invar (gt_ahead g)" using inv by (simp add: gt_invar_def)
  then have "bset_invar (bset_insert s (gt_ahead g))" "set (bset_insert s (gt_ahead g)) = insert s (set (gt_ahead g))"
    by (auto intro: bset.invar_ins)
  ultimately show "bset_invar a" "unat (gt_contiguous g) \<le> unat c" "c + 1 \<notin> set a"
    "set a = {x \<in> insert s (set (gt_ahead g)). unat c < unat x}"
    "unat (gt_contiguous g) < unat x \<Longrightarrow> unat x \<le> unat c \<Longrightarrow> x \<in> insert s (set (gt_ahead g))"
    using advance_spec [OF _ _ adv] by auto
qed

lemma advance_insert_invar:
  assumes inv: "gt_invar g" and s: "unat (gt_contiguous g) < unat s"
    and adv: "advance (gt_contiguous g) (bset_insert s (gt_ahead g)) = (c, a)"
  shows "gt_invar (g\<lparr>gt_contiguous := c, gt_ahead := a, gt_highest := max (gt_highest g) s\<rparr>)"
proof -
  note adv' = advance_insert [OF inv s adv]
  let ?h = "max (gt_highest g) s"
  have le_high: "x \<le> ?h" if "x \<in> insert s (set (gt_ahead g))" for x
    using that inv by (auto simp: gt_invar_def le_max_iff_disj)
  have "unat c + 1 < unat x \<and> x \<le> ?h" if "x \<in> set a" for x
  proof -
    have "unat c < unat x" and "x \<noteq> c + 1" and "x \<in> insert s (set (gt_ahead g))" using that adv'(3,4) by auto
    moreover have "unat (c + 1) = Suc (unat c)"
      using \<open>unat c < unat x\<close> by (simp add: unat_succ_less word_less_nat_alt)
    ultimately show ?thesis using le_high by (metis Suc_eq_plus1 Suc_lessI word_unat_eq_iff)
  qed
  moreover have "c \<le> ?h"
  proof (cases "c = gt_contiguous g")
    case True
    with inv show ?thesis by (simp add: gt_invar_def le_max_iff_disj)
  next
    case False
    with adv'(2) have "unat (gt_contiguous g) < unat c" by (metis le_neq_implies_less word_unat_eq_iff)
    with adv'(5) le_high show ?thesis by blast
  qed
  ultimately show ?thesis using adv'(1) by (simp add: gt_invar_def)
qed

lemma gt_record_fresh:
  assumes inv: "gt_invar g" and fresh: "s \<noteq> 0" "s \<notin> arrived g"
  obtains g' where "gt_record g s = (g', True)" and "gt_invar g'"
    and "arrived g' = insert s (arrived g)"
    and "unat (gt_contiguous g) \<le> unat (gt_contiguous g')"
    and "gt_highest g' = max (gt_highest g) s"
    and "set (gt_ahead g') = {x \<in> insert s (set (gt_ahead g)). unat (gt_contiguous g') < unat x}"
proof -
  let ?c = "gt_contiguous g" and ?a = "insert s (set (gt_ahead g))"
  obtain c' a' where adv: "advance ?c (bset_insert s (gt_ahead g)) = (c', a')" by force
  have s: "unat ?c < unat s" and notin: "s \<notin> set (gt_ahead g)"
    using fresh by (auto simp: arrived_def word_gt_0 not_le simp flip: word_less_nat_alt)
  note adv' = advance_insert [OF inv s adv]
  define g' where "g' = g\<lparr>gt_contiguous := c', gt_ahead := a', gt_highest := max (gt_highest g) s\<rparr>"
  have rec: "gt_record g s = (g', True)"
    using s notin fresh(1) adv
    by (auto simp: gt_record_def g'_def Let_def max_def not_less not_le simp flip: word_less_nat_alt)
  have "x \<in> arrived g' \<longleftrightarrow> x \<in> insert s (arrived g)" for x
  proof -
    have "x \<in> arrived g' \<longleftrightarrow> 0 < unat x \<and> unat x \<le> unat c' \<or> x \<in> ?a \<and> unat c' < unat x"
      unfolding arrived_iff by (simp add: g'_def adv'(4))
    also have "\<dots> \<longleftrightarrow> 0 < unat x \<and> unat x \<le> unat ?c \<or> x \<in> ?a"
    proof -
      have "0 < unat x" if "x \<in> ?a" using that s inv by (auto simp: gt_invar_def)
      then show ?thesis using adv'(2) adv'(5) [of x] by linarith
    qed
    also have "\<dots> \<longleftrightarrow> x \<in> insert s (arrived g)" by (auto simp: arrived_iff)
    finally show ?thesis .
  qed
  with rec advance_insert_invar [OF inv s adv] adv'(2,4) show thesis by (intro that [of g']) (auto simp: g'_def)
qed

lemma gt_record_laws:
  assumes "gt_invar g"
  shows "gt_invar (fst (gt_record g s))"
    and "snd (gt_record g s) \<longleftrightarrow> s \<noteq> 0 \<and> s \<notin> arrived g"
    and "arrived (fst (gt_record g s)) = arrived g \<union> ({s} - {0})"
    and "unat (gt_contiguous g) \<le> unat (gt_contiguous (fst (gt_record g s)))"
    and "gt_highest (fst (gt_record g s)) = max (gt_highest g) s"
proof -
  have le: "s \<le> gt_highest g" if "s = 0 \<or> s \<in> arrived g"
    using that assms by (auto simp: arrived_def gt_invar_def)
  show "gt_invar (fst (gt_record g s))" "snd (gt_record g s) \<longleftrightarrow> s \<noteq> 0 \<and> s \<notin> arrived g"
    "arrived (fst (gt_record g s)) = arrived g \<union> ({s} - {0})"
    "unat (gt_contiguous g) \<le> unat (gt_contiguous (fst (gt_record g s)))"
    "gt_highest (fst (gt_record g s)) = max (gt_highest g) s"
    by (cases "s = 0 \<or> s \<in> arrived g",
        use assms le in \<open>auto simp: gt_record_stale max_absorb1\<close>,
        use assms in \<open>auto elim: gt_record_fresh\<close>)+
qed

lemma prefix_arrived: "s \<noteq> 0 \<Longrightarrow> s \<le> gt_contiguous g \<Longrightarrow> s \<in> arrived g"
  by (simp add: arrived_def word_gt_0)

lemma prefix_maximal: "gt_invar g \<Longrightarrow> unat s = Suc (unat (gt_contiguous g)) \<Longrightarrow> s \<notin> arrived g"
  by (auto simp: arrived_def gt_invar_def word_le_nat_alt)

lemma arrived_above: "gt_invar g \<Longrightarrow> {s \<in> arrived g. gt_contiguous g < s} = set (gt_ahead g)"
  by (auto simp: arrived_def gt_invar_def word_less_nat_alt word_le_nat_alt)

section \<open>What a client relies on\<close>

text \<open>Recording a whole sequence of arrivals, with the sub-sequence reported fresh.\<close>

primrec rec_all :: "('g \<Rightarrow> u32 \<Rightarrow> 'g \<times> bool) \<Rightarrow> 'g \<Rightarrow> u32 list \<Rightarrow> 'g \<times> u32 list" where
  "rec_all rec g [] = (g, [])"
| "rec_all rec g (s # ss) =
     (let (g', fresh) = rec g s; (g'', fs) = rec_all rec g' ss
      in (g'', if fresh then s # fs else fs))"

locale arrival_tracker =
  fixes rec :: "'g \<Rightarrow> u32 \<Rightarrow> 'g \<times> bool"
    and init :: 'g
    and held :: "'g \<Rightarrow> u32 set"
    and prefix :: "'g \<Rightarrow> u32"
    and top :: "'g \<Rightarrow> u32"
    and invar :: "'g \<Rightarrow> bool"
  assumes invar_init: "invar init"
    and held_init: "held init = {}"
    and top_init: "top init = 0"
    and invar_rec: "invar g \<Longrightarrow> invar (fst (rec g s))"
    and rec_fresh: "invar g \<Longrightarrow> snd (rec g s) \<longleftrightarrow> s \<noteq> 0 \<and> s \<notin> held g"
    and rec_held: "invar g \<Longrightarrow> held (fst (rec g s)) = held g \<union> ({s} - {0})"
    and rec_top: "invar g \<Longrightarrow> top (fst (rec g s)) = max (top g) s"
    and prefix_held: "invar g \<Longrightarrow> s \<noteq> 0 \<Longrightarrow> s \<le> prefix g \<Longrightarrow> s \<in> held g"
    and prefix_gap: "invar g \<Longrightarrow> unat s = Suc (unat (prefix g)) \<Longrightarrow> s \<notin> held g"
begin

lemma fst_rec_all_Cons: "fst (rec_all rec g (s # ss)) = fst (rec_all rec (fst (rec g s)) ss)"
  by (simp add: split_beta)

lemma snd_rec_all_Cons:
  "snd (rec_all rec g (s # ss)) =
     (if snd (rec g s) then s # snd (rec_all rec (fst (rec g s)) ss)
      else snd (rec_all rec (fst (rec g s)) ss))"
  by (simp add: split_beta)

lemma invar_rec_all: "invar g \<Longrightarrow> invar (fst (rec_all rec g ss))"
  by (induction ss arbitrary: g) (auto simp: fst_rec_all_Cons invar_rec simp del: rec_all.simps(2))

lemma held_rec_all: "invar g \<Longrightarrow> held (fst (rec_all rec g ss)) = held g \<union> (set ss - {0})"
  by (induction ss arbitrary: g)
    (auto simp: fst_rec_all_Cons invar_rec rec_held simp del: rec_all.simps(2))

text \<open>Every sequence number is fresh at most once.\<close>

lemma fresh_once:
  "invar g \<Longrightarrow> distinct (snd (rec_all rec g ss))
     \<and> set (snd (rec_all rec g ss)) = set ss - {0} - held g"
proof (induction ss arbitrary: g)
  case Nil
  then show ?case by simp
next
  case (Cons s ss)
  have IH: "distinct (snd (rec_all rec (fst (rec g s)) ss))"
    "set (snd (rec_all rec (fst (rec g s)) ss)) = set ss - {0} - held (fst (rec g s))"
    using Cons.IH [OF invar_rec [OF Cons.prems]] by auto
  then show ?case
    using rec_fresh [OF Cons.prems, of s] rec_held [OF Cons.prems, of s]
    by (auto simp: snd_rec_all_Cons simp del: rec_all.simps(2))
qed

text \<open>The prefix is the longest run from 1 that is held.\<close>

lemma prefix_le_iff:
  assumes "invar g"
  shows "n \<le> prefix g \<longleftrightarrow> (\<forall>s. s \<noteq> 0 \<and> s \<le> n \<longrightarrow> s \<in> held g)"
proof
  assume "n \<le> prefix g"
  then show "\<forall>s. s \<noteq> 0 \<and> s \<le> n \<longrightarrow> s \<in> held g"
    using prefix_held [OF assms] by (meson order_trans)
next
  assume all: "\<forall>s. s \<noteq> 0 \<and> s \<le> n \<longrightarrow> s \<in> held g"
  show "n \<le> prefix g"
  proof (rule ccontr)
    assume "\<not> n \<le> prefix g"
    then have lt: "prefix g < n" by simp
    then have suc: "unat (prefix g + 1) = Suc (unat (prefix g))" by (rule unat_succ_less)
    with lt have "prefix g + 1 \<le> n" by (simp add: word_le_nat_alt word_less_nat_alt)
    moreover have "prefix g + 1 \<noteq> 0" using suc by auto
    ultimately show False using all prefix_gap [OF assms suc] by blast
  qed
qed

lemma prefix_mono: "invar g \<Longrightarrow> prefix g \<le> prefix (fst (rec g s))"
  using prefix_le_iff [OF invar_rec, of g "prefix g" s] prefix_held [of g] rec_held [of g s] by blast

lemma prefix_rec_all:
  "n \<le> prefix (fst (rec_all rec init ss)) \<longleftrightarrow> (\<forall>s. s \<noteq> 0 \<and> s \<le> n \<longrightarrow> s \<in> set ss)"
  using prefix_le_iff [OF invar_rec_all [OF invar_init]] held_rec_all [OF invar_init, of ss]
  by (auto simp: held_init)

end

interpretation gt: arrival_tracker gt_record GapTracker_new arrived gt_contiguous gt_highest gt_invar
proof unfold_locales
  show "gt_highest GapTracker_new = 0" by (simp add: GapTracker_new_def)
qed (auto simp: gt_invar_new gt_record_laws intro: prefix_arrived dest: prefix_maximal)

section \<open>Listing the gaps\<close>

text \<open>The gaps in front of and between the elements of an ordered list.\<close>

fun gaps_between :: "u32 \<Rightarrow> u32 list \<Rightarrow> u32 list" where
  "gaps_between e [] = []"
| "gaps_between e (h # hs) = word_range e h @ gaps_between (h + 1) hs"

lemma missing_fill_spec:
  assumes "length out \<le> limit"
  shows "snd (missing_fill limit h e out) = take limit (out @ word_range e h)"
  using assms
proof (induction limit h e out rule: missing_fill.induct)
  case (1 limit h e out)
  show ?case
  proof (cases "e < h \<and> length out < limit")
    case True
    with "1" show ?thesis by (simp add: missing_fill.simps [of limit h e out] word_range_Cons)
  next
    case False
    with "1.prems" show ?thesis
      by (auto simp: missing_fill.simps [of limit h e out] word_range_empty)
  qed
qed

lemma missing_loop_spec:
  assumes "length out \<le> limit"
  shows "missing_loop limit ahead e out = take limit (out @ gaps_between e ahead)"
  using assms
proof (induction ahead arbitrary: e out)
  case Nil
  then show ?case by simp
next
  case (Cons h hs)
  obtain e' out' where fill: "missing_fill limit h e out = (e', out')"
    by (cases "missing_fill limit h e out")
  have out': "out' = take limit (out @ word_range e h)"
    using missing_fill_spec [of out limit h e] Cons.prems fill by simp
  show ?case
  proof (cases "length out' \<ge> limit")
    case True
    then have "limit \<le> length (out @ word_range e h)" using out' by simp
    with True fill out' show ?thesis by simp
  next
    case False
    then have "out' = out @ word_range e h" using out' by auto
    with Cons.IH [of out' "h + 1"] False fill show ?thesis by simp
  qed
qed

lemma missing_gaps: "missing g limit = take limit (gaps_between (gt_contiguous g + 1) (gt_ahead g))"
  by (simp add: missing_def missing_loop_spec)

text \<open>Words above \<open>e\<close>; the successor of a word below an element does not wrap.\<close>

lemma succ_le_iff: "a < b \<Longrightarrow> a + 1 \<le> s \<longleftrightarrow> a < s" for a b s :: u32
  using unat_succ_less [of a b] by (simp add: word_le_nat_alt word_less_nat_alt Suc_le_eq)

lemma set_gaps_between:
  assumes "sorted_wrt (<) hs" and "\<forall>h \<in> set hs. e \<le> h"
  shows "set (gaps_between e hs) = {s. e \<le> s \<and> s \<notin> set hs \<and> (\<exists>h \<in> set hs. s < h)}"
  using assms
proof (induction hs arbitrary: e)
  case Nil
  then show ?case by simp
next
  case (Cons h hs)
  have above: "\<forall>x \<in> set hs. h < x" using Cons.prems(1) by simp
  have "set (gaps_between (h + 1) hs) = {s. h + 1 \<le> s \<and> s \<notin> set hs \<and> (\<exists>x \<in> set hs. s < x)}"
    using Cons.prems(1) above succ_le_iff [of h] by (intro Cons.IH) auto
  also have "\<dots> = {s. h < s \<and> s \<notin> set hs \<and> (\<exists>x \<in> set hs. s < x)}"
    using above succ_le_iff [of h] by blast
  finally show ?case
    using above Cons.prems(2) by (auto dest: order.strict_trans)
qed

lemma sorted_gaps_between:
  assumes "sorted_wrt (<) hs" and "\<forall>h \<in> set hs. e \<le> h"
  shows "sorted_wrt (<) (gaps_between e hs)"
  using assms
proof (induction hs arbitrary: e)
  case Nil
  then show ?case by simp
next
  case (Cons h hs)
  have above: "\<forall>x \<in> set hs. h < x" using Cons.prems(1) by simp
  then have above': "\<forall>x \<in> set hs. h + 1 \<le> x" using succ_le_iff [of h] by blast
  then have "\<forall>s \<in> set (gaps_between (h + 1) hs). h + 1 \<le> s \<and> (\<exists>x \<in> set hs. s < x)"
    using Cons.prems(1) set_gaps_between [of hs "h + 1"] by auto
  then have "\<forall>s \<in> set (gaps_between (h + 1) hs). h < s"
    using above succ_le_iff [of h] by blast
  then show ?case
    using Cons above' by (auto simp: sorted_wrt_append sorted_word_range dest: order.strict_trans)
qed

lemma ahead_above:
  assumes "gt_invar g" and "s \<in> set (gt_ahead g)"
  shows "gt_contiguous g < s" and "gt_contiguous g + 1 \<le> s" and "gt_contiguous g + 1 < s"
    and "s \<le> gt_highest g"
proof -
  have s: "unat (gt_contiguous g) + 1 < unat s" "s \<le> gt_highest g"
    using assms by (auto simp: gt_invar_def)
  then show lt: "gt_contiguous g < s" and "s \<le> gt_highest g" by (auto simp: word_less_nat_alt)
  from unat_succ_less [OF lt] s(1)
  show "gt_contiguous g + 1 \<le> s" and "gt_contiguous g + 1 < s"
    by (auto simp: word_le_nat_alt word_less_nat_alt)
qed

lemma set_missing_all:
  assumes "gt_invar g"
  shows "set (gaps_between (gt_contiguous g + 1) (gt_ahead g))
       = {s. gt_contiguous g < s \<and> s \<notin> arrived g \<and> (\<exists>a \<in> arrived g. s < a)}"
proof -
  have sorted: "sorted_wrt (<) (gt_ahead g)" using assms by (simp add: gt_invar_def bset_invar_def)
  have above: "\<forall>h \<in> set (gt_ahead g). gt_contiguous g + 1 \<le> h" using ahead_above(2) [OF assms] by blast
  have mem: "s \<in> arrived g \<longleftrightarrow> s \<in> set (gt_ahead g)" if "gt_contiguous g < s" for s
    using that by (auto simp: arrived_def)
  show ?thesis
    unfolding set_gaps_between [OF sorted above]
    using succ_le_iff [OF ahead_above(1) [OF assms]] mem
    by (auto intro: order.strict_trans)
qed

lemma missing_sorted_list:
  assumes "gt_invar g"
  shows "missing g limit = take limit (sorted_list_of_set
           {s. gt_contiguous g < s \<and> s \<notin> arrived g \<and> (\<exists>a \<in> arrived g. s < a)})"
proof -
  let ?l = "gaps_between (gt_contiguous g + 1) (gt_ahead g)"
  have "sorted_wrt (<) ?l"
    using assms ahead_above(2) [OF assms] 
    by (intro sorted_gaps_between) (auto simp: gt_invar_def bset_invar_def)
  then have "sorted_list_of_set (set ?l) = ?l"
    by (simp add: sorted_list_of_set.idem_if_sorted_distinct strict_sorted_iff)
  then show ?thesis by (simp add: missing_gaps set_missing_all [OF assms])
qed

lemma missingD:
  assumes "gt_invar g" and "s \<in> set (missing g limit)"
  shows "gt_contiguous g < s" and "s \<notin> arrived g" and "\<exists>a \<in> set (gt_ahead g). s < a"
proof -
  have "s \<in> set (gaps_between (gt_contiguous g + 1) (gt_ahead g))"
    using assms(2) set_take_subset by (fastforce simp: missing_gaps)
  then show "gt_contiguous g < s" "s \<notin> arrived g" "\<exists>a \<in> set (gt_ahead g). s < a"
    unfolding set_missing_all [OF assms(1)] using arrived_above [OF assms(1)]
    by (auto dest: order.strict_trans)
qed

lemma length_missing: "length (missing g limit) \<le> limit"
  by (simp add: missing_gaps)

lemma distinct_missing: "gt_invar g \<Longrightarrow> distinct (missing g limit)"
  by (simp add: missing_sorted_list distinct_take)

lemma missing_no_ahead: "gt_ahead g = [] \<Longrightarrow> missing g limit = []"
  by (simp add: missing_gaps)

section \<open>Properties\<close>

text \<open>
  After any sequence of arrivals the contiguous prefix reaches \<open>n\<close> exactly when every
  sequence number from 1 to \<open>n\<close> has arrived, in whatever order and however often; it is the
  longest gap-free run.
\<close>

lemma prefix_is_longest_run:
  "n \<le> gt_contiguous (fst (rec_all gt_record GapTracker_new ss)) \<longleftrightarrow> {1..n} \<subseteq> set ss"
proof -
  have "s \<noteq> 0 \<and> s \<le> n \<longleftrightarrow> s \<in> {1..n}" for s :: u32
    by (auto simp: word_le_nat_alt Suc_le_eq unat_gt_0)
  then show ?thesis using gt.prefix_rec_all [of n ss] by auto
qed

text \<open>
  C29: \<open>missing\<close> lists, in increasing order and up to its limit, exactly the numbers above the
  prefix that have not arrived although a later one has.
\<close>

theorem missing_lists_gaps:
  assumes "gt_invar g"
  shows "missing g limit = take limit (sorted_list_of_set
           {s. gt_contiguous g < s \<and> s \<notin> arrived g \<and> (\<exists>a \<in> arrived g. s < a)})"
  using assms by (rule missing_sorted_list)

theorem missing_lists_gaps_witness:
  "missing (fst (rec_all gt_record GapTracker_new [1, 4])) 9 = take 9 (sorted_list_of_set
     {s. gt_contiguous (fst (rec_all gt_record GapTracker_new [1, 4])) < s
         \<and> s \<notin> arrived (fst (rec_all gt_record GapTracker_new [1, 4]))
         \<and> (\<exists>a \<in> arrived (fst (rec_all gt_record GapTracker_new [1, 4])). s < a)})
   \<and> missing (fst (rec_all gt_record GapTracker_new [1, 4])) 9 = [2, 3]"
proof
  show "missing (fst (rec_all gt_record GapTracker_new [1, 4])) 9 = [2, 3]" by code_simp
qed (rule missing_lists_gaps [OF gt.invar_rec_all [OF gt_invar_new]])

end
