(* ===== verification/Machine.thy ===== *)
theory Machine
  imports Main
begin

text \<open>
  Runs of a deterministic machine that consumes inputs and emits events, and the proof principle
  for them: a relation between the inputs consumed, the events emitted and the state reached
  that holds at the start and survives every step holds after every run.  Both transfer state
  machines are instances.  A machine whose inputs may have to wait is run by \<open>run_opt\<close>.
\<close>

primrec run :: "('s \<Rightarrow> 'i \<Rightarrow> 's \<times> 'e list) \<Rightarrow> 's \<Rightarrow> 'i list \<Rightarrow> 's \<times> 'e list" where
  "run step s [] = (s, [])"
| "run step s (i # is) =
     (let (s1, e1) = step s i; (s2, e2) = run step s1 is in (s2, e1 @ e2))"

abbreviation final :: "('s \<Rightarrow> 'i \<Rightarrow> 's \<times> 'e list) \<Rightarrow> 's \<Rightarrow> 'i list \<Rightarrow> 's" where
  "final step s is \<equiv> fst (run step s is)"

abbreviation trace :: "('s \<Rightarrow> 'i \<Rightarrow> 's \<times> 'e list) \<Rightarrow> 's \<Rightarrow> 'i list \<Rightarrow> 'e list" where
  "trace step s is \<equiv> snd (run step s is)"

text \<open>
  Code that appends to one vector of events while it changes the state: run the first part, then
  the second from the state it left.  \<open>after\<close> reads a relation between events and state past such
  a part.
\<close>

definition andthen :: "'s \<times> 'e list \<Rightarrow> ('s \<Rightarrow> 's \<times> 'e list) \<Rightarrow> 's \<times> 'e list" where
  "andthen r f = (let (s, es) = r; (s', fs) = f s in (s', es @ fs))"

definition after :: "('e list \<Rightarrow> 's \<Rightarrow> bool) \<Rightarrow> 'e list \<Rightarrow> 's \<times> 'e list \<Rightarrow> bool" where
  "after P es r \<longleftrightarrow> P (es @ snd r) (fst r)"

lemma fst_andthen [simp]: "fst (andthen r f) = fst (f (fst r))"
  by (simp add: andthen_def split_beta)

lemma snd_andthen [simp]: "snd (andthen r f) = snd r @ snd (f (fst r))"
  by (simp add: andthen_def split_beta)

lemma andthen_silent: "andthen (s, []) f = f s"
  by (simp add: andthen_def)

lemma andthen_cong [fundef_cong]:
  "r = r' \<Longrightarrow> f (fst r') = g (fst r') \<Longrightarrow> andthen r f = andthen r' g"
  by (simp add: andthen_def split_beta)

lemma after_pair [simp]: "after P es (s, fs) \<longleftrightarrow> P (es @ fs) s"
  by (simp add: after_def)

lemma after_andthen:
  assumes "after P es r" and "\<And>fs s. P fs s \<Longrightarrow> after P fs (f s)"
  shows "after P es (andthen r f)"
  using assms(1) assms(2) [of "es @ snd r" "fst r"] by (simp add: after_def)

lemma run_append:
  "run step s (is @ js) =
     (final step (final step s is) js, trace step s is @ trace step (final step s is) js)"
  by (induction "is" arbitrary: s) (simp_all add: split_beta)

lemma final_append: "final step s (is @ js) = final step (final step s is) js"
  by (simp add: run_append)

lemma trace_append: "trace step s (is @ js) = trace step s is @ trace step (final step s is) js"
  by (simp add: run_append)

lemma final_snoc: "final step s (is @ [i]) = fst (step (final step s is) i)"
  by (simp add: run_append split_beta)

lemma trace_snoc: "trace step s (is @ [i]) = trace step s is @ snd (step (final step s is) i)"
  by (simp add: run_append split_beta)

locale history_invariant =
  fixes step :: "'s \<Rightarrow> 'i \<Rightarrow> 's \<times> 'e list"
    and init :: 's
    and I :: "'i list \<Rightarrow> 'e list \<Rightarrow> 's \<Rightarrow> bool"
  assumes base: "I [] [] init"
    and preserved: "I is es s \<Longrightarrow> I (is @ [i]) (es @ snd (step s i)) (fst (step s i))"
begin

lemma holds: "I is (trace step init is) (final step init is)"
proof (induction "is" rule: rev_induct)
  case Nil
  then show ?case using base by simp
next
  case (snoc i "is")
  then show ?case unfolding final_snoc trace_snoc by (rule preserved)
qed

end

text \<open>An invariant of the state alone is the special case that ignores the history.\<close>

locale state_invariant =
  fixes step :: "'s \<Rightarrow> 'i \<Rightarrow> 's \<times> 'e list"
    and init :: 's
    and J :: "'s \<Rightarrow> bool"
  assumes init_ok: "J init"
    and step_ok: "J s \<Longrightarrow> J (fst (step s i))"

sublocale state_invariant \<subseteq> history_invariant step init "\<lambda>is es s. J s"
  by unfold_locales (use init_ok step_ok in auto)

section \<open>Refinement\<close>

text \<open>
  A specification is a step relation: it may leave choices open (when to give up, for instance).
  \<open>runs\<close> is its reflexive closure over a list of inputs, growing at the end as \<open>trace_snoc\<close> does.
\<close>

inductive runs :: "('t \<Rightarrow> 'i \<Rightarrow> 'o list \<Rightarrow> 't \<Rightarrow> bool) \<Rightarrow> 't \<Rightarrow> 'i list \<Rightarrow> 'o list \<Rightarrow> 't \<Rightarrow> bool"
  for astep :: "'t \<Rightarrow> 'i \<Rightarrow> 'o list \<Rightarrow> 't \<Rightarrow> bool" and t :: 't
where
  runs_nil [intro!]: "runs astep t [] [] t"
| runs_snoc [intro]: "runs astep t is os t' \<Longrightarrow> astep t' i os' t'' \<Longrightarrow> runs astep t (is @ [i]) (os @ os') t''"

lemma runs_deterministic: "runs (\<lambda>s i es s'. f s i = (s', es)) t is es t' \<Longrightarrow> run f t is = (t', es)"
  by (induction rule: runs.induct) (simp_all add: run_append)

text \<open>
  A forward simulation with an abstraction function: every step of the machine, from a state it
  can reach, is a step of the specification under the same input with the observed outputs.
\<close>

locale simulation =
  fixes step :: "'s \<Rightarrow> 'i \<Rightarrow> 's \<times> 'e list"
    and init :: 's
    and astep :: "'t \<Rightarrow> 'i \<Rightarrow> 'o list \<Rightarrow> 't \<Rightarrow> bool"
    and abs :: "'s \<Rightarrow> 't"
    and obs :: "'e list \<Rightarrow> 'o list"
  assumes obs_nil: "obs [] = []"
    and obs_append: "obs (es @ fs) = obs es @ obs fs"
    and simulates: "s = final step init is \<Longrightarrow>
      astep (abs s) i (obs (snd (step s i))) (abs (fst (step s i)))"
begin

lemma refines: "runs astep (abs init) is (obs (trace step init is)) (abs (final step init is))"
proof (induction "is" rule: rev_induct)
  case Nil
  then show ?case by (simp add: obs_nil runs_nil)
next
  case (snoc i "is")
  then show ?case
    unfolding trace_snoc final_snoc obs_append using simulates [OF refl, of "is" i] by (rule runs_snoc)
qed

end

section \<open>Runs that may have to wait\<close>

text \<open>A step without a value is one that has to wait; a run of steps that can be made.\<close>

primrec run_opt ::
  "('s \<Rightarrow> 'i \<Rightarrow> ('s \<times> 'e list) option) \<Rightarrow> 's \<Rightarrow> 'i list \<Rightarrow> ('s \<times> 'e list) option" where
  "run_opt step s [] = Some (s, [])"
| "run_opt step s (i # is) =
     (case step s i of
        None \<Rightarrow> None
      | Some (s1, e1) \<Rightarrow>
          (case run_opt step s1 is of None \<Rightarrow> None | Some (s2, e2) \<Rightarrow> Some (s2, e1 @ e2)))"

lemma run_opt_cons:
  "run_opt step s (i # is) = Some (s2, es) \<longleftrightarrow>
     (\<exists>s1 e1 e2. step s i = Some (s1, e1) \<and> run_opt step s1 is = Some (s2, e2) \<and> es = e1 @ e2)"
  by (auto split: option.splits)

lemma run_opt_append:
  "run_opt step s (is @ js) =
     (case run_opt step s is of
        None \<Rightarrow> None
      | Some (s1, e1) \<Rightarrow>
          (case run_opt step s1 js of None \<Rightarrow> None | Some (s2, e2) \<Rightarrow> Some (s2, e1 @ e2)))"
  by (induction "is" arbitrary: s) (auto split: option.splits prod.splits)

lemma run_opt_runs:
  assumes "run_opt step s is = Some (s', es)"
  shows "runs (\<lambda>s i es s'. step s i = Some (s', es)) s is es s'"
  using assms
proof (induction "is" arbitrary: s' es rule: rev_induct)
  case (snoc i "is")
  then obtain s1 e1 e2 where "run_opt step s is = Some (s1, e1)" "step s1 i = Some (s', e2)" "es = e1 @ e2"
    by (auto simp: run_opt_append split: option.splits)
  then show ?case using snoc.IH by blast
qed auto

end
