(* ===== verification/Pf4_Receiver.thy ===== *)
theory Pf4_Receiver
  imports Pf4_Config Pf4_Codec Pf4_Gap_Tracker Machine
begin

text \<open>
  \<open>protofish4-proto/src/xfer/receiver.rs\<close>: the receiving half of one transfer.  The state is the
  code's record; every method is a function from the state to the new state and the events the
  code pushes to its \<open>out\<close> vector, in order.  \<open>recv_step\<close> gathers the public methods as the
  inputs of one machine.  The lemmas establish the invariant that ties the reorder buffer, its
  byte counter and the gap tracker together, and what the two output streams may contain.
\<close>

section \<open>State and events\<close>

record Frame =
  fr_seq :: XferSeq
  fr_ts :: TimestampMs
  fr_payload :: bytes

datatype RecvEvent =
  Unreliable Frame
| Reliable Frame
| SendNack "XferSeq list"
| SendAck XferSeq XferSeq u16
| SendEndAck
| RelFinished RelOutcome
| Closed

datatype RelState = R_Streaming | R_Finished

record XferReceiver =
  rx_cfg :: ReceiverConfig
  rx_gaps :: GapTracker
  rx_reorder :: "(u32 \<times> Frame) list"
  rx_reorder_bytes :: usize
  rx_rel_state :: RelState
  rx_rel_released :: u32
  rx_final_seq :: "XferSeq option"
  rx_end_acked :: bool
  rx_closed :: bool
  rx_nacks :: "(u32 \<times> (u8 \<times> instant)) list"
  rx_sender_lost_below :: u32
  rx_last_packet_at :: instant
  rx_last_ack_at :: instant
  rx_last_rel_progress_at :: instant
  rx_buffered_ms :: u64

definition XferReceiver_new :: "ReceiverConfig \<Rightarrow> instant \<Rightarrow> XferReceiver" where
  "XferReceiver_new cfg now = \<lparr>
     rx_cfg = cfg,
     rx_gaps = GapTracker_new,
     rx_reorder = [],
     rx_reorder_bytes = 0,
     rx_rel_state = R_Streaming,
     rx_rel_released = 0,
     rx_final_seq = None,
     rx_end_acked = False,
     rx_closed = False,
     rx_nacks = [],
     rx_sender_lost_below = 0,
     rx_last_packet_at = now,
     rx_last_ack_at = now,
     rx_last_rel_progress_at = now,
     rx_buffered_ms = 0\<rparr>"

definition set_buffered_ms :: "XferReceiver \<Rightarrow> u64 \<Rightarrow> XferReceiver" where
  "set_buffered_ms rx ms = rx\<lparr>rx_buffered_ms := ms\<rparr>"

section \<open>Private methods\<close>

definition finish_rel :: "XferReceiver \<Rightarrow> RelOutcome \<Rightarrow> XferReceiver \<times> RecvEvent list" where
  "finish_rel rx outcome =
     (if rx_rel_state rx = R_Finished then (rx, [])
      else (rx\<lparr>rx_rel_state := R_Finished, rx_reorder := [], rx_reorder_bytes := 0, rx_nacks := [],
               rx_gaps := abandon (rx_gaps rx)\<rparr>,
            [RelFinished outcome]))"

text \<open>
  The loop of \<open>release_contiguous\<close>; the flag \<open>released\<close> of the code is set exactly when the loop
  has pushed an event.
\<close>

function release_loop :: "u32 \<Rightarrow> XferReceiver \<Rightarrow> XferReceiver \<times> RecvEvent list" where
  "release_loop contiguous rx =
     (if rx_rel_released rx < contiguous
      then let nxt = rx_rel_released rx + 1
           in case map_of (rx_reorder rx) nxt of
                None \<Rightarrow> (rx, [])
              | Some frame \<Rightarrow>
                  let rx1 = rx\<lparr>rx_reorder := bmap_remove nxt (rx_reorder rx),
                               rx_reorder_bytes := rx_reorder_bytes rx - length (fr_payload frame),
                               rx_rel_released := nxt,
                               rx_nacks := bmap_remove nxt (rx_nacks rx)\<rparr>
                  in andthen (rx1, [Reliable frame]) (release_loop contiguous)
      else (rx, []))"
  by pat_completeness auto

termination
  by (relation "measure (\<lambda>(c, rx). unat c - unat (rx_rel_released rx))")
    (auto simp: unat_succ_less word_less_nat_alt diff_less_mono2)

declare release_loop.simps [simp del]

definition release_contiguous :: "XferReceiver \<Rightarrow> instant \<Rightarrow> XferReceiver \<times> RecvEvent list" where
  "release_contiguous rx now =
     (let contiguous = gt_contiguous (rx_gaps rx);
          (rx1, out) = release_loop contiguous rx;
          released = (out \<noteq> [])
      in (if released then rx1\<lparr>rx_last_rel_progress_at := now\<rparr> else rx1, out))"

text \<open>\<open>check_finish\<close> from \<open>if !self.end_acked\<close> on, and the whole of it.\<close>

definition ack_end :: "XferReceiver \<Rightarrow> XferSeq \<Rightarrow> XferReceiver \<times> RecvEvent list" where
  "ack_end rx final_seq =
     andthen
       (if \<not> rx_end_acked rx \<and> is_complete (rx_gaps rx) final_seq
        then (rx\<lparr>rx_end_acked := True\<rparr>, [SendEndAck]) else (rx, []))
       (\<lambda>r. if rx_end_acked r \<and> \<not> rx_closed r
            then (r\<lparr>rx_closed := True\<rparr>, [Closed]) else (r, []))"

definition check_finish :: "XferReceiver \<Rightarrow> instant \<Rightarrow> XferReceiver \<times> RecvEvent list" where
  "check_finish rx now =
     (case rx_final_seq rx of
        None \<Rightarrow> (rx, [])
      | Some final_seq \<Rightarrow>
          andthen
            (if rx_rel_state rx = R_Streaming \<and> is_complete (rx_gaps rx) final_seq
             then andthen (release_contiguous rx now) (\<lambda>r. finish_rel r (Complete final_seq))
             else (rx, []))
            (\<lambda>r. ack_end r final_seq))"

definition maybe_ack :: "XferReceiver \<Rightarrow> instant \<Rightarrow> XferReceiver \<times> RecvEvent list" where
  "maybe_ack rx now =
     (if rx_closed rx then (rx, [])
      else if duration_since now (rx_last_ack_at rx) < ack_interval (rx_cfg rx) then (rx, [])
      else if gt_highest (rx_gaps rx) = 0 then (rx, [])
      else (rx\<lparr>rx_last_ack_at := now\<rparr>,
            [SendAck (gt_contiguous (rx_gaps rx)) (gt_highest (rx_gaps rx))
               (ucast (min (rx_buffered_ms rx) (ucast (-1 :: u16))))]))"

text \<open>
  The loop of \<open>emit_nacks\<close>: the bookkeeping, the numbers to ask for, and whether it broke off
  because a gap is beyond recovery.
\<close>

fun nack_loop ::
  "ReceiverConfig \<Rightarrow> u32 \<Rightarrow> instant \<Rightarrow> XferSeq list \<Rightarrow> (u32 \<times> (u8 \<times> instant)) list \<Rightarrow> XferSeq list
    \<Rightarrow> (u32 \<times> (u8 \<times> instant)) list \<times> XferSeq list \<times> bool" where
  "nack_loop cfg lost_below now [] nacks ask = (nacks, ask, False)"
| "nack_loop cfg lost_below now (s # rest) nacks ask =
     (if s \<le> lost_below then (nacks, ask, True)
      else let (nacks1, e) = (case map_of nacks s of
                 None \<Rightarrow> let e = (0, now - int (from_secs 3600)) in (bmap_insert s e nacks, e)
               | Some e \<Rightarrow> (nacks, e))
           in if fst e \<ge> max_nack_attempts cfg then (nacks1, ask, True)
              else if duration_since now (snd e) \<ge> nack_delay cfg (fst e)
              then nack_loop cfg lost_below now rest (bmap_insert s (fst e + 1, now) nacks1) (ask @ [s])
              else nack_loop cfg lost_below now rest nacks1 ask)"

definition emit_nacks :: "XferReceiver \<Rightarrow> instant \<Rightarrow> XferReceiver \<times> RecvEvent list" where
  "emit_nacks rx now =
     (let miss = missing (rx_gaps rx) MAX_NACK_ENTRIES in
      if miss = [] then (rx, [])
      else let (nacks, ask, exhausted) =
                 nack_loop (rx_cfg rx) (rx_sender_lost_below rx) now miss (rx_nacks rx) [];
               rx1 = rx\<lparr>rx_nacks := nacks\<rparr>
           in if exhausted then finish_rel rx1 (Aborted UnrecoverableGap)
              else (rx1, if ask \<noteq> [] then [SendNack ask] else []))"

definition on_data :: "XferReceiver \<Rightarrow> Frame \<Rightarrow> instant \<Rightarrow> XferReceiver \<times> RecvEvent list" where
  "on_data rx frame now =
     (let (gaps, fresh) = gt_record (rx_gaps rx) (fr_seq frame);
          rx1 = rx\<lparr>rx_gaps := gaps\<rparr>;
          played = (if fresh \<and> wants_unrel (mode (rx_cfg rx1)) then [Unreliable frame] else [])
      in andthen (rx1, played)
        (\<lambda>rx1.
          if rx_rel_state rx1 \<noteq> R_Streaming then (rx1, [])
          else if \<not> fresh then (rx1, [])
          else if window_span (rx_gaps rx1) > reorder_window (rx_cfg rx1)
          then finish_rel rx1 (Aborted BufferExhausted)
          else let rx2 = rx1\<lparr>rx_reorder_bytes := rx_reorder_bytes rx1 + length (fr_payload frame),
                            rx_reorder := bmap_insert (fr_seq frame) frame (rx_reorder rx1)\<rparr>
               in if rx_reorder_bytes rx2 > max_reorder_bytes (rx_cfg rx2)
                  then finish_rel rx2 (Aborted BufferExhausted)
                  else andthen (release_contiguous rx2 now) (\<lambda>r. check_finish r now)))"

section \<open>Public methods\<close>

definition on_body ::
  "XferReceiver \<Rightarrow> XferSeq \<Rightarrow> Body \<Rightarrow> instant \<Rightarrow> XferReceiver \<times> RecvEvent list" where
  "on_body rx s body now =
     (case body of
        B_Data ts payload \<Rightarrow> on_data rx \<lparr>fr_seq = s, fr_ts = ts, fr_payload = payload\<rparr> now
      | B_End final_seq \<Rightarrow> check_finish (rx\<lparr>rx_final_seq := Some final_seq\<rparr>) now
      | B_Keepalive lost_below \<Rightarrow>
          andthen
            (if lost_below > rx_sender_lost_below rx
             then let rx1 = rx\<lparr>rx_sender_lost_below := lost_below\<rparr>
                  in if rx_rel_state rx1 = R_Streaming
                        \<and> gt_contiguous (rx_gaps rx1) < rx_sender_lost_below rx1
                     then finish_rel rx1 (Aborted SenderDiscarded) else (rx1, [])
             else (rx, []))
            (\<lambda>r. check_finish r now)
      | B_Ack c h b \<Rightarrow> (rx, [])
      | B_Nack m \<Rightarrow> (rx, [])
      | B_EndAck \<Rightarrow> (rx, []))"

definition recv_handle ::
  "XferReceiver \<Rightarrow> XferSeq \<Rightarrow> Body \<Rightarrow> instant \<Rightarrow> XferReceiver \<times> RecvEvent list" where
  "recv_handle rx s body now =
     andthen (on_body (rx\<lparr>rx_last_packet_at := now\<rparr>) s body now) (\<lambda>r. maybe_ack r now)"

definition recv_tick :: "XferReceiver \<Rightarrow> instant \<Rightarrow> XferReceiver \<times> RecvEvent list" where
  "recv_tick rx now =
     (if rx_closed rx then (rx, [])
      else if duration_since now (rx_last_packet_at rx) > idle_timeout (rx_cfg rx)
      then andthen
             (if rx_rel_state rx = R_Streaming then finish_rel rx (Aborted PeerGone) else (rx, []))
             (\<lambda>r. (r\<lparr>rx_closed := True\<rparr>, [Closed]))
      else andthen
             (if rx_rel_state rx = R_Streaming
              then if duration_since now (rx_last_rel_progress_at rx) > rel_stall_timeout (rx_cfg rx)
                   then finish_rel rx (Aborted Stalled) else emit_nacks rx now
              else (rx, []))
             (\<lambda>r. maybe_ack r now))"

section \<open>The methods as one machine\<close>

datatype RecvInput =
  Packet XferSeq Body instant
| RTick instant
| SetBuffered u64

fun recv_step :: "XferReceiver \<Rightarrow> RecvInput \<Rightarrow> XferReceiver \<times> RecvEvent list" where
  "recv_step rx (Packet s body now) = recv_handle rx s body now"
| "recv_step rx (RTick now) = recv_tick rx now"
| "recv_step rx (SetBuffered ms) = (set_buffered_ms rx ms, [])"

section \<open>Reading a trace\<close>

text \<open>The reliable output (frames and outcomes), the frames played, the numbers asked for.\<close>

fun rel_event :: "RecvEvent \<Rightarrow> bool" where
  "rel_event (Reliable f) = True"
| "rel_event (RelFinished o') = True"
| "rel_event _ = False"

definition rel_events :: "RecvEvent list \<Rightarrow> RecvEvent list" where
  "rel_events es = filter rel_event es"

fun event_played :: "RecvEvent \<Rightarrow> Frame list" where
  "event_played (Unreliable f) = [f]"
| "event_played _ = []"

definition played :: "RecvEvent list \<Rightarrow> Frame list" where
  "played es = concat (map event_played es)"

fun event_nacks :: "RecvEvent \<Rightarrow> XferSeq list list" where
  "event_nacks (SendNack m) = [m]"
| "event_nacks _ = []"

definition nack_lists :: "RecvEvent list \<Rightarrow> XferSeq list list" where
  "nack_lists es = concat (map event_nacks es)"

definition nacked :: "RecvEvent list \<Rightarrow> XferSeq list" where
  "nacked es = concat (nack_lists es)"

lemma reads_append [simp]:
  "rel_events (es @ fs) = rel_events es @ rel_events fs"
  "played (es @ fs) = played es @ played fs"
  "nack_lists (es @ fs) = nack_lists es @ nack_lists fs"
  "nacked (es @ fs) = nacked es @ nacked fs"
  by (simp_all add: rel_events_def played_def nack_lists_def nacked_def)

lemma reads_nil [simp]:
  "rel_events [] = []" "played [] = []" "nack_lists [] = []" "nacked [] = []"
  by (simp_all add: rel_events_def played_def nack_lists_def nacked_def)

lemma reads_cons [simp]:
  "rel_events (e # es) = (if rel_event e then e # rel_events es else rel_events es)"
  "played (e # es) = event_played e @ played es"
  "nack_lists (e # es) = event_nacks e @ nack_lists es"
  by (simp_all add: rel_events_def played_def nack_lists_def)

section \<open>Methods that leave the reliable stream alone\<close>

lemma maybe_ack_eq:
  "\<exists>t. fst (maybe_ack rx now) = rx\<lparr>rx_last_ack_at := t\<rparr>"
  "rel_events (snd (maybe_ack rx now)) = []" "played (snd (maybe_ack rx now)) = []"
  "nack_lists (snd (maybe_ack rx now)) = []"
  by (auto simp: maybe_ack_def intro: exI [of _ "rx_last_ack_at rx"])

lemma maybe_ack_fields [simp]:
  "rx_cfg (fst (maybe_ack rx now)) = rx_cfg rx" "rx_gaps (fst (maybe_ack rx now)) = rx_gaps rx"
  "rx_reorder (fst (maybe_ack rx now)) = rx_reorder rx"
  "rx_reorder_bytes (fst (maybe_ack rx now)) = rx_reorder_bytes rx"
  "rx_rel_state (fst (maybe_ack rx now)) = rx_rel_state rx"
  "rx_rel_released (fst (maybe_ack rx now)) = rx_rel_released rx"
  "rx_final_seq (fst (maybe_ack rx now)) = rx_final_seq rx"
  "rx_end_acked (fst (maybe_ack rx now)) = rx_end_acked rx"
  "rx_closed (fst (maybe_ack rx now)) = rx_closed rx"
  "rx_nacks (fst (maybe_ack rx now)) = rx_nacks rx"
  by (simp_all add: maybe_ack_def)

lemma finish_rel_streaming:
  "rx_rel_state rx = R_Streaming \<Longrightarrow> finish_rel rx o' =
     (rx\<lparr>rx_rel_state := R_Finished, rx_reorder := [], rx_reorder_bytes := 0, rx_nacks := [],
         rx_gaps := abandon (rx_gaps rx)\<rparr>, [RelFinished o'])"
  by (simp add: finish_rel_def)

section \<open>The release loop\<close>

lemma release_loop_fields [simp]:
  "rx_cfg (fst (release_loop c rx)) = rx_cfg rx \<and> rx_gaps (fst (release_loop c rx)) = rx_gaps rx
   \<and> rx_rel_state (fst (release_loop c rx)) = rx_rel_state rx
   \<and> rx_final_seq (fst (release_loop c rx)) = rx_final_seq rx
   \<and> rx_end_acked (fst (release_loop c rx)) = rx_end_acked rx
   \<and> rx_closed (fst (release_loop c rx)) = rx_closed rx
   \<and> rx_sender_lost_below (fst (release_loop c rx)) = rx_sender_lost_below rx
   \<and> played (snd (release_loop c rx)) = [] \<and> nack_lists (snd (release_loop c rx)) = []"
proof (induction c rx rule: release_loop.induct)
  case (1 c rx)
  then show ?case
    by (subst (1 2 3 4 5 6 7 8 9) release_loop.simps) (auto simp: Let_def split: option.splits)
qed

text \<open>
  The reliable side while it streams, possibly in the middle of a release: the reorder buffer
  holds exactly the arrivals above what was released, its byte counter is its content, and what
  was released so far is \<open>1 \<dots> rel_released\<close> in order.
\<close>

definition frame_weight :: "(u32 \<times> Frame) list \<Rightarrow> nat" where
  "frame_weight m = sum_list (map (\<lambda>e. length (fr_payload (snd e))) m)"

definition in_order :: "(Frame \<Rightarrow> bool) \<Rightarrow> Frame list \<Rightarrow> u32 \<Rightarrow> bool" where
  "in_order S fs n \<longleftrightarrow>
     (\<forall>f \<in> set fs. S f) \<and> map (\<lambda>f. unat (fr_seq f)) fs = map Suc [0..<unat n]"

definition streaming_inv :: "(Frame \<Rightarrow> bool) \<Rightarrow> RecvEvent list \<Rightarrow> XferReceiver \<Rightarrow> bool" where
  "streaming_inv S es rx \<longleftrightarrow>
     rx_rel_state rx = R_Streaming \<and> \<not> rx_closed rx \<and> \<not> rx_end_acked rx
     \<and> gt_invar (rx_gaps rx) \<and> bmap_invar (rx_reorder rx)
     \<and> rx_rel_released rx \<le> gt_contiguous (rx_gaps rx)
     \<and> fst ` set (rx_reorder rx) = {s \<in> arrived (rx_gaps rx). rx_rel_released rx < s}
     \<and> (\<forall>e \<in> set (rx_reorder rx). fr_seq (snd e) = fst e \<and> S (snd e))
     \<and> rx_reorder_bytes rx = frame_weight (rx_reorder rx)
     \<and> rx_reorder_bytes rx \<le> max_reorder_bytes (rx_cfg rx)
     \<and> window_span (rx_gaps rx) \<le> reorder_window (rx_cfg rx)
     \<and> (\<exists>fs. rel_events es = map Reliable fs \<and> in_order S fs (rx_rel_released rx))"

lemma frame_weight_remove:
  assumes "bmap_invar m" and "map_of m k = Some f"
  shows "frame_weight m = frame_weight (bmap_remove k m) + length (fr_payload f)"
  using bmap.weight_rem [OF assms] by (simp add: bmap.weight_def frame_weight_def)

lemma frame_weight_insert:
  assumes "bmap_invar m" and "map_of m k = None"
  shows "frame_weight (bmap_insert k f m) = frame_weight m + length (fr_payload f)"
  using bmap.weight_ins [OF assms] by (simp add: bmap.weight_def frame_weight_def)

text \<open>One turn of the loop.\<close>

lemma release_turn:
  assumes inv: "streaming_inv S es rx" and less: "rx_rel_released rx < gt_contiguous (rx_gaps rx)"
  obtains f where "map_of (rx_reorder rx) (rx_rel_released rx + 1) = Some f"
    and "streaming_inv S (es @ [Reliable f])
      (rx\<lparr>rx_reorder := bmap_remove (rx_rel_released rx + 1) (rx_reorder rx),
          rx_reorder_bytes := rx_reorder_bytes rx - length (fr_payload f),
          rx_rel_released := rx_rel_released rx + 1,
          rx_nacks := bmap_remove (rx_rel_released rx + 1) (rx_nacks rx)\<rparr>)"
proof -
  let ?n = "rx_rel_released rx + 1" and ?m = "rx_reorder rx"
  have suc: "unat ?n = Suc (unat (rx_rel_released rx))" by (rule unat_succ_less [OF less])
  have "?n \<in> fst ` set ?m"
  proof -
    have "?n \<le> gt_contiguous (rx_gaps rx)" "?n \<noteq> 0"
      using suc less by (auto simp: word_le_nat_alt word_less_nat_alt unat_eq_0 [symmetric])
    then have "?n \<in> arrived (rx_gaps rx)" by (simp add: prefix_arrived)
    moreover have "rx_rel_released rx < ?n" using suc by (simp add: word_less_nat_alt)
    ultimately show ?thesis using inv by (simp add: streaming_inv_def)
  qed
  then obtain f where f: "map_of ?m ?n = Some f"
    by (metis dom_map_of_conv_image_fst domD)
  have mem: "(?n, f) \<in> set ?m" using f by (rule map_of_SomeD)
  have keys: "fst ` set (bmap_remove ?n ?m) = {s \<in> arrived (rx_gaps rx). ?n < s}"
  proof -
    have "?n < s \<longleftrightarrow> rx_rel_released rx < s \<and> s \<noteq> ?n" for s
      by (auto simp: word_less_nat_alt word_unat_eq_iff suc)
    then show ?thesis using inv by (auto simp: streaming_inv_def bmap.keys_rem)
  qed
  obtain fs where fs: "rel_events es = map Reliable fs" "in_order S fs (rx_rel_released rx)"
    using inv by (auto simp: streaming_inv_def)
  have seq: "fr_seq f = ?n" "S f" using inv mem by (auto simp: streaming_inv_def)
  have hist: "\<exists>fs. rel_events (es @ [Reliable f]) = map Reliable fs \<and> in_order S fs ?n"
    using fs seq suc by (intro exI [of _ "fs @ [f]"]) (simp add: in_order_def)
  have le: "?n \<le> gt_contiguous (rx_gaps rx)"
    using suc less by (simp add: word_le_nat_alt word_less_nat_alt)
  have weight: "frame_weight ?m = frame_weight (bmap_remove ?n ?m) + length (fr_payload f)"
    using inv f by (intro frame_weight_remove) (simp_all add: streaming_inv_def)
  have sub: "set (bmap_remove ?n ?m) \<subseteq> set ?m" by (auto simp: bmap_remove_def)
  show thesis
    by (rule that [OF f])
      (use inv keys hist le weight sub in \<open>auto simp: streaming_inv_def bmap.invar_rem\<close>)
qed

lemma release_loop_inv:
  assumes "streaming_inv S es rx" and "c = gt_contiguous (rx_gaps rx)"
  shows "after (streaming_inv S) es (release_loop c rx)
    \<and> rx_rel_released (fst (release_loop c rx)) = c"
  using assms
proof (induction c rx arbitrary: es rule: release_loop.induct)
  case (1 c rx)
  show ?case
  proof (cases "rx_rel_released rx < c")
    case False
    then have "rx_rel_released rx = c" using 1 by (simp add: streaming_inv_def)
    then show ?thesis using 1 False by (subst (1 2) release_loop.simps) simp
  next
    case True
    with 1 release_turn obtain f where f: "map_of (rx_reorder rx) (rx_rel_released rx + 1) = Some f"
      and inv: "streaming_inv S (es @ [Reliable f])
      (rx\<lparr>rx_reorder := bmap_remove (rx_rel_released rx + 1) (rx_reorder rx),
          rx_reorder_bytes := rx_reorder_bytes rx - length (fr_payload f),
          rx_rel_released := rx_rel_released rx + 1,
          rx_nacks := bmap_remove (rx_rel_released rx + 1) (rx_nacks rx)\<rparr>)" by blast
    show ?thesis using "1.IH" [OF True refl f refl, unfolded fst_conv, OF inv] "1.prems"(2) True f
      by (subst (1 2) release_loop.simps) (simp add: Let_def after_def)
  qed
qed

section \<open>The reliable stream\<close>

text \<open>
  Between calls a receiver is either streaming with everything contiguous released, or finished
  with an empty buffer and exactly one outcome as the last event of the reliable output.
  \<open>S\<close> holds of the frames received and \<open>D\<close> of the lengths an \<open>End\<close> declared.
\<close>

definition finished_inv ::
  "(Frame \<Rightarrow> bool) \<Rightarrow> (XferSeq \<Rightarrow> bool) \<Rightarrow> RecvEvent list \<Rightarrow> XferReceiver \<Rightarrow> bool" where
  "finished_inv S D es rx \<longleftrightarrow>
     gt_invar (rx_gaps rx) \<and> rx_reorder rx = [] \<and> rx_reorder_bytes rx = 0 \<and> rx_nacks rx = []
     \<and> (\<exists>fs o'. rel_events es = map Reliable fs @ [RelFinished o']
          \<and> in_order S fs (rx_rel_released rx)
          \<and> (\<forall>n. o' = Complete n \<longrightarrow> n \<le> rx_rel_released rx \<and> D n))"

definition settled_inv ::
  "(Frame \<Rightarrow> bool) \<Rightarrow> (XferSeq \<Rightarrow> bool) \<Rightarrow> RecvEvent list \<Rightarrow> XferReceiver \<Rightarrow> bool" where
  "settled_inv S D es rx \<longleftrightarrow>
     (\<forall>n. rx_final_seq rx = Some n \<longrightarrow> D n)
     \<and> (if rx_rel_state rx = R_Streaming
        then streaming_inv S es rx \<and> rx_rel_released rx = gt_contiguous (rx_gaps rx)
        else finished_inv S D es rx)"

lemma settled_new: "settled_inv S D [] (XferReceiver_new cfg now)"
proof -
  have "window_span GapTracker_new = 0" "gt_contiguous GapTracker_new = 0"
    by (simp_all add: window_span_def GapTracker_new_def sat_sub_def)
  then show ?thesis
    by (simp add: settled_inv_def streaming_inv_def XferReceiver_new_def gt_invar_new
        bmap_invar_def frame_weight_def in_order_def)
qed

lemma settled_irrelevant [simp]:
  "settled_inv S D es (rx\<lparr>rx_last_packet_at := t\<rparr>) = settled_inv S D es rx"
  "settled_inv S D es (rx\<lparr>rx_last_ack_at := t\<rparr>) = settled_inv S D es rx"
  "settled_inv S D es (rx\<lparr>rx_buffered_ms := ms\<rparr>) = settled_inv S D es rx"
  "settled_inv S D es (rx\<lparr>rx_sender_lost_below := s\<rparr>) = settled_inv S D es rx"
  "streaming_inv S es (rx\<lparr>rx_last_rel_progress_at := t\<rparr>) = streaming_inv S es rx"
  "streaming_inv S es (rx\<lparr>rx_final_seq := n\<rparr>) = streaming_inv S es rx"
  "streaming_inv S es (rx\<lparr>rx_nacks := ns\<rparr>) = streaming_inv S es rx"
  "finished_inv S D es (rx\<lparr>rx_final_seq := n\<rparr>) = finished_inv S D es rx"
  "finished_inv S D es (rx\<lparr>rx_end_acked := b\<rparr>) = finished_inv S D es rx"
  "finished_inv S D es (rx\<lparr>rx_closed := b\<rparr>) = finished_inv S D es rx"
  by (simp_all add: settled_inv_def streaming_inv_def finished_inv_def)

lemma settled_silent:
  "rel_events fs = [] \<Longrightarrow> settled_inv S D (es @ fs) rx = settled_inv S D es rx"
  by (simp add: settled_inv_def streaming_inv_def finished_inv_def)

lemma finish_rel_inv:
  assumes "rx_rel_state rx = R_Streaming" and "gt_invar (rx_gaps rx)"
    and "rel_events es = map Reliable fs" and "in_order S fs (rx_rel_released rx)"
    and "\<And>n. o' = Complete n \<Longrightarrow> n \<le> rx_rel_released rx \<and> D n"
    and "\<And>n. rx_final_seq rx = Some n \<Longrightarrow> D n"
  shows "after (settled_inv S D) es (finish_rel rx o')"
proof -
  have "\<exists>fs' o''. rel_events es @ [RelFinished o'] = map Reliable fs' @ [RelFinished o'']
      \<and> in_order S fs' (rx_rel_released rx) \<and> (\<forall>n. o'' = Complete n \<longrightarrow> n \<le> rx_rel_released rx \<and> D n)"
    using assms(3-5) by blast
  then show ?thesis using assms(1,2,6)
    by (simp add: finish_rel_streaming settled_inv_def finished_inv_def gt_invar_abandon)
qed

lemma release_contiguous_inv:
  assumes "streaming_inv S es rx"
  shows "after (streaming_inv S) es (release_contiguous rx now)"
    and "rx_rel_released (fst (release_contiguous rx now)) = gt_contiguous (rx_gaps rx)"
  using release_loop_inv [OF assms refl]
  by (auto simp: release_contiguous_def Let_def split_beta after_def)

lemma release_contiguous_fields [simp]:
  "rx_cfg (fst (release_contiguous rx now)) = rx_cfg rx"
  "rx_gaps (fst (release_contiguous rx now)) = rx_gaps rx"
  "rx_rel_state (fst (release_contiguous rx now)) = rx_rel_state rx"
  "rx_final_seq (fst (release_contiguous rx now)) = rx_final_seq rx"
  "rx_end_acked (fst (release_contiguous rx now)) = rx_end_acked rx"
  "rx_closed (fst (release_contiguous rx now)) = rx_closed rx"
  "rx_sender_lost_below (fst (release_contiguous rx now)) = rx_sender_lost_below rx"
  "played (snd (release_contiguous rx now)) = []" "nack_lists (snd (release_contiguous rx now)) = []"
  by (simp_all add: release_contiguous_def Let_def split_beta)

lemma ack_end_finished:
  assumes "rx_rel_state rx = R_Finished" and "settled_inv S D es rx"
  shows "after (settled_inv S D) es (ack_end rx n)"
proof -
  have "rel_events (snd (ack_end rx n)) = []" by (simp add: ack_end_def)
  then show ?thesis using assms
    by (simp add: after_def settled_silent) (simp add: settled_inv_def ack_end_def)
qed

lemma check_finish_inv:
  assumes "settled_inv S D es rx"
  shows "after (settled_inv S D) es (check_finish rx now)"
proof (cases "rx_final_seq rx")
  case None
  then show ?thesis using assms by (simp add: check_finish_def)
next
  case (Some n)
  consider (complete) "rx_rel_state rx = R_Streaming" "is_complete (rx_gaps rx) n"
    | (partial) "rx_rel_state rx = R_Streaming" "\<not> is_complete (rx_gaps rx) n"
    | (finished) "rx_rel_state rx = R_Finished" by (cases "rx_rel_state rx") auto
  then show ?thesis
  proof cases
    case partial
    then have "\<not> rx_end_acked rx" using assms by (simp add: settled_inv_def streaming_inv_def)
    then show ?thesis using assms partial Some by (simp add: check_finish_def ack_end_def after_def)
  next
    case finished
    then show ?thesis using assms Some ack_end_finished [OF finished assms, of n]
      by (simp add: check_finish_def after_def)
  next
    case complete
    let ?r = "release_contiguous rx now"
    have str: "streaming_inv S es rx" using assms complete by (simp add: settled_inv_def)
    then obtain fs where "rel_events (es @ snd ?r) = map Reliable fs"
      and "in_order S fs (rx_rel_released (fst ?r))" and "gt_invar (rx_gaps rx)"
      using release_contiguous_inv(1) [OF str, of now] unfolding after_def streaming_inv_def by auto
    moreover have "n \<le> rx_rel_released (fst ?r)"
      using complete release_contiguous_inv(2) [OF str, of now] by (simp add: is_complete_def)
    moreover have "D n" using assms Some by (simp add: settled_inv_def)
    ultimately have "after (settled_inv S D) (es @ snd ?r) (finish_rel (fst ?r) (Complete n))"
      using complete Some by (intro finish_rel_inv) auto
    then have fin: "settled_inv S D (es @ snd ?r @ snd (finish_rel (fst ?r) (Complete n)))
        (fst (finish_rel (fst ?r) (Complete n)))" by (simp add: after_def)
    moreover have "rx_rel_state (fst (finish_rel (fst ?r) (Complete n))) = R_Finished"
      using complete by (simp add: finish_rel_streaming)
    ultimately show ?thesis using complete Some ack_end_finished [OF _ fin, of n]
      by (simp add: check_finish_def after_def)
  qed
qed

lemma emit_nacks_inv:
  assumes "settled_inv S D es rx" and "rx_rel_state rx = R_Streaming"
  shows "after (settled_inv S D) es (emit_nacks rx now)"
proof -
  have str: "streaming_inv S es rx" using assms by (simp add: settled_inv_def)
  then obtain fs where fs: "rel_events es = map Reliable fs" "in_order S fs (rx_rel_released rx)"
    and gt: "gt_invar (rx_gaps rx)" by (auto simp: streaming_inv_def)
  have final: "rx_final_seq rx = Some n \<Longrightarrow> D n" for n using assms(1) by (simp add: settled_inv_def)
  have fin: "after (settled_inv S D) es (finish_rel (rx\<lparr>rx_nacks := ns\<rparr>) (Aborted r))" for ns r
    by (rule finish_rel_inv [where fs = fs]) (use assms(2) fs gt final in auto)
  have keep: "settled_inv S D es (rx\<lparr>rx_nacks := ns\<rparr>)" for ns
    using assms by (simp add: settled_inv_def)
  show ?thesis using fin keep assms(1)
    by (auto simp: emit_nacks_def Let_def settled_silent split: prod.splits)
qed

text \<open>A fresh frame either fits the window and the byte budget, or ends the reliable stream.\<close>

lemma streaming_admit:
  assumes inv: "settled_inv S D es rx" and str: "rx_rel_state rx = R_Streaming"
    and rec: "gt_record (rx_gaps rx) (fr_seq f) = (g, True)" and S: "S f"
    and span: "window_span g \<le> reorder_window (rx_cfg rx)"
    and budget: "rx_reorder_bytes rx + length (fr_payload f) \<le> max_reorder_bytes (rx_cfg rx)"
  shows "streaming_inv S es (rx\<lparr>rx_gaps := g,
     rx_reorder_bytes := rx_reorder_bytes rx + length (fr_payload f),
     rx_reorder := bmap_insert (fr_seq f) f (rx_reorder rx)\<rparr>)"
proof -
  have inv': "streaming_inv S es rx" and rel: "rx_rel_released rx = gt_contiguous (rx_gaps rx)"
    using inv str by (simp_all add: settled_inv_def)
  then have gt: "gt_invar (rx_gaps rx)" and bm: "bmap_invar (rx_reorder rx)"
    and keys: "fst ` set (rx_reorder rx) = {s \<in> arrived (rx_gaps rx). rx_rel_released rx < s}"
    by (simp_all add: streaming_inv_def)
  have fresh: "fr_seq f \<noteq> 0" "fr_seq f \<notin> arrived (rx_gaps rx)" and gt': "gt_invar g"
    and arr: "arrived g = insert (fr_seq f) (arrived (rx_gaps rx))"
    and mono: "unat (gt_contiguous (rx_gaps rx)) \<le> unat (gt_contiguous g)"
    using gt_record_laws [OF gt, of "fr_seq f"] rec by auto
  have above: "rx_rel_released rx < fr_seq f"
    using fresh prefix_arrived [of "fr_seq f" "rx_gaps rx"] rel by (simp add: not_le [symmetric]) blast
  have none: "map_of (rx_reorder rx) (fr_seq f) = None"
    using keys fresh by (simp add: map_of_eq_None_iff)
  have vals: "\<forall>e \<in> set (bmap_insert (fr_seq f) f (rx_reorder rx)). fr_seq (snd e) = fst e \<and> S (snd e)"
    using inv' bm S by (auto simp: streaming_inv_def bmap.items_graph bmap.invar_ins split: if_splits)
  show ?thesis
    using inv' gt' bm arr mono rel above none keys vals span budget
    by (auto simp: streaming_inv_def bmap.invar_ins frame_weight_insert word_le_nat_alt)
qed

lemma on_data_inv:
  assumes inv: "settled_inv S D es rx" and S: "S f"
  shows "after (settled_inv S D) es (on_data rx f now)"
proof -
  obtain g fresh where rec: "gt_record (rx_gaps rx) (fr_seq f) = (g, fresh)" by force
  let ?p = "if fresh \<and> wants_unrel (mode (rx_cfg rx)) then [Unreliable f] else []"
  have gt: "gt_invar (rx_gaps rx)" using inv
    by (auto simp: settled_inv_def streaming_inv_def finished_inv_def split: if_splits)
  then have gt': "gt_invar g" using gt_record_laws(1) [OF gt, of "fr_seq f"] rec by simp
  have p: "settled_inv S D (es @ ?p @ gs) r = settled_inv S D (es @ gs) r" for gs r
    by (simp add: settled_inv_def streaming_inv_def finished_inv_def)
  have final: "rx_final_seq rx = Some n \<Longrightarrow> D n" for n using inv by (simp add: settled_inv_def)
  consider (finished) "rx_rel_state rx = R_Finished"
    | (stale) "rx_rel_state rx = R_Streaming" "\<not> fresh"
    | (fresh) "rx_rel_state rx = R_Streaming" fresh by (cases "rx_rel_state rx") auto
  then show ?thesis
  proof cases
    case finished
    then have "settled_inv S D es (rx\<lparr>rx_gaps := g\<rparr>)"
      using inv gt' by (simp add: settled_inv_def finished_inv_def)
    then show ?thesis using p [of "[]"] finished by (simp add: on_data_def rec Let_def after_def)
  next
    case stale
    then have "g = rx_gaps rx" using rec by (auto simp: gt_record_def split: if_splits prod.splits)
    then show ?thesis using inv stale by (simp add: on_data_def rec Let_def after_def)
  next
    case fresh
    from inv fresh obtain fs where fs: "rel_events es = map Reliable fs"
      "in_order S fs (rx_rel_released rx)" by (auto simp: settled_inv_def streaming_inv_def)
    have abort: "after (settled_inv S D) es (finish_rel r (Aborted BufferExhausted))"
      if "rx_gaps r = g" "rx_rel_state r = R_Streaming" "rx_rel_released r = rx_rel_released rx"
        "rx_final_seq r = rx_final_seq rx" for r
      by (rule finish_rel_inv [where fs = fs]) (use that gt' fs final in auto)
    have admit: "after (settled_inv S D) es (andthen (release_contiguous r now) (\<lambda>r. check_finish r now))"
      if "streaming_inv S es r" "rx_final_seq r = rx_final_seq rx" for r
    proof (rule after_andthen)
      show "after (settled_inv S D) es (release_contiguous r now)"
        using release_contiguous_inv [OF that(1), of now] that final
        by (simp add: after_def settled_inv_def streaming_inv_def)
    qed (rule check_finish_inv)
    show ?thesis
      using fresh abort admit [OF streaming_admit [OF inv fresh(1) _ S]] rec p
      by (simp add: on_data_def Let_def after_def not_less)
  qed
qed

lemma keepalive_inv:
  assumes "settled_inv S D es rx"
  shows "after (settled_inv S D) es (on_body rx s (B_Keepalive lb) now)"
proof -
  let ?rx = "rx\<lparr>rx_sender_lost_below := lb\<rparr>"
  have fin: "after (settled_inv S D) es (finish_rel ?rx (Aborted SenderDiscarded))"
    if str: "rx_rel_state rx = R_Streaming"
  proof -
    obtain fs where "rel_events es = map Reliable fs" "in_order S fs (rx_rel_released rx)"
      "gt_invar (rx_gaps rx)" using assms str by (auto simp: settled_inv_def streaming_inv_def)
    then show ?thesis using assms str by (intro finish_rel_inv) (auto simp: settled_inv_def)
  qed
  have "after (settled_inv S D) es
     (if lb > rx_sender_lost_below rx
      then let rx1 = ?rx
           in if rx_rel_state rx1 = R_Streaming
                 \<and> gt_contiguous (rx_gaps rx1) < rx_sender_lost_below rx1
              then finish_rel rx1 (Aborted SenderDiscarded) else (rx1, [])
      else (rx, []))"
    using fin assms by (simp add: Let_def)
  then show ?thesis unfolding on_body_def Body.case by (rule after_andthen) (rule check_finish_inv)
qed

lemma on_body_inv:
  assumes inv: "settled_inv S D es rx"
    and S: "\<And>ts p. body = B_Data ts p \<Longrightarrow> S \<lparr>fr_seq = s, fr_ts = ts, fr_payload = p\<rparr>"
    and D: "\<And>n. body = B_End n \<Longrightarrow> D n"
  shows "after (settled_inv S D) es (on_body rx s body now)"
proof (cases body)
  case (B_Data ts p)
  then show ?thesis using on_data_inv [OF inv S] by (simp add: on_body_def)
next
  case (B_End n)
  then have "settled_inv S D es (rx\<lparr>rx_final_seq := Some n\<rparr>)"
    using inv D by (simp add: settled_inv_def)
  then show ?thesis using B_End check_finish_inv by (simp add: on_body_def)
next
  case (B_Keepalive lb)
  then show ?thesis using keepalive_inv [OF inv] by simp
qed (simp_all add: on_body_def inv)

lemma maybe_ack_inv: "settled_inv S D es rx \<Longrightarrow> after (settled_inv S D) es (maybe_ack rx now)"
  using maybe_ack_eq [of rx now] by (auto simp: after_def settled_silent)

lemma recv_handle_inv:
  assumes "settled_inv S D es rx"
    and "\<And>ts p. body = B_Data ts p \<Longrightarrow> S \<lparr>fr_seq = s, fr_ts = ts, fr_payload = p\<rparr>"
    and "\<And>n. body = B_End n \<Longrightarrow> D n"
  shows "after (settled_inv S D) es (recv_handle rx s body now)"
  unfolding recv_handle_def
  by (rule after_andthen [OF on_body_inv maybe_ack_inv]) (use assms in auto)

lemma recv_tick_inv:
  assumes inv: "settled_inv S D es rx"
  shows "after (settled_inv S D) es (recv_tick rx now)"
proof -
  have fin: "after (settled_inv S D) es (finish_rel rx (Aborted r))"
    if str: "rx_rel_state rx = R_Streaming" for r
  proof -
    obtain fs where "rel_events es = map Reliable fs" "in_order S fs (rx_rel_released rx)"
      "gt_invar (rx_gaps rx)" using inv str by (auto simp: settled_inv_def streaming_inv_def)
    then show ?thesis using inv str by (intro finish_rel_inv) (auto simp: settled_inv_def)
  qed
  have close: "settled_inv S D (fs @ [Closed]) (r\<lparr>rx_closed := True\<rparr>)"
    if "settled_inv S D fs r" "rx_rel_state r = R_Finished" for fs r
    using that by (simp add: settled_silent) (simp add: settled_inv_def)
  have idle: "after (settled_inv S D) es (andthen
     (if rx_rel_state rx = R_Streaming then finish_rel rx (Aborted PeerGone) else (rx, []))
     (\<lambda>r. (r\<lparr>rx_closed := True\<rparr>, [Closed])))"
    using inv fin [of PeerGone] close [of es rx]
      close [of "es @ [RelFinished (Aborted PeerGone)]" "fst (finish_rel rx (Aborted PeerGone))"]
    by (cases "rx_rel_state rx") (auto simp: after_def finish_rel_streaming)
  have "after (settled_inv S D) es
     (if rx_rel_state rx = R_Streaming
      then if duration_since now (rx_last_rel_progress_at rx) > rel_stall_timeout (rx_cfg rx)
           then finish_rel rx (Aborted Stalled) else emit_nacks rx now
      else (rx, []))"
    using inv fin emit_nacks_inv by simp
  then show ?thesis using idle inv
    unfolding recv_tick_def by (auto intro: after_andthen maybe_ack_inv)
qed

text \<open>Frames received and lengths declared, read off the inputs.\<close>

definition got :: "RecvInput list \<Rightarrow> Frame \<Rightarrow> bool" where
  "got is f \<longleftrightarrow> (\<exists>now. Packet (fr_seq f) (B_Data (fr_ts f) (fr_payload f)) now \<in> set is)"

definition declared :: "RecvInput list \<Rightarrow> XferSeq \<Rightarrow> bool" where
  "declared is n \<longleftrightarrow> (\<exists>s now. Packet s (B_End n) now \<in> set is)"

lemma settled_mono:
  assumes "settled_inv S D es rx" and "\<And>f. S f \<Longrightarrow> S' f" and "\<And>n. D n \<Longrightarrow> D' n"
  shows "settled_inv S' D' es rx"
proof -
  have io: "in_order S fs n \<Longrightarrow> in_order S' fs n" for fs n
    using assms(2) by (auto simp: in_order_def)
  show ?thesis
  proof (cases "rx_rel_state rx")
    case R_Streaming
    then show ?thesis using assms io unfolding settled_inv_def streaming_inv_def by auto
  next
    case R_Finished
    then have "finished_inv S D es rx" using assms(1) by (simp add: settled_inv_def)
    then have "finished_inv S' D' es rx" using io assms(3) unfolding finished_inv_def by blast
    then show ?thesis using assms(1,3) R_Finished by (simp add: settled_inv_def)
  qed
qed

lemma settled_step:
  assumes "settled_inv (got is) (declared is) es rx"
  shows "after (settled_inv (got (is @ [i])) (declared (is @ [i]))) es (recv_step rx i)"
proof -
  have inv: "settled_inv (got (is @ [i])) (declared (is @ [i])) es rx"
    by (rule settled_mono [OF assms]) (auto simp: got_def declared_def)
  show ?thesis
  proof (cases i)
    case (Packet s b now)
    then show ?thesis using recv_handle_inv [OF inv, of b s now]
      by (auto simp: got_def declared_def)
  next
    case (RTick now)
    then show ?thesis using recv_tick_inv [OF inv, of now] by simp
  next
    case (SetBuffered ms)
    then show ?thesis using inv by (simp add: set_buffered_ms_def)
  qed
qed

interpretation rel: history_invariant recv_step "XferReceiver_new cfg now"
  "\<lambda>is es rx. settled_inv (got is) (declared is) es rx" for cfg now
  using settled_step by unfold_locales (simp_all add: settled_new after_def)

end
