(* ===== verification/Pf4_Receiver_Streams.thy ===== *)
theory Pf4_Receiver_Streams
  imports Pf4_Receiver
begin

text \<open>
  The receiver over every sequence of packets and ticks: each number is played once while the
  reliable stream is alive, no number is asked for more often than the budget allows, and the gap
  tracker holds exactly the numbers that have arrived.
\<close>

section \<open>Playback and the NACK budget\<close>

definition attempts :: "(u32 \<times> (u8 \<times> instant)) list \<Rightarrow> XferSeq \<Rightarrow> nat" where
  "attempts nacks s = (case map_of nacks s of None \<Rightarrow> 0 | Some e \<Rightarrow> unat (fst e))"

text \<open>
  A part that plays nothing, asks for nothing, and as long as the stream goes on leaves the
  arrivals and the bookkeeping of the gaps above the prefix alone.
\<close>

definition quiet :: "XferReceiver \<Rightarrow> XferReceiver \<times> RecvEvent list \<Rightarrow> bool" where
  "quiet rx r \<longleftrightarrow>
     rx_cfg (fst r) = rx_cfg rx \<and> played (snd r) = [] \<and> nack_lists (snd r) = []
     \<and> (gt_invar (rx_gaps rx) \<longrightarrow> gt_invar (rx_gaps (fst r)))
     \<and> (rx_rel_state (fst r) = R_Streaming \<longrightarrow>
          rx_rel_state rx = R_Streaming \<and> rx_gaps (fst r) = rx_gaps rx
          \<and> (\<forall>s. gt_contiguous (rx_gaps rx) < s \<longrightarrow>
               attempts (rx_nacks (fst r)) s = attempts (rx_nacks rx) s))"

lemma quiet_refl: "quiet rx (rx, [])"
  by (simp add: quiet_def)

lemma quiet_andthen: "quiet rx r \<Longrightarrow> (\<And>s. quiet s (f s)) \<Longrightarrow> quiet rx (andthen r f)"
  unfolding quiet_def fst_andthen snd_andthen reads_append by (metis append_Nil)

lemma quiet_finish_rel: "quiet rx (finish_rel rx o')"
  by (simp add: quiet_def finish_rel_def gt_invar_abandon)

lemma attempts_remove: "s \<noteq> k \<Longrightarrow> attempts (bmap_remove k m) s = attempts m s"
  by (simp add: attempts_def)

lemma release_loop_attempts:
  "c < s \<Longrightarrow> attempts (rx_nacks (fst (release_loop c rx))) s = attempts (rx_nacks rx) s"
proof (induction c rx rule: release_loop.induct)
  case (1 c rx)
  have "s \<noteq> rx_rel_released rx + 1" if "rx_rel_released rx < c"
    using unat_succ_less [OF that] that "1.prems" by (auto simp: word_less_nat_alt)
  then show ?case using 1
    by (subst release_loop.simps) (auto simp: Let_def attempts_remove split: option.splits)
qed

lemma quiet_release_contiguous: "quiet rx (release_contiguous rx now)"
  using release_loop_attempts [of "gt_contiguous (rx_gaps rx)" _ rx]
  by (simp add: quiet_def) (simp add: release_contiguous_def Let_def split_beta)

lemma quiet_check_finish: "quiet rx (check_finish rx now)"
proof -
  have ack: "quiet r (ack_end r n)" for r n by (simp add: quiet_def ack_end_def)
  show ?thesis
    by (auto simp: check_finish_def quiet_refl split: option.splits
        intro!: quiet_andthen ack quiet_release_contiguous quiet_finish_rel)
qed

lemma quiet_maybe_ack: "quiet rx (maybe_ack rx now)"
  by (simp add: quiet_def maybe_ack_eq)

lemma quiet_update:
  assumes "quiet rx' r" and "rx_cfg rx' = rx_cfg rx" and "rx_gaps rx' = rx_gaps rx"
    and "rx_rel_state rx' = rx_rel_state rx" and "rx_nacks rx' = rx_nacks rx"
  shows "quiet rx r"
  using assms by (simp add: quiet_def)

text \<open>Everything but \<open>on_data\<close> and \<open>emit_nacks\<close> is quiet.\<close>

lemma quiet_on_body:
  assumes "\<And>ts p. body \<noteq> B_Data ts p"
  shows "quiet rx (on_body rx s body now)"
proof -
  have fin: "quiet rx (finish_rel (rx\<lparr>rx_sender_lost_below := lb\<rparr>) o')" for lb o'
    by (rule quiet_update [OF quiet_finish_rel]) simp_all
  have upd: "quiet rx (rx\<lparr>rx_sender_lost_below := lb\<rparr>, [])" for lb
    by (rule quiet_update [OF quiet_refl]) simp_all
  have chk: "quiet rx (check_finish (rx\<lparr>rx_final_seq := n\<rparr>) now)" for n
    by (rule quiet_update [OF quiet_check_finish]) simp_all
  show ?thesis using assms
    by (cases body)
      (auto simp: on_body_def Let_def quiet_refl fin upd chk intro!: quiet_andthen quiet_check_finish)
qed

text \<open>The frames played while the stream is alive are the arrivals, each once.\<close>

definition play_inv :: "RecvEvent list \<Rightarrow> XferReceiver \<Rightarrow> bool" where
  "play_inv es rx \<longleftrightarrow>
     gt_invar (rx_gaps rx)
     \<and> (\<not> wants_unrel (mode (rx_cfg rx)) \<longrightarrow> played es = [])
     \<and> (wants_unrel (mode (rx_cfg rx)) \<and> rx_rel_state rx = R_Streaming \<longrightarrow>
          distinct (map fr_seq (played es)) \<and> fr_seq ` set (played es) = arrived (rx_gaps rx))"

text \<open>The bookkeeping counts how often a gap was asked for, and never past the budget.\<close>

definition nack_inv :: "RecvEvent list \<Rightarrow> XferReceiver \<Rightarrow> bool" where
  "nack_inv es rx \<longleftrightarrow>
     gt_invar (rx_gaps rx)
     \<and> (\<forall>s. count_list (nacked es) s \<le> unat (max_nack_attempts (rx_cfg rx)))
     \<and> (rx_rel_state rx = R_Streaming \<longrightarrow>
          (\<forall>s. gt_contiguous (rx_gaps rx) < s \<longrightarrow>
             count_list (nacked es) s = attempts (rx_nacks rx) s))"

lemma quiet_play: "quiet rx r \<Longrightarrow> play_inv es rx \<Longrightarrow> after play_inv es r"
  by (auto simp: quiet_def play_inv_def after_def)

lemma quiet_nack: "quiet rx r \<Longrightarrow> nack_inv es rx \<Longrightarrow> after nack_inv es r"
  by (auto simp: quiet_def nack_inv_def after_def nacked_def)

text \<open>\<open>on_data\<close> records the arrival, plays a fresh frame, and is quiet from there on.\<close>

lemma on_data_split:
  assumes "gt_record (rx_gaps rx) (fr_seq f) = (g, fresh)"
  obtains k where "on_data rx f now =
      andthen (rx\<lparr>rx_gaps := g\<rparr>, if fresh \<and> wants_unrel (mode (rx_cfg rx)) then [Unreliable f] else []) k"
    and "quiet (rx\<lparr>rx_gaps := g\<rparr>) (k (rx\<lparr>rx_gaps := g\<rparr>))"
proof -
  let ?k = "\<lambda>rx1. if rx_rel_state rx1 \<noteq> R_Streaming then (rx1, [])
          else if \<not> fresh then (rx1, [])
          else if window_span (rx_gaps rx1) > reorder_window (rx_cfg rx1)
          then finish_rel rx1 (Aborted BufferExhausted)
          else let rx2 = rx1\<lparr>rx_reorder_bytes := rx_reorder_bytes rx1 + length (fr_payload f),
                            rx_reorder := bmap_insert (fr_seq f) f (rx_reorder rx1)\<rparr>
               in if rx_reorder_bytes rx2 > max_reorder_bytes (rx_cfg rx2)
                  then finish_rel rx2 (Aborted BufferExhausted)
                  else andthen (release_contiguous rx2 now) (\<lambda>r. check_finish r now)"
  let ?b = "\<lambda>rx1. rx1\<lparr>rx_reorder_bytes := rx_reorder_bytes rx1 + length (fr_payload f),
                    rx_reorder := bmap_insert (fr_seq f) f (rx_reorder rx1)\<rparr>"
  have abort: "quiet rx1 (finish_rel (?b rx1) o')" for rx1 o'
    by (rule quiet_update [OF quiet_finish_rel]) simp_all
  have "quiet (?b rx1) (andthen (release_contiguous (?b rx1) now) (\<lambda>r. check_finish r now))" for rx1
    by (rule quiet_andthen [OF quiet_release_contiguous quiet_check_finish])
  then have admit: "quiet rx1 (andthen (release_contiguous (?b rx1) now) (\<lambda>r. check_finish r now))" for rx1
    by (rule quiet_update) simp_all
  have k: "quiet rx1 (?k rx1)" for rx1
    using abort [of rx1] admit [of rx1] by (simp add: Let_def quiet_refl quiet_finish_rel)
  show thesis
    by (rule that [of ?k, OF _ k]) (simp add: on_data_def assms Let_def)
qed

lemma on_data_play:
  assumes inv: "play_inv es rx"
  shows "after play_inv es (on_data rx f now)"
proof -
  obtain g fresh where rec: "gt_record (rx_gaps rx) (fr_seq f) = (g, fresh)" by force
  obtain k where k: "on_data rx f now =
      andthen (rx\<lparr>rx_gaps := g\<rparr>, if fresh \<and> wants_unrel (mode (rx_cfg rx)) then [Unreliable f] else []) k"
    "quiet (rx\<lparr>rx_gaps := g\<rparr>) (k (rx\<lparr>rx_gaps := g\<rparr>))" using on_data_split [OF rec] by blast
  have gt: "gt_invar (rx_gaps rx)" using inv by (simp add: play_inv_def)
  have "play_inv (es @ (if fresh \<and> wants_unrel (mode (rx_cfg rx)) then [Unreliable f] else []))
      (rx\<lparr>rx_gaps := g\<rparr>)"
    using inv gt_record_laws [OF gt, of "fr_seq f"] rec gt_record_stale [of "fr_seq f" "rx_gaps rx"]
    by (auto simp: play_inv_def)
  from quiet_play [OF k(2) this] show ?thesis unfolding k(1) by (simp add: after_def)
qed

lemma on_data_nack:
  assumes inv: "nack_inv es rx"
  shows "after nack_inv es (on_data rx f now)"
proof -
  obtain g fresh where rec: "gt_record (rx_gaps rx) (fr_seq f) = (g, fresh)" by force
  obtain k where k: "on_data rx f now =
      andthen (rx\<lparr>rx_gaps := g\<rparr>, if fresh \<and> wants_unrel (mode (rx_cfg rx)) then [Unreliable f] else []) k"
    "quiet (rx\<lparr>rx_gaps := g\<rparr>) (k (rx\<lparr>rx_gaps := g\<rparr>))" using on_data_split [OF rec] by blast
  have gt: "gt_invar (rx_gaps rx)" using inv by (simp add: nack_inv_def)
  have "nack_inv (es @ (if fresh \<and> wants_unrel (mode (rx_cfg rx)) then [Unreliable f] else []))
      (rx\<lparr>rx_gaps := g\<rparr>)"
    using inv gt_record_laws [OF gt, of "fr_seq f"] rec
    by (auto simp: nack_inv_def word_less_nat_alt nacked_def)
  from quiet_nack [OF k(2) this] show ?thesis unfolding k(1) by (simp add: after_def)
qed

text \<open>
  One turn of the NACK loop: the entry of a gap, made up on first sight, and the bookkeeping with it.
\<close>

definition nack_entry :: "instant \<Rightarrow> (u32 \<times> (u8 \<times> instant)) list \<Rightarrow> XferSeq \<Rightarrow> u8 \<times> instant" where
  "nack_entry now nacks s =
     (case map_of nacks s of None \<Rightarrow> (0, now - int (from_secs 3600)) | Some e \<Rightarrow> e)"

definition nack_noted ::
  "instant \<Rightarrow> (u32 \<times> (u8 \<times> instant)) list \<Rightarrow> XferSeq \<Rightarrow> (u32 \<times> (u8 \<times> instant)) list" where
  "nack_noted now nacks s =
     (case map_of nacks s of None \<Rightarrow> bmap_insert s (nack_entry now nacks s) nacks | Some e \<Rightarrow> nacks)"

lemma nack_loop_turn:
  "nack_loop cfg lb now (s # miss) nacks ask =
     (if s \<le> lb then (nacks, ask, True)
      else if fst (nack_entry now nacks s) \<ge> max_nack_attempts cfg then (nack_noted now nacks s, ask, True)
      else if duration_since now (snd (nack_entry now nacks s)) \<ge> nack_delay cfg (fst (nack_entry now nacks s))
      then nack_loop cfg lb now miss
             (bmap_insert s (fst (nack_entry now nacks s) + 1, now) (nack_noted now nacks s)) (ask @ [s])
      else nack_loop cfg lb now miss (nack_noted now nacks s) ask)"
  by (simp add: nack_entry_def nack_noted_def Let_def split: option.splits)

lemma nack_entry_count: "unat (fst (nack_entry now nacks s)) = attempts nacks s"
  by (simp add: nack_entry_def attempts_def split: option.splits)

lemma attempts_noted: "attempts (nack_noted now nacks s) t = attempts nacks t"
  by (auto simp: nack_entry_def nack_noted_def attempts_def split: option.splits)

text \<open>The loop asks for some of the gaps, each once and below the budget, and counts them.\<close>

lemma nack_loop_spec:
  assumes "distinct miss" and "nack_loop cfg lb now miss nacks ask = (nacks', ask', ex)"
  obtains new where "ask' = ask @ new" and "distinct new" and "set new \<subseteq> set miss"
    and "\<And>s. attempts nacks' s = attempts nacks s + count_list new s"
    and "\<And>s. s \<in> set new \<Longrightarrow> attempts nacks s < unat (max_nack_attempts cfg)"
  using assms
proof (induction miss arbitrary: nacks ask thesis)
  case Nil
  show ?case by (rule Nil(1) [of "[]"]) (use Nil in auto)
next
  case (Cons s miss)
  let ?e = "nack_entry now nacks s" and ?n1 = "nack_noted now nacks s"
  note n1 = attempts_noted [of now nacks s] and e = nack_entry_count [of now nacks s]
  consider (stop) n where "n = nacks \<or> n = ?n1" "nacks' = n" "ask' = ask"
    | (wait) "nack_loop cfg lb now miss ?n1 ask = (nacks', ask', ex)"
    | (ask) "fst ?e < max_nack_attempts cfg"
        "nack_loop cfg lb now miss (bmap_insert s (fst ?e + 1, now) ?n1) (ask @ [s]) = (nacks', ask', ex)"
    using Cons.prems(3) unfolding nack_loop_turn by (auto split: if_splits simp: not_le)
  then show ?case
  proof cases
    case stop
    then show ?thesis using n1 by (intro Cons.prems(1) [of "[]"]) auto
  next
    case wait
    obtain new where "ask' = ask @ new" "distinct new" "set new \<subseteq> set miss"
      "\<And>s. attempts nacks' s = attempts ?n1 s + count_list new s"
      "\<And>s. s \<in> set new \<Longrightarrow> attempts ?n1 s < unat (max_nack_attempts cfg)"
      using Cons.IH [OF _ _ wait] Cons.prems(2) by auto
    then show ?thesis using n1 by (intro Cons.prems(1) [of new]) auto
  next
    case ask
    let ?n2 = "bmap_insert s (fst ?e + 1, now) ?n1"
    obtain new where new: "ask' = (ask @ [s]) @ new" "distinct new" "set new \<subseteq> set miss"
      "\<And>t. attempts nacks' t = attempts ?n2 t + count_list new t"
      "\<And>t. t \<in> set new \<Longrightarrow> attempts ?n2 t < unat (max_nack_attempts cfg)"
      using Cons.IH [OF _ _ ask(2)] Cons.prems(2) by auto
    have "unat (fst ?e + 1) = Suc (attempts nacks s)" using unat_succ_less [OF ask(1)] e by simp
    then have n2: "attempts ?n2 t = (if t = s then Suc (attempts nacks s) else attempts nacks t)" for t
      using n1 [of t] by (simp add: attempts_def)
    have s: "s \<notin> set new" using new(3) Cons.prems(2) by auto
    then have "attempts nacks t < unat (max_nack_attempts cfg)" if "t \<in> set new" for t
      using new(5) [OF that] n2 [of t] that by (auto split: if_splits)
    moreover have "attempts nacks s < unat (max_nack_attempts cfg)"
      using ask(1) e by (simp add: word_less_nat_alt)
    ultimately show ?thesis using new(1-4) n2 s by (intro Cons.prems(1) [of "s # new"]) auto
  qed
qed

lemma emit_nacks_cases:
  assumes gt: "gt_invar (rx_gaps rx)" and str: "rx_rel_state rx = R_Streaming"
  obtains (abort) ns where "emit_nacks rx now = finish_rel (rx\<lparr>rx_nacks := ns\<rparr>) (Aborted UnrecoverableGap)"
  | (ask) ns new where "emit_nacks rx now = (rx\<lparr>rx_nacks := ns\<rparr>, if new \<noteq> [] then [SendNack new] else [])"
      and "distinct new" and "set new \<subseteq> set (missing (rx_gaps rx) MAX_NACK_ENTRIES)"
      and "\<And>s. attempts ns s = attempts (rx_nacks rx) s + count_list new s"
      and "\<And>s. s \<in> set new \<Longrightarrow> attempts (rx_nacks rx) s < unat (max_nack_attempts (rx_cfg rx))"
proof (cases "missing (rx_gaps rx) MAX_NACK_ENTRIES = []")
  case True
  then show ?thesis by (intro ask [of "rx_nacks rx" "[]"]) (simp_all add: emit_nacks_def)
next
  case False
  let ?miss = "missing (rx_gaps rx) MAX_NACK_ENTRIES"
  obtain ns new ex where loop:
    "nack_loop (rx_cfg rx) (rx_sender_lost_below rx) now ?miss (rx_nacks rx) [] = (ns, new, ex)"
    by (metis prod_cases3)
  from nack_loop_spec [OF distinct_missing [OF gt] loop] obtain new' where new': "new = [] @ new'"
    "distinct new'" "set new' \<subseteq> set ?miss"
    "\<And>s. attempts ns s = attempts (rx_nacks rx) s + count_list new' s"
    "\<And>s. s \<in> set new' \<Longrightarrow> attempts (rx_nacks rx) s < unat (max_nack_attempts (rx_cfg rx))" by blast
  show ?thesis
  proof (cases ex)
    case True
    then show ?thesis using False loop by (intro abort [of ns]) (simp add: emit_nacks_def)
  next
    case False': False
    then show ?thesis using False loop new' by (intro ask [of ns new']) (auto simp: emit_nacks_def)
  qed
qed

lemma quiet_abort_nacks:
  "rx_rel_state rx = R_Streaming \<Longrightarrow> quiet rx (finish_rel (rx\<lparr>rx_nacks := ns\<rparr>) o')"
  by (simp add: quiet_def finish_rel_streaming gt_invar_abandon)

lemma emit_nacks_play:
  assumes "play_inv es rx" and str: "rx_rel_state rx = R_Streaming"
  shows "after play_inv es (emit_nacks rx now)"
proof -
  have gt: "gt_invar (rx_gaps rx)" using assms(1) by (simp add: play_inv_def)
  show ?thesis
    by (rule emit_nacks_cases [OF gt str, of now])
      (use assms quiet_play [OF quiet_abort_nacks [OF str]] in \<open>auto simp: play_inv_def\<close>)
qed

lemma count_list_distinct: "distinct xs \<Longrightarrow> count_list xs x = (if x \<in> set xs then 1 else 0)"
  by (induction xs) auto

lemma emit_nacks_nack:
  assumes inv: "nack_inv es rx" and str: "rx_rel_state rx = R_Streaming"
  shows "after nack_inv es (emit_nacks rx now)"
proof -
  have gt: "gt_invar (rx_gaps rx)" using inv by (simp add: nack_inv_def)
  show ?thesis
  proof (rule emit_nacks_cases [OF gt str, of now])
    fix ns assume "emit_nacks rx now = finish_rel (rx\<lparr>rx_nacks := ns\<rparr>) (Aborted UnrecoverableGap)"
    then show ?thesis using quiet_nack [OF quiet_abort_nacks [OF str] inv] by simp
  next
    fix ns new assume eq: "emit_nacks rx now = (rx\<lparr>rx_nacks := ns\<rparr>, if new \<noteq> [] then [SendNack new] else [])"
      and new: "distinct new" "set new \<subseteq> set (missing (rx_gaps rx) MAX_NACK_ENTRIES)"
        "\<And>s. attempts ns s = attempts (rx_nacks rx) s + count_list new s"
        "\<And>s. s \<in> set new \<Longrightarrow> attempts (rx_nacks rx) s < unat (max_nack_attempts (rx_cfg rx))"
    have "nacked (if new \<noteq> [] then [SendNack new] else []) = new" by (simp add: nacked_def)
    moreover have "count_list (nacked es) s + count_list new s \<le> unat (max_nack_attempts (rx_cfg rx))" for s
    proof (cases "s \<in> set new")
      case True
      then have "gt_contiguous (rx_gaps rx) < s" using new(2) missingD(1) [OF gt] by blast
      then have "count_list (nacked es) s = attempts (rx_nacks rx) s"
        using inv str by (simp add: nack_inv_def)
      then show ?thesis using new(4) [OF True] True new(1) by (simp add: count_list_distinct)
    qed (use inv in \<open>simp add: nack_inv_def\<close>)
    ultimately show ?thesis using inv str new(3) eq by (simp add: nack_inv_def)
  qed
qed

text \<open>Both relations survive every step.\<close>

lemma tick_with:
  assumes quiet: "\<And>es rx r. quiet rx r \<Longrightarrow> P es rx \<Longrightarrow> after P es r"
    and nacks: "\<And>es rx. P es rx \<Longrightarrow> rx_rel_state rx = R_Streaming \<Longrightarrow> after P es (emit_nacks rx now)"
    and P: "P es rx"
  shows "after P es (recv_tick rx now)"
proof -
  have close: "quiet r (r\<lparr>rx_closed := True\<rparr>, [Closed])" for r by (simp add: quiet_def)
  have close': "quiet rx (rx\<lparr>rx_closed := True\<rparr>, [Closed])" by (rule close)
  have idle: "quiet rx (andthen
      (if rx_rel_state rx = R_Streaming then finish_rel rx (Aborted PeerGone) else (rx, []))
      (\<lambda>r. (r\<lparr>rx_closed := True\<rparr>, [Closed])))"
    by (auto intro!: quiet_andthen quiet_finish_rel close close' quiet_refl)
  have "after P es
     (if rx_rel_state rx = R_Streaming
      then if duration_since now (rx_last_rel_progress_at rx) > rel_stall_timeout (rx_cfg rx)
           then finish_rel rx (Aborted Stalled) else emit_nacks rx now
      else (rx, []))"
    using nacks [OF P] quiet [OF quiet_finish_rel P] quiet [OF quiet_refl P] by simp
  then have busy: "after P es (andthen
     (if rx_rel_state rx = R_Streaming
      then if duration_since now (rx_last_rel_progress_at rx) > rel_stall_timeout (rx_cfg rx)
           then finish_rel rx (Aborted Stalled) else emit_nacks rx now
      else (rx, [])) (\<lambda>r. maybe_ack r now))"
    by (rule after_andthen) (rule quiet [OF quiet_maybe_ack])
  show ?thesis unfolding recv_tick_def using quiet [OF idle P] busy quiet [OF quiet_refl P] by simp
qed

lemma step_with:
  assumes quiet: "\<And>es rx r. quiet rx r \<Longrightarrow> P es rx \<Longrightarrow> after P es r"
    and nacks: "\<And>es rx now. P es rx \<Longrightarrow> rx_rel_state rx = R_Streaming \<Longrightarrow> after P es (emit_nacks rx now)"
    and data: "\<And>es rx f now. P es rx \<Longrightarrow> after P es (on_data rx f now)"
    and P: "P es rx"
  shows "after P es (recv_step rx i)"
proof (cases i)
  case (Packet s b now)
  let ?rx = "rx\<lparr>rx_last_packet_at := now\<rparr>"
  have "quiet rx (?rx, [])" by (rule quiet_update [OF quiet_refl]) simp_all
  from quiet [OF this P] have P': "P es ?rx" by simp
  have "after P es (on_body ?rx s b now)"
  proof (cases "\<exists>ts p. b = B_Data ts p")
    case True
    then show ?thesis using data [OF P'] by (cases b) (simp_all add: on_body_def)
  next
    case False
    then show ?thesis by (intro quiet [OF quiet_on_body P']) auto
  qed
  then have "after P es (recv_handle rx s b now)"
    unfolding recv_handle_def by (rule after_andthen) (rule quiet [OF quiet_maybe_ack])
  then show ?thesis using Packet by simp
next
  case (RTick now)
  then show ?thesis using tick_with [of P, OF quiet nacks P] by simp
next
  case (SetBuffered ms)
  have "quiet rx (set_buffered_ms rx ms, [])"
    unfolding set_buffered_ms_def by (rule quiet_update [OF quiet_refl]) simp_all
  from quiet [OF this P] show ?thesis using SetBuffered by simp
qed

lemma rx_cfg_step: "rx_cfg (fst (recv_step rx i)) = rx_cfg rx"
proof -
  have "after (\<lambda>es r. rx_cfg r = rx_cfg rx) [] (recv_step rx i)"
  proof (rule step_with)
    fix es now and f :: Frame and r :: XferReceiver assume c: "rx_cfg r = rx_cfg rx"
    obtain g fresh where rec: "gt_record (rx_gaps r) (fr_seq f) = (g, fresh)" by force
    show "after (\<lambda>es r. rx_cfg r = rx_cfg rx) es (on_data r f now)"
      by (rule on_data_split [OF rec, of now]) (use c in \<open>simp add: after_def quiet_def\<close>)
  next
    fix es now and r :: XferReceiver assume "rx_cfg r = rx_cfg rx"
    then show "after (\<lambda>es r. rx_cfg r = rx_cfg rx) es (emit_nacks r now)"
      by (simp add: after_def emit_nacks_def Let_def split_beta finish_rel_def)
  qed (simp_all add: after_def quiet_def)
  then show ?thesis by (simp add: after_def)
qed

lemma XferReceiver_new_simps [simp]:
  "rx_cfg (XferReceiver_new cfg now) = cfg" "rx_gaps (XferReceiver_new cfg now) = GapTracker_new"
  "rx_nacks (XferReceiver_new cfg now) = []" "rx_rel_state (XferReceiver_new cfg now) = R_Streaming"
  by (simp_all add: XferReceiver_new_def)

interpretation cfg_const: state_invariant recv_step "XferReceiver_new cfg now" "\<lambda>rx. rx_cfg rx = cfg"
  for cfg now
  by unfold_locales (simp_all add: rx_cfg_step)

interpretation play: history_invariant recv_step "XferReceiver_new cfg now" "\<lambda>is es rx. play_inv es rx"
  for cfg now
proof
  show "play_inv [] (XferReceiver_new cfg now)" by (simp add: play_inv_def gt_invar_new)
  show "play_inv es rx \<Longrightarrow> play_inv (es @ snd (recv_step rx i)) (fst (recv_step rx i))" for es rx i
    using step_with [of play_inv, OF quiet_play emit_nacks_play on_data_play] by (simp add: after_def)
qed

interpretation budget: history_invariant recv_step "XferReceiver_new cfg now" "\<lambda>is es rx. nack_inv es rx"
  for cfg now
proof
  show "nack_inv [] (XferReceiver_new cfg now)" by (simp add: nack_inv_def gt_invar_new attempts_def)
  show "nack_inv es rx \<Longrightarrow> nack_inv (es @ snd (recv_step rx i)) (fst (recv_step rx i))" for es rx i
    using step_with [of nack_inv, OF quiet_nack emit_nacks_nack on_data_nack] by (simp add: after_def)
qed

section \<open>Arrivals\<close>

text \<open>As long as the stream is alive the tracker holds exactly the payload numbers received.\<close>

definition data_seqs :: "RecvInput list \<Rightarrow> XferSeq set" where
  "data_seqs is = {s. s \<noteq> 0 \<and> (\<exists>ts p now. Packet s (B_Data ts p) now \<in> set is)}"

lemma data_seqs_simps [simp]:
  "data_seqs [] = {}" "data_seqs (is @ js) = data_seqs is \<union> data_seqs js"
  by (auto simp: data_seqs_def)

lemma data_seqs_single:
  "data_seqs [i] = (case i of Packet s (B_Data ts p) now \<Rightarrow> {s} - {0} | _ \<Rightarrow> {})"
  by (auto simp: data_seqs_def split: RecvInput.splits Body.splits)

definition same_arrivals :: "XferReceiver \<Rightarrow> XferReceiver \<Rightarrow> bool" where
  "same_arrivals rx rx' \<longleftrightarrow> (rx_rel_state rx' = R_Streaming \<longrightarrow>
     rx_rel_state rx = R_Streaming \<and> rx_gaps rx' = rx_gaps rx)"

lemma quiet_same: "quiet rx r \<Longrightarrow> same_arrivals rx (fst r)"
  by (simp add: quiet_def same_arrivals_def)

lemma same_arrivals_trans: "same_arrivals a b \<Longrightarrow> same_arrivals b c \<Longrightarrow> same_arrivals a c"
  by (simp add: same_arrivals_def)

lemma emit_nacks_same: "same_arrivals rx (fst (emit_nacks rx now))"
  by (simp add: same_arrivals_def emit_nacks_def Let_def split_beta finish_rel_def)

lemma recv_tick_same: "same_arrivals rx (fst (recv_tick rx now))"
proof -
  have "after (\<lambda>es r. same_arrivals rx r) [] (recv_tick rx now)"
    by (rule tick_with)
      (auto simp: after_def same_arrivals_def dest: quiet_same emit_nacks_same
        [unfolded same_arrivals_def, rule_format])
  then show ?thesis by (simp add: after_def)
qed

lemma on_data_arrivals:
  assumes "rx_rel_state (fst (on_data rx f now)) = R_Streaming"
  shows "rx_rel_state rx = R_Streaming \<and> rx_gaps (fst (on_data rx f now)) = fst (gt_record (rx_gaps rx) (fr_seq f))"
proof -
  obtain g fresh where rec: "gt_record (rx_gaps rx) (fr_seq f) = (g, fresh)" by force
  show ?thesis
    by (rule on_data_split [OF rec, of now]) (use assms rec in \<open>auto simp: quiet_def\<close>)
qed

lemma arrivals_step:
  assumes gt: "gt_invar (rx_gaps rx)" and str: "rx_rel_state (fst (recv_step rx i)) = R_Streaming"
  shows "rx_rel_state rx = R_Streaming
    \<and> arrived (rx_gaps (fst (recv_step rx i))) = arrived (rx_gaps rx) \<union> data_seqs [i]"
proof (cases i)
  case (Packet s b now)
  let ?rx = "rx\<lparr>rx_last_packet_at := now\<rparr>"
  have upd: "same_arrivals rx ?rx" by (simp add: same_arrivals_def)
  show ?thesis
  proof (cases "\<exists>ts p. b = B_Data ts p")
    case True
    then obtain ts p where b: "b = B_Data ts p" by blast
    let ?f = "\<lparr>fr_seq = s, fr_ts = ts, fr_payload = p\<rparr>"
    have "rx_rel_state (fst (on_data ?rx ?f now)) = R_Streaming"
      using str by (simp add: Packet b recv_handle_def on_body_def)
    from on_data_arrivals [OF this] show ?thesis
      using gt_record_laws(3) [OF gt, of s]
      by (simp add: Packet b recv_handle_def on_body_def data_seqs_single)
  next
    case False
    then have q: "quiet ?rx (on_body ?rx s b now)" by (intro quiet_on_body) auto
    have "data_seqs [i] = {}" using False by (auto simp: Packet data_seqs_single split: Body.splits)
    then show ?thesis using quiet_same [OF q] str
      by (simp add: Packet recv_handle_def same_arrivals_def)
  qed
next
  case (RTick now)
  then show ?thesis using recv_tick_same [of rx now] str
    by (simp add: same_arrivals_def data_seqs_single)
next
  case (SetBuffered ms)
  then show ?thesis using str by (simp add: set_buffered_ms_def data_seqs_single)
qed

interpretation arrivals: history_invariant recv_step "XferReceiver_new cfg now"
  "\<lambda>is es rx. play_inv es rx
     \<and> (rx_rel_state rx = R_Streaming \<longrightarrow> arrived (rx_gaps rx) = data_seqs is)" for cfg now
proof
  show "play_inv [] (XferReceiver_new cfg now) \<and> (rx_rel_state (XferReceiver_new cfg now) = R_Streaming \<longrightarrow>
      arrived (rx_gaps (XferReceiver_new cfg now)) = data_seqs [])"
    using play.base by simp
next
  fix "is" es rx i
  assume "play_inv es rx \<and> (rx_rel_state rx = R_Streaming \<longrightarrow> arrived (rx_gaps rx) = data_seqs is)"
  then show "play_inv (es @ snd (recv_step rx i)) (fst (recv_step rx i))
      \<and> (rx_rel_state (fst (recv_step rx i)) = R_Streaming \<longrightarrow>
          arrived (rx_gaps (fst (recv_step rx i))) = data_seqs (is @ [i]))"
    using play.preserved arrivals_step [of rx i] by (auto simp: play_inv_def)
qed

end
