(* ===== verification/Pf4_Receiver_Output.thy ===== *)
theory Pf4_Receiver_Output
  imports Pf4_Receiver_Streams
begin

text \<open>
  What the receiver's output looks like: the reliable frames with their outcome, requests that fit
  a packet and are sorted, an acknowledgement of the end only when everything has arrived, and
  what a tick does when a timer has run out.
\<close>

section \<open>The shape of the output\<close>

fun event_released :: "RecvEvent \<Rightarrow> Frame list" where
  "event_released (Reliable f) = [f]"
| "event_released _ = []"

definition reliable_frames :: "RecvEvent list \<Rightarrow> Frame list" where
  "reliable_frames es = concat (map event_released es)"

fun event_outcome :: "RecvEvent \<Rightarrow> RelOutcome list" where
  "event_outcome (RelFinished o') = [o']"
| "event_outcome _ = []"

definition outcomes :: "RecvEvent list \<Rightarrow> RelOutcome list" where
  "outcomes es = concat (map event_outcome es)"

lemma rel_events_frames: "reliable_frames (rel_events es) = reliable_frames es"
  unfolding reliable_frames_def rel_events_def
proof (induction es)
  case (Cons e es)
  then show ?case by (cases e) simp_all
qed simp

lemma rel_events_outcomes: "outcomes (rel_events es) = outcomes es"
  unfolding outcomes_def rel_events_def
proof (induction es)
  case (Cons e es)
  then show ?case by (cases e) simp_all
qed simp

lemma stream_parts:
  "reliable_frames (map Reliable fs) = fs" "outcomes (map Reliable fs) = []"
  "reliable_frames (map Reliable fs @ [RelFinished o']) = fs"
  "outcomes (map Reliable fs @ [RelFinished o']) = [o']"
  by (induction fs) (simp_all add: reliable_frames_def outcomes_def)

lemma length_in_order: "in_order S fs n \<Longrightarrow> length fs = unat n"
  by (auto simp: in_order_def dest: arg_cong [of _ _ length])

lemma settled_shape:
  assumes "settled_inv S D es rx"
  shows "rel_events es = map Reliable (reliable_frames es) @ map RelFinished (outcomes es)"
    and "in_order S (reliable_frames es) (rx_rel_released rx)"
    and "length (outcomes es) = (if rx_rel_state rx = R_Streaming then 0 else 1)"
    and "\<And>n. Complete n \<in> set (outcomes es) \<Longrightarrow> n \<le> rx_rel_released rx \<and> D n"
proof -
  have "rel_events es = map Reliable (reliable_frames es) @ map RelFinished (outcomes es)
    \<and> in_order S (reliable_frames es) (rx_rel_released rx)
    \<and> length (outcomes es) = (if rx_rel_state rx = R_Streaming then 0 else 1)
    \<and> (\<forall>n. Complete n \<in> set (outcomes es) \<longrightarrow> n \<le> rx_rel_released rx \<and> D n)"
  proof (cases "rx_rel_state rx")
    case R_Streaming
    then obtain fs where fs: "rel_events es = map Reliable fs" "in_order S fs (rx_rel_released rx)"
      using assms by (auto simp: settled_inv_def streaming_inv_def)
    have "reliable_frames es = fs" "outcomes es = []"
      using rel_events_frames [of es] rel_events_outcomes [of es] fs(1) by (simp_all add: stream_parts)
    then show ?thesis using fs R_Streaming by simp
  next
    case R_Finished
    then obtain fs o' where fs: "rel_events es = map Reliable fs @ [RelFinished o']"
      "in_order S fs (rx_rel_released rx)" "\<forall>n. o' = Complete n \<longrightarrow> n \<le> rx_rel_released rx \<and> D n"
      using assms by (auto simp: settled_inv_def finished_inv_def)
    have "reliable_frames es = fs" "outcomes es = [o']"
      using rel_events_frames [of es] rel_events_outcomes [of es] fs(1) by (simp_all add: stream_parts)
    then show ?thesis using fs R_Finished by auto
  qed
  then show "rel_events es = map Reliable (reliable_frames es) @ map RelFinished (outcomes es)"
    and "in_order S (reliable_frames es) (rx_rel_released rx)"
    and "length (outcomes es) = (if rx_rel_state rx = R_Streaming then 0 else 1)"
    and "\<And>n. Complete n \<in> set (outcomes es) \<Longrightarrow> n \<le> rx_rel_released rx \<and> D n" by blast+
qed

text \<open>The buffer holds no more frames than the window is wide.\<close>

lemma ahead_bounded:
  assumes gt: "gt_invar g"
  shows "length (gt_ahead g) \<le> unat (window_span g)"
proof -
  have sub: "unat ` set (gt_ahead g) \<subseteq> {Suc (unat (gt_contiguous g))..unat (gt_highest g)}"
    using gt by (auto simp: gt_invar_def word_le_nat_alt)
  have "distinct (gt_ahead g)" using gt by (simp add: gt_invar_def bset_invar_def strict_sorted_iff)
  moreover have "card (unat ` set (gt_ahead g)) = card (set (gt_ahead g))"
    by (rule card_image) (simp add: inj_on_def word_unat_eq_iff)
  ultimately have "length (gt_ahead g) = card (unat ` set (gt_ahead g))" by (simp add: distinct_card)
  also have "\<dots> \<le> card {Suc (unat (gt_contiguous g))..unat (gt_highest g)}"
    by (rule card_mono [OF _ sub]) simp
  also have "\<dots> = unat (window_span g)"
    using gt by (simp add: window_span_def unat_simps gt_invar_def word_le_nat_alt)
  finally show ?thesis .
qed

lemma reorder_bounded:
  assumes "settled_inv S D es rx"
  shows "length (rx_reorder rx) \<le> unat (reorder_window (rx_cfg rx))
    \<and> frame_weight (rx_reorder rx) \<le> max_reorder_bytes (rx_cfg rx)"
proof (cases "rx_rel_state rx")
  case R_Finished
  then show ?thesis using assms by (simp add: settled_inv_def finished_inv_def frame_weight_def)
next
  case R_Streaming
  then have inv: "streaming_inv S es rx" and rel: "rx_rel_released rx = gt_contiguous (rx_gaps rx)"
    using assms by (simp_all add: settled_inv_def)
  then have gt: "gt_invar (rx_gaps rx)"
    and keys: "fst ` set (rx_reorder rx) = set (gt_ahead (rx_gaps rx))"
    by (auto simp: streaming_inv_def arrived_above)
  have "distinct (map fst (rx_reorder rx))"
    using inv by (simp add: streaming_inv_def bmap.distinct_keys)
  then have "length (rx_reorder rx) = card (fst ` set (rx_reorder rx))"
    using distinct_card [of "map fst (rx_reorder rx)"] by simp
  also have "\<dots> \<le> length (gt_ahead (rx_gaps rx))" unfolding keys by (rule card_length)
  also have "\<dots> \<le> unat (window_span (rx_gaps rx))" by (rule ahead_bounded [OF gt])
  finally show ?thesis using inv by (simp add: streaming_inv_def word_le_nat_alt)
qed

text \<open>Every \<open>Nack\<close> is one the codec accepts and lists true gaps.\<close>

definition nack_ok :: "XferSeq list \<Rightarrow> bool" where
  "nack_ok m \<longleftrightarrow> m \<noteq> [] \<and> distinct m \<and> 0 \<notin> set m \<and> length m \<le> MAX_NACK_ENTRIES"

definition nacks_ok :: "RecvEvent list \<Rightarrow> XferReceiver \<Rightarrow> bool" where
  "nacks_ok es rx \<longleftrightarrow> gt_invar (rx_gaps rx) \<and> list_all nack_ok (nack_lists es)"

lemma length_subset_distinct: "distinct xs \<Longrightarrow> set xs \<subseteq> set ys \<Longrightarrow> length xs \<le> length ys"
  by (metis card_length card_mono distinct_card finite_set order_trans)

lemma quiet_nacks_ok: "quiet rx r \<Longrightarrow> nacks_ok es rx \<Longrightarrow> after nacks_ok es r"
  by (simp add: quiet_def nacks_ok_def after_def)

lemma emit_nacks_ok:
  assumes inv: "nacks_ok es rx" and str: "rx_rel_state rx = R_Streaming"
  shows "after nacks_ok es (emit_nacks rx now)"
proof -
  have gt: "gt_invar (rx_gaps rx)" using inv by (simp add: nacks_ok_def)
  show ?thesis
  proof (rule emit_nacks_cases [OF gt str, of now])
    fix ns assume "emit_nacks rx now = finish_rel (rx\<lparr>rx_nacks := ns\<rparr>) (Aborted UnrecoverableGap)"
    then show ?thesis using quiet_nacks_ok [OF quiet_abort_nacks [OF str] inv] by simp
  next
    fix ns new assume eq: "emit_nacks rx now = (rx\<lparr>rx_nacks := ns\<rparr>, if new \<noteq> [] then [SendNack new] else [])"
      and new: "distinct new" "set new \<subseteq> set (missing (rx_gaps rx) MAX_NACK_ENTRIES)"
    have "0 \<notin> set new" using new(2) missingD(1) [OF gt, of 0] by auto
    moreover have "length new \<le> MAX_NACK_ENTRIES"
      using length_subset_distinct [OF new] length_missing [of "rx_gaps rx" MAX_NACK_ENTRIES] by simp
    ultimately show ?thesis using inv new(1) eq by (simp add: nacks_ok_def nack_ok_def)
  qed
qed

lemma on_data_ok:
  assumes inv: "nacks_ok es rx"
  shows "after nacks_ok es (on_data rx f now)"
proof -
  obtain g fresh where rec: "gt_record (rx_gaps rx) (fr_seq f) = (g, fresh)" by force
  have gt: "gt_invar g"
    using gt_record_laws(1) [of "rx_gaps rx" "fr_seq f"] inv rec by (simp add: nacks_ok_def)
  show ?thesis
    by (rule on_data_split [OF rec, of now])
      (use inv gt in \<open>auto simp: after_def nacks_ok_def quiet_def\<close>)
qed

interpretation nack_shape: history_invariant recv_step "XferReceiver_new cfg now"
  "\<lambda>is es rx. nacks_ok es rx" for cfg now
proof
  show "nacks_ok [] (XferReceiver_new cfg now)" by (simp add: nacks_ok_def gt_invar_new)
  show "nacks_ok es rx \<Longrightarrow> nacks_ok (es @ snd (recv_step rx i)) (fst (recv_step rx i))" for es rx i
    using step_with [of nacks_ok, OF quiet_nacks_ok emit_nacks_ok on_data_ok] by (simp add: after_def)
qed

section \<open>What the acknowledgement of the end means\<close>

text \<open>
  \<open>D\<close> holds of the declared lengths and \<open>X\<close> contains the numbers that arrived, before and after an
  abort; an \<open>EndAck\<close> is sent only once the prefix covers a declared length.
\<close>

definition ends_ok ::
  "(XferSeq \<Rightarrow> bool) \<Rightarrow> XferSeq set \<Rightarrow> RecvEvent list \<Rightarrow> XferReceiver \<Rightarrow> bool" where
  "ends_ok D X es rx \<longleftrightarrow>
     gt_invar (rx_gaps rx) \<and> arrived (rx_gaps rx) \<subseteq> X
     \<and> (\<forall>n. rx_final_seq rx = Some n \<longrightarrow> D n)
     \<and> (SendEndAck \<in> set es \<longrightarrow> (\<exists>n. D n \<and> n \<le> gt_contiguous (rx_gaps rx)))"

definition calm :: "XferReceiver \<Rightarrow> XferReceiver \<times> RecvEvent list \<Rightarrow> bool" where
  "calm rx r \<longleftrightarrow>
     rx_final_seq (fst r) = rx_final_seq rx \<and> SendEndAck \<notin> set (snd r)
     \<and> (rx_gaps (fst r) = rx_gaps rx \<or> rx_gaps (fst r) = abandon (rx_gaps rx))"

lemma calm_ends_ok:
  assumes "calm rx r" and "ends_ok D X es rx"
  shows "after (ends_ok D X) es r"
proof -
  have "arrived (abandon (rx_gaps rx)) \<subseteq> arrived (rx_gaps rx)" by (auto simp: arrived_def)
  then have "arrived (rx_gaps (fst r)) \<subseteq> X" using assms by (auto simp: calm_def ends_ok_def)
  then show ?thesis using assms gt_invar_abandon by (auto simp: calm_def ends_ok_def after_def)
qed

lemma release_loop_calm: "SendEndAck \<notin> set (snd (release_loop c rx))"
proof (induction c rx rule: release_loop.induct)
  case (1 c rx)
  then show ?case by (subst release_loop.simps) (auto simp: Let_def split: option.splits)
qed

lemma calm_ops:
  "calm rx (rx, [])" "calm rx (finish_rel rx o')" "calm rx (release_contiguous rx now)"
  "calm rx (maybe_ack rx now)" "calm rx (emit_nacks rx now)"
proof -
  show "calm rx (release_contiguous rx now)"
    using release_loop_calm [of "gt_contiguous (rx_gaps rx)" rx]
    by (simp add: calm_def) (simp add: release_contiguous_def split_beta Let_def)
qed (simp_all add: calm_def finish_rel_def maybe_ack_def emit_nacks_def Let_def split_beta)

lemma ack_end_ok:
  assumes "ends_ok D X es rx" and "D n"
  shows "after (ends_ok D X) es (ack_end rx n)"
proof -
  have gaps: "rx_gaps (fst (ack_end rx n)) = rx_gaps rx"
    "rx_final_seq (fst (ack_end rx n)) = rx_final_seq rx" by (simp_all add: ack_end_def)
  have "SendEndAck \<in> set (snd (ack_end rx n)) \<Longrightarrow> n \<le> gt_contiguous (rx_gaps rx)"
    by (auto simp: ack_end_def is_complete_def split: if_splits)
  then show ?thesis using assms gaps unfolding ends_ok_def after_def by auto
qed

lemma check_finish_ok:
  assumes "ends_ok D X es rx"
  shows "after (ends_ok D X) es (check_finish rx now)"
proof (cases "rx_final_seq rx")
  case None
  then show ?thesis using assms by (simp add: check_finish_def)
next
  case (Some n)
  then have D: "D n" using assms by (simp add: ends_ok_def)
  have "after (ends_ok D X) es
      (if rx_rel_state rx = R_Streaming \<and> is_complete (rx_gaps rx) n
       then andthen (release_contiguous rx now) (\<lambda>r. finish_rel r (Complete n)) else (rx, []))"
    using assms by (simp add: after_andthen [OF calm_ends_ok [OF calm_ops(3)] calm_ends_ok [OF calm_ops(2)]])
  then show ?thesis unfolding check_finish_def Some option.case
    by (rule after_andthen) (rule ack_end_ok, assumption, rule D)
qed

lemma ends_ok_update:
  assumes "ends_ok D X es rx" and "rx_gaps rx' = rx_gaps rx" and "rx_final_seq rx' = rx_final_seq rx"
  shows "ends_ok D X es rx'"
  using assms by (simp add: ends_ok_def)

lemma on_data_ends_ok:
  assumes inv: "ends_ok D X es rx" and X: "fr_seq f \<noteq> 0 \<Longrightarrow> fr_seq f \<in> X"
  shows "after (ends_ok D X) es (on_data rx f now)"
proof -
  obtain g fresh where rec: "gt_record (rx_gaps rx) (fr_seq f) = (g, fresh)" by force
  have gt: "gt_invar (rx_gaps rx)" using inv by (simp add: ends_ok_def)
  have g: "gt_invar g" "arrived g \<subseteq> X" "gt_contiguous (rx_gaps rx) \<le> gt_contiguous g"
    using gt_record_laws [OF gt, of "fr_seq f"] rec inv X by (auto simp: ends_ok_def word_le_nat_alt)
  have rec_ok: "ends_ok D X (es @ p) (rx\<lparr>rx_gaps := g\<rparr>)" if "SendEndAck \<notin> set p" for p
    using inv g that by (auto simp: ends_ok_def intro: order_trans)
  have fin: "after (ends_ok D X) fs (finish_rel r o')" if "ends_ok D X fs r" for fs r o'
    by (rule calm_ends_ok [OF calm_ops(2) that])
  have admit: "after (ends_ok D X) fs (andthen (release_contiguous r now) (\<lambda>r. check_finish r now))"
    if "ends_ok D X fs r" for fs r
    by (rule after_andthen [OF calm_ends_ok [OF calm_ops(3) that] check_finish_ok])
  show ?thesis unfolding on_data_def rec Let_def prod.case
  proof (rule after_andthen, goal_cases)
    case 1
    show ?case using rec_ok by simp
  next
    case (2 fs r)
    note upd = ends_ok_update [OF 2, of "r\<lparr>rx_reorder_bytes := b, rx_reorder := m\<rparr>" for b m]
    show ?case using 2 fin [OF 2] fin [OF upd] admit [OF upd] by (simp add: Let_def)
  qed
qed

lemma recv_step_ends_ok:
  assumes inv: "ends_ok D X es rx" and X: "data_seqs [i] \<subseteq> X"
    and D: "\<And>s n now. i = Packet s (B_End n) now \<Longrightarrow> D n"
  shows "after (ends_ok D X) es (recv_step rx i)"
proof (cases i)
  case (Packet s b now)
  let ?rx = "rx\<lparr>rx_last_packet_at := now\<rparr>"
  have inv': "ends_ok D X es ?rx" by (rule ends_ok_update [OF inv]) simp_all
  have keep: "ends_ok D X es (?rx\<lparr>rx_sender_lost_below := lb\<rparr>)" for lb
    by (rule ends_ok_update [OF inv]) simp_all
  have "after (ends_ok D X) es (on_body ?rx s b now)"
  proof (cases b)
    case (B_Data ts p)
    then show ?thesis using on_data_ends_ok [OF inv', of "\<lparr>fr_seq = s, fr_ts = ts, fr_payload = p\<rparr>"] X Packet
      by (auto simp: on_body_def data_seqs_single)
  next
    case (B_End n)
    have "ends_ok D X es (?rx\<lparr>rx_final_seq := Some n\<rparr>)"
      using inv' D [of s n now] Packet B_End by (simp add: ends_ok_def)
    then show ?thesis using check_finish_ok B_End by (simp add: on_body_def)
  next
    case (B_Keepalive lb)
    then show ?thesis
      using inv' keep calm_ends_ok [OF calm_ops(2) keep]
      by (auto simp: on_body_def Let_def intro!: after_andthen check_finish_ok)
  qed (use inv' in \<open>simp_all add: on_body_def\<close>)
  then have "after (ends_ok D X) es (recv_handle rx s b now)"
    unfolding recv_handle_def by (rule after_andthen) (rule calm_ends_ok [OF calm_ops(4)])
  then show ?thesis using Packet by simp
next
  case (RTick now)
  have close: "calm r (r\<lparr>rx_closed := True\<rparr>, [Closed])" for r by (simp add: calm_def)
  show ?thesis unfolding RTick recv_step.simps recv_tick_def
    using inv by (auto intro!: after_andthen intro: calm_ends_ok [OF calm_ops(1)] calm_ends_ok [OF calm_ops(2)]
        calm_ends_ok [OF calm_ops(4)] calm_ends_ok [OF calm_ops(5)] calm_ends_ok [OF close])
next
  case (SetBuffered ms)
  then show ?thesis using ends_ok_update [OF inv] by (simp add: set_buffered_ms_def)
qed

lemma ends_ok_mono:
  assumes "ends_ok D X es rx" and "\<And>n. D n \<Longrightarrow> D' n" and "X \<subseteq> X'"
  shows "ends_ok D' X' es rx"
  using assms unfolding ends_ok_def by blast

interpretation end_ack: history_invariant recv_step "XferReceiver_new cfg now"
  "\<lambda>is es rx. ends_ok (declared is) (data_seqs is) es rx" for cfg now
proof
  show "ends_ok (declared []) (data_seqs []) [] (XferReceiver_new cfg now)"
    by (simp add: ends_ok_def gt_invar_new XferReceiver_new_def)
next
  fix "is" es rx i
  assume inv: "ends_ok (declared is) (data_seqs is) es rx"
  have "ends_ok (declared (is @ [i])) (data_seqs (is @ [i])) es rx"
    by (rule ends_ok_mono [OF inv]) (auto simp: declared_def)
  then have "after (ends_ok (declared (is @ [i])) (data_seqs (is @ [i]))) es (recv_step rx i)"
    by (rule recv_step_ends_ok) (auto simp: declared_def)
  then show "ends_ok (declared (is @ [i])) (data_seqs (is @ [i]))
      (es @ snd (recv_step rx i)) (fst (recv_step rx i))" by (simp add: after_def)
qed

lemma end_ack_covers:
  assumes "SendEndAck \<in> set (trace recv_step (XferReceiver_new cfg t0) is)"
  shows "\<exists>n. declared is n \<and> {1..n} \<subseteq> data_seqs is"
proof -
  let ?rx = "final recv_step (XferReceiver_new cfg t0) is"
  obtain n where n: "declared is n" "n \<le> gt_contiguous (rx_gaps ?rx)"
    and sub: "arrived (rx_gaps ?rx) \<subseteq> data_seqs is"
    using end_ack.holds [of "is" cfg t0] assms by (auto simp: ends_ok_def)
  have "s \<in> data_seqs is" if "s \<in> {1..n}" for s
  proof -
    have "s \<noteq> 0" "s \<le> gt_contiguous (rx_gaps ?rx)" using that n(2) by auto
    then show ?thesis using prefix_arrived sub by blast
  qed
  then show ?thesis using n(1) by blast
qed

section \<open>Timers\<close>

lemma idle_tick:
  assumes "\<not> rx_closed rx" and "duration_since now (rx_last_packet_at rx) > idle_timeout (rx_cfg rx)"
  shows "recv_tick rx now =
    andthen (if rx_rel_state rx = R_Streaming then finish_rel rx (Aborted PeerGone) else (rx, []))
      (\<lambda>r. (r\<lparr>rx_closed := True\<rparr>, [Closed]))"
  using assms by (simp add: recv_tick_def)

text \<open>
  The loop without its iteration: it breaks off exactly when some gap is beyond recovery, and
  otherwise asks for the gaps that are due.
\<close>

definition hopeless :: "ReceiverConfig \<Rightarrow> u32 \<Rightarrow> (u32 \<times> (u8 \<times> instant)) list \<Rightarrow> XferSeq \<Rightarrow> bool" where
  "hopeless cfg lost_below nacks s \<longleftrightarrow> s \<le> lost_below \<or> unat (max_nack_attempts cfg) \<le> attempts nacks s"

text \<open>
  A gap never asked for counts as asked an hour ago; after that the wait doubles per attempt as
  \<open>nack_delay\<close> says.
\<close>

definition due :: "ReceiverConfig \<Rightarrow> instant \<Rightarrow> (u32 \<times> (u8 \<times> instant)) list \<Rightarrow> XferSeq \<Rightarrow> bool" where
  "due cfg now nacks s \<longleftrightarrow> (case map_of nacks s of
     None \<Rightarrow> nack_delay cfg 0 \<le> from_secs 3600
   | Some (count, asked_at) \<Rightarrow> nack_delay cfg count \<le> duration_since now asked_at)"

lemma other_gap:
  assumes "t \<noteq> s"
  shows "hopeless cfg lb (bmap_insert s e nacks) t = hopeless cfg lb nacks t"
    and "due cfg now (bmap_insert s e nacks) t = due cfg now nacks t"
  using assms by (simp_all add: hopeless_def due_def attempts_def)

lemma nack_loop_is_spec:
  assumes "distinct miss"
  shows "snd (nack_loop cfg lb now miss nacks ask) =
      (ask @ filter (due cfg now nacks) miss, False) \<and> \<not> list_ex (hopeless cfg lb nacks) miss
    \<or> snd (snd (nack_loop cfg lb now miss nacks ask)) \<and> list_ex (hopeless cfg lb nacks) miss"
  using assms
proof (induction miss arbitrary: nacks ask)
  case (Cons s miss)
  let ?e = "nack_entry now nacks s" and ?n1 = "nack_noted now nacks s"
  have hopeless: "hopeless cfg lb nacks s \<longleftrightarrow> s \<le> lb \<or> fst ?e \<ge> max_nack_attempts cfg"
    by (simp add: hopeless_def word_le_nat_alt nack_entry_count)
  have due: "due cfg now nacks s \<longleftrightarrow> duration_since now (snd ?e) \<ge> nack_delay cfg (fst ?e)"
    by (auto simp: due_def nack_entry_def duration_since_def split: option.splits)
  have rest: "hopeless cfg lb (bmap_insert s e ?n1) t = hopeless cfg lb nacks t"
    "hopeless cfg lb ?n1 t = hopeless cfg lb nacks t"
    "due cfg now (bmap_insert s e ?n1) t = due cfg now nacks t" "due cfg now ?n1 t = due cfg now nacks t"
    if "t \<in> set miss" for t e
  proof -
    have "t \<noteq> s" using that Cons.prems by auto
    then show "hopeless cfg lb (bmap_insert s e ?n1) t = hopeless cfg lb nacks t"
      "hopeless cfg lb ?n1 t = hopeless cfg lb nacks t"
      "due cfg now (bmap_insert s e ?n1) t = due cfg now nacks t" "due cfg now ?n1 t = due cfg now nacks t"
      by (simp_all add: other_gap nack_noted_def split: option.splits)
  qed
  have same: "list_ex (hopeless cfg lb (bmap_insert s e ?n1)) miss = list_ex (hopeless cfg lb nacks) miss"
    "list_ex (hopeless cfg lb ?n1) miss = list_ex (hopeless cfg lb nacks) miss"
    "filter (due cfg now (bmap_insert s e ?n1)) miss = filter (due cfg now nacks) miss"
    "filter (due cfg now ?n1) miss = filter (due cfg now nacks) miss" for e
    by (rule list_ex_cong [OF refl] filter_cong [OF refl], erule rest)+
  show ?case
    using Cons.IH [of "bmap_insert s (fst ?e + 1, now) ?n1" "ask @ [s]"] Cons.IH [of ?n1 ask] Cons.prems
    unfolding nack_loop_turn same by (simp add: hopeless due)
qed simp

lemma nack_loop_exhausted:
  assumes "s \<in> set miss" and "attempts nacks s \<ge> unat (max_nack_attempts cfg)"
    and "nack_loop cfg lb now miss nacks ask = (nacks', ask', ex)" and "distinct miss"
  shows ex
proof -
  have "list_ex (hopeless cfg lb nacks) miss" using assms(1,2) by (auto simp: list_ex_iff hopeless_def)
  then show ?thesis using nack_loop_is_spec [OF assms(4), of cfg lb now nacks ask] assms(3) by auto
qed

text \<open>Rules that evaluate the methods on concrete inputs.\<close>

lemmas rx_eval = andthen_def recv_handle_def on_body_def on_data_def XferReceiver_new_def audio_engine_def
  GapTracker_new_def gt_record_def advance.simps window_span_def sat_sub_def bset_remove_def
  bmap_remove_def release_contiguous_def release_loop.simps check_finish_def ack_end_def
  is_complete_def finish_rel_def abandon_def maybe_ack_def duration_since_def from_millis_def
  from_secs_def

lemma released_iff_arrived:
  assumes "rx_rel_state (final recv_step (XferReceiver_new cfg t0) is) = R_Streaming"
  shows "unat n \<le> length (reliable_frames (trace recv_step (XferReceiver_new cfg t0) is))
    \<longleftrightarrow> {1..n} \<subseteq> data_seqs is"
proof -
  let ?rx = "final recv_step (XferReceiver_new cfg t0) is"
  have inv: "settled_inv (got is) (declared is) (trace recv_step (XferReceiver_new cfg t0) is) ?rx"
    by (rule rel.holds)
  then have gt: "gt_invar (rx_gaps ?rx)" and rel: "rx_rel_released ?rx = gt_contiguous (rx_gaps ?rx)"
    using assms by (simp_all add: settled_inv_def streaming_inv_def)
  have "arrived (rx_gaps ?rx) = data_seqs is" using arrivals.holds [of cfg t0 "is"] assms by simp
  moreover have "s \<noteq> 0 \<and> s \<le> n \<longleftrightarrow> s \<in> {1..n}" for s :: u32
    by (auto simp: word_le_nat_alt Suc_le_eq unat_gt_0)
  ultimately have "n \<le> gt_contiguous (rx_gaps ?rx) \<longleftrightarrow> {1..n} \<subseteq> data_seqs is"
    using gt.prefix_le_iff [OF gt, of n] by auto
  then show ?thesis
    using length_in_order [OF settled_shape(2) [OF inv]] rel by (simp add: word_le_nat_alt)
qed

end
