(* ===== verification/Pf4_Receiver_Props.thy ===== *)
theory Pf4_Receiver_Props
  imports Pf4_Receiver_Output
begin

text \<open>
  The properties of the receiving state machine, over every sequence of calls from a new receiver,
  and the behaviours of it that differ from its documentation.
\<close>

section \<open>Properties\<close>

text \<open>
  C3: the reliable output of a receiver, over any sequence of packets, duplicates, losses,
  reorderings and ticks, is a run of frames numbered 1, 2, 3, \<dots> without gap or repetition, each
  of them byte for byte one that arrived under its number, followed by at most one outcome and
  nothing after the outcome.
\<close>

theorem reliable_stream_in_order:
  "rel_events (trace recv_step (XferReceiver_new cfg t0) is)
     = map Reliable (reliable_frames (trace recv_step (XferReceiver_new cfg t0) is))
       @ map RelFinished (outcomes (trace recv_step (XferReceiver_new cfg t0) is))
   \<and> length (outcomes (trace recv_step (XferReceiver_new cfg t0) is)) \<le> 1
   \<and> map (\<lambda>f. unat (fr_seq f)) (reliable_frames (trace recv_step (XferReceiver_new cfg t0) is))
       = map Suc [0..<length (reliable_frames (trace recv_step (XferReceiver_new cfg t0) is))]
   \<and> list_all (got is) (reliable_frames (trace recv_step (XferReceiver_new cfg t0) is))"
  using settled_shape(1-3) [OF rel.holds [of "is" cfg t0]] length_in_order [OF settled_shape(2) [OF rel.holds [of "is" cfg t0]]]
  by (auto simp: in_order_def list_all_iff split: if_splits)

text \<open>
  The outcome \<open>Complete\<close> is reported only for a length that an \<open>End\<close> packet declared, and only
  after every frame up to it has been released.
\<close>

lemma complete_means_everything:
  assumes "RelFinished (Complete n) \<in> set (trace recv_step (XferReceiver_new cfg t0) is)"
  shows "declared is n
    \<and> unat n \<le> length (reliable_frames (trace recv_step (XferReceiver_new cfg t0) is))"
proof -
  let ?es = "trace recv_step (XferReceiver_new cfg t0) is"
  have "Complete n \<in> set (outcomes ?es)" using assms by (force simp: outcomes_def)
  from settled_shape(4) [OF rel.holds this] show ?thesis
    using length_in_order [OF settled_shape(2) [OF rel.holds [of "is" cfg t0]]] by (simp add: word_le_nat_alt)
qed

definition short_transfer :: "RecvInput list" where
  "short_transfer = [Packet 2 (B_Data 20 [8]) 1, Packet 1 (B_Data 0 [7]) 2, Packet 1 (B_End 2) 3]"

lemma short_transfer_trace:
  "trace recv_step (XferReceiver_new audio_engine 0) short_transfer =
     [Unreliable \<lparr>fr_seq = 2, fr_ts = 20, fr_payload = [8]\<rparr>,
      Unreliable \<lparr>fr_seq = 1, fr_ts = 0, fr_payload = [7]\<rparr>,
      Reliable \<lparr>fr_seq = 1, fr_ts = 0, fr_payload = [7]\<rparr>,
      Reliable \<lparr>fr_seq = 2, fr_ts = 20, fr_payload = [8]\<rparr>,
      RelFinished (Complete 2), SendEndAck, Closed]"
  by (simp add: short_transfer_def rx_eval)

text \<open>
  C13: while the reliable stream is alive nothing is held back: the number of frames released
  reaches \<open>n\<close> exactly when payload packets with all numbers from 1 to \<open>n\<close> have arrived.
\<close>

theorem released_as_soon_as_contiguous:
  assumes "rx_rel_state (final recv_step (XferReceiver_new cfg t0) is) = R_Streaming"
  shows "unat n \<le> length (reliable_frames (trace recv_step (XferReceiver_new cfg t0) is))
    \<longleftrightarrow> {1..n} \<subseteq> data_seqs is"
  by (rule released_iff_arrived [OF assms])

theorem released_as_soon_as_contiguous_witness:
  "unat (1 :: u32) \<le> length (reliable_frames (trace recv_step (XferReceiver_new audio_engine 0)
       [Packet 1 (B_Data 0 [7]) 1]))
   \<longleftrightarrow> {1..1} \<subseteq> data_seqs [Packet 1 (B_Data 0 [7]) 1]"
  by (rule released_as_soon_as_contiguous) (simp add: rx_eval)

text \<open>
  C15: the reorder buffer never holds more frames than the configured window nor more payload
  bytes than the configured budget, and its byte counter is exact.
\<close>

theorem reorder_memory_bounded:
  "length (rx_reorder (final recv_step (XferReceiver_new cfg t0) is)) \<le> unat (reorder_window cfg)
   \<and> frame_weight (rx_reorder (final recv_step (XferReceiver_new cfg t0) is)) \<le> max_reorder_bytes cfg
   \<and> rx_reorder_bytes (final recv_step (XferReceiver_new cfg t0) is)
       = frame_weight (rx_reorder (final recv_step (XferReceiver_new cfg t0) is))"
proof -
  let ?rx = "final recv_step (XferReceiver_new cfg t0) is"
  have inv: "settled_inv (got is) (declared is) (trace recv_step (XferReceiver_new cfg t0) is) ?rx"
    by (rule rel.holds)
  then have "rx_reorder_bytes ?rx = frame_weight (rx_reorder ?rx)"
    by (auto simp: settled_inv_def streaming_inv_def finished_inv_def frame_weight_def split: if_splits)
  then show ?thesis using reorder_bounded [OF inv] cfg_const.holds [of cfg t0 "is"] by simp
qed

text \<open>
  A closed receiver has reported exactly one outcome: a consumer of the reliable stream is
  never left without one.
\<close>

lemma closed_reports_one_outcome:
  assumes "rx_closed (final recv_step (XferReceiver_new cfg t0) is)"
  shows "length (outcomes (trace recv_step (XferReceiver_new cfg t0) is)) = 1"
proof -
  have "rx_rel_state (final recv_step (XferReceiver_new cfg t0) is) \<noteq> R_Streaming"
    using rel.holds [of "is" cfg t0] assms by (auto simp: settled_inv_def streaming_inv_def)
  then show ?thesis using settled_shape(3) [OF rel.holds [of "is" cfg t0]] by simp
qed

text \<open>
  C19: silence ends a transfer: from every reachable state, the first tick more than
  \<open>idle_timeout\<close> after the last packet leaves the receiver closed with exactly one outcome.
\<close>

theorem silence_closes:
  assumes "duration_since now (rx_last_packet_at (final recv_step (XferReceiver_new cfg t0) is)) > idle_timeout cfg"
  shows "rx_closed (final recv_step (XferReceiver_new cfg t0) (is @ [RTick now]))
    \<and> length (outcomes (trace recv_step (XferReceiver_new cfg t0) (is @ [RTick now]))) = 1"
proof -
  let ?rx = "final recv_step (XferReceiver_new cfg t0) is"
  have cfg: "rx_cfg ?rx = cfg" using cfg_const.holds [of cfg t0 "is"] .
  have closed: "rx_closed (final recv_step (XferReceiver_new cfg t0) (is @ [RTick now]))"
  proof (cases "rx_closed ?rx")
    case True
    then show ?thesis by (simp add: final_snoc recv_tick_def)
  next
    case False
    then show ?thesis using idle_tick [OF False, of now] assms cfg by (simp add: final_snoc)
  qed
  then have "rx_rel_state (final recv_step (XferReceiver_new cfg t0) (is @ [RTick now])) \<noteq> R_Streaming"
    using rel.holds [of "is @ [RTick now]" cfg t0] by (auto simp: settled_inv_def streaming_inv_def)
  then show ?thesis using closed settled_shape(3) [OF rel.holds [of "is @ [RTick now]" cfg t0]] by simp
qed

theorem silence_closes_witness:
  "rx_closed (final recv_step (XferReceiver_new audio_engine 0) ([] @ [RTick (16 * 1000000000)]))
   \<and> length (outcomes (trace recv_step (XferReceiver_new audio_engine 0) ([] @ [RTick (16 * 1000000000)]))) = 1"
  by (rule silence_closes)
    (simp add: XferReceiver_new_def audio_engine_def duration_since_def from_secs_def)

text \<open>
  C24: no sequence number is ever asked for more often than \<open>max_nack_attempts\<close>, over the whole
  life of a receiver.
\<close>

theorem nack_budget_respected:
  "count_list (nacked (trace recv_step (XferReceiver_new cfg t0) is)) s \<le> unat (max_nack_attempts cfg)"
  using budget.holds [of cfg t0 "is"] cfg_const.holds [of cfg t0 "is"] by (simp add: nack_inv_def)

text \<open>
  Every \<open>Nack\<close> the receiver emits is non-empty, names no number twice and never zero, and is
  short enough that the codec encodes it.
\<close>

lemma nacks_are_encodable:
  "list_all (\<lambda>m. m \<noteq> [] \<and> distinct m \<and> 0 \<notin> set m \<and> is_ok (encode_body (B_Nack m)))
     (nack_lists (trace recv_step (XferReceiver_new cfg t0) is))"
  using nack_shape.holds [of cfg t0 "is"]
  by (auto simp: nacks_ok_def nack_ok_def list_all_iff)

text \<open>
  C27: in dual mode, while the reliable stream is alive, every payload number received is played
  exactly once, and in reliable-only mode nothing is ever played.
\<close>

theorem playback_exactly_once:
  "(mode cfg = RelOnly \<longrightarrow> played (trace recv_step (XferReceiver_new cfg t0) is) = [])
   \<and> (mode cfg = Dual \<and> rx_rel_state (final recv_step (XferReceiver_new cfg t0) is) = R_Streaming \<longrightarrow>
        distinct (map fr_seq (played (trace recv_step (XferReceiver_new cfg t0) is)))
        \<and> fr_seq ` set (played (trace recv_step (XferReceiver_new cfg t0) is)) = data_seqs is)"
  using arrivals.holds [of cfg t0 "is"] cfg_const.holds [of cfg t0 "is"]
  by (auto simp: play_inv_def wants_unrel_iff)

theorem playback_exactly_once_witness:
  "played (trace recv_step (XferReceiver_new cache_worker 0) [Packet 1 (B_Data 0 [7]) 1]) = []
   \<and> fr_seq ` set (played (trace recv_step (XferReceiver_new audio_engine 0) [Packet 1 (B_Data 0 [7]) 1]))
       = data_seqs [Packet 1 (B_Data 0 [7]) 1]"
proof -
  have "rx_rel_state (final recv_step (XferReceiver_new audio_engine 0) [Packet 1 (B_Data 0 [7]) 1]) = R_Streaming"
    by (simp add: rx_eval)
  then show ?thesis
    using playback_exactly_once [of cache_worker 0 "[Packet 1 (B_Data 0 [7]) 1]"]
      playback_exactly_once [of audio_engine 0 "[Packet 1 (B_Data 0 [7]) 1]"]
    by (simp add: cache_worker_def audio_engine_def)
qed

text \<open>
  Once the reliable stream has been aborted the tracker has forgotten the arrivals above its
  prefix, so a retransmitted copy of a frame that was already played is played again.
\<close>

lemma duplicate_played_after_abort:
  "map fr_seq (played (trace recv_step (XferReceiver_new audio_engine 0)
     [Packet 2 (B_Data 20 [8]) 1, Packet 1 (B_Keepalive 1) 2, Packet 2 (B_Data 20 [8]) 3])) = [2, 2]"
  by (simp add: rx_eval)

text \<open>
  When everything up to \<open>n\<close> has been released, an \<open>End\<close> that declares \<open>n\<close> is answered at once:
  the outcome \<open>Complete\<close>, the acknowledgement of the end, and the receiver closes.
\<close>

lemma end_completes:
  assumes "rx_rel_state (final recv_step (XferReceiver_new cfg t0) is) = R_Streaming"
    and "unat n \<le> length (reliable_frames (trace recv_step (XferReceiver_new cfg t0) is))"
  shows "snd (recv_step (final recv_step (XferReceiver_new cfg t0) is) (Packet s (B_End n) now))
    = [RelFinished (Complete n), SendEndAck, Closed]"
proof -
  let ?rx = "final recv_step (XferReceiver_new cfg t0) is"
  have inv: "settled_inv (got is) (declared is) (trace recv_step (XferReceiver_new cfg t0) is) ?rx"
    by (rule rel.holds)
  then have rel: "rx_rel_released ?rx = gt_contiguous (rx_gaps ?rx)" "\<not> rx_end_acked ?rx" "\<not> rx_closed ?rx"
    using assms(1) by (simp_all add: settled_inv_def streaming_inv_def)
  then have le: "n \<le> gt_contiguous (rx_gaps ?rx)"
    using assms(2) length_in_order [OF settled_shape(2) [OF inv]] by (simp add: word_le_nat_alt)
  have loop: "release_loop c r = (r, [])" if "\<not> rx_rel_released r < c" for c r
    using that by (simp add: release_loop.simps)
  show ?thesis using assms(1) rel le
    by (simp add: recv_handle_def on_body_def check_finish_def is_complete_def release_contiguous_def
        loop finish_rel_streaming ack_end_def maybe_ack_def)
qed

text \<open>
  A lost tail is never asked for: when no arrival lies above the prefix no tick emits a
  \<open>Nack\<close>, although the declared end is further ahead.
\<close>

lemma lost_tail_never_nacked:
  assumes "gt_ahead (rx_gaps rx) = []" and "rx_final_seq rx = Some n"
    and "gt_contiguous (rx_gaps rx) < n"
  shows "nack_lists (snd (recv_tick rx now)) = []"
  using assms(1)
  by (auto simp: recv_tick_def emit_nacks_def missing_no_ahead maybe_ack_eq finish_rel_def)

lemma lost_tail_never_nacked_instance:
  "nack_lists (snd (recv_tick (final recv_step (XferReceiver_new audio_engine 0)
     [Packet 1 (B_Data 0 [7]) 1, Packet 1 (B_End 3) 2]) 1000000000)) = []"
  by (rule lost_tail_never_nacked [where n = 3]) (simp_all add: rx_eval)

text \<open>
  The last permitted request gets no time to be answered: once a gap has been asked for
  \<open>max_nack_attempts\<close> times, the next tick gives the reliable stream up, however soon it comes.
\<close>

lemma last_nack_not_awaited:
  assumes "gt_invar (rx_gaps rx)" and "rx_rel_state rx = R_Streaming" and "\<not> rx_closed rx"
    and "s \<in> set (missing (rx_gaps rx) MAX_NACK_ENTRIES)"
    and "attempts (rx_nacks rx) s \<ge> unat (max_nack_attempts (rx_cfg rx))"
    and "duration_since now (rx_last_packet_at rx) \<le> idle_timeout (rx_cfg rx)"
    and "duration_since now (rx_last_rel_progress_at rx) \<le> rel_stall_timeout (rx_cfg rx)"
  shows "RelFinished (Aborted UnrecoverableGap) \<in> set (snd (recv_tick rx now))"
proof -
  let ?miss = "missing (rx_gaps rx) MAX_NACK_ENTRIES"
  obtain ns ask ex where loop:
    "nack_loop (rx_cfg rx) (rx_sender_lost_below rx) now ?miss (rx_nacks rx) [] = (ns, ask, ex)"
    by (metis prod_cases3)
  have ex using nack_loop_exhausted [OF assms(4,5) loop distinct_missing [OF assms(1)]] .
  moreover have "?miss \<noteq> []" using assms(4) by auto
  ultimately show ?thesis using assms(2,3,6,7) loop
    by (simp add: recv_tick_def emit_nacks_def finish_rel_streaming)
qed

definition three_requests :: "RecvInput list" where
  "three_requests = [Packet 2 (B_Data 20 [8]) 0, RTick 1, RTick 100000001, RTick 400000001]"

definition slow_ack :: ReceiverConfig where
  "slow_ack = audio_engine\<lparr>ack_interval := 1000000000\<rparr>"

lemma last_nack_not_awaited_instance:
  "RelFinished (Aborted UnrecoverableGap) \<in> set (snd (recv_tick
     (final recv_step (XferReceiver_new slow_ack 0) three_requests) 400000002))"
proof -
  let ?rx = "final recv_step (XferReceiver_new slow_ack 0) three_requests"
  have [simp]: "\<not> (3 :: u8) \<le> 1" by (simp add: word_le_nat_alt)
  have rx: "rx_rel_state ?rx = R_Streaming" "rx_closed ?rx = False" "rx_gaps ?rx = \<lparr>gt_contiguous = 0, gt_ahead = [2], gt_highest = 2\<rparr>"
    "rx_nacks ?rx = [(1, (3, 400000001))]" "rx_last_packet_at ?rx = 0" "rx_last_rel_progress_at ?rx = 0"
    "rx_cfg ?rx = slow_ack"
    by (simp_all add: three_requests_def slow_ack_def rx_eval recv_tick_def emit_nacks_def missing_def missing_fill.simps
        MAX_NACK_ENTRIES_def nack_delay_def Let_def)
  show ?thesis
    by (rule last_nack_not_awaited [where s = 1], unfold rx)
      (simp_all add: gt_invar_def bset_invar_def attempts_def missing_def missing_fill.simps
        MAX_NACK_ENTRIES_def slow_ack_def audio_engine_def duration_since_def from_secs_def)
qed

end
