(* ===== verification/Pf4_Rel_Spec.thy ===== *)
theory Pf4_Rel_Spec
  imports Pf4_Receiver_Props
begin

text \<open>
  The reliable stream, specified without trackers, byte counters or timers: a stream is alive with
  \<open>n\<close> frames delivered, a set of early frames and perhaps a declared length, or it is over.  Every
  new frame is taken in and everything that has become deliverable goes out at once; a stream that
  has reached its declared length is reported complete at once; giving up is always for one of the
  reasons the input allows.  The receiver is shown to refine this specification.
\<close>

datatype rel_spec = Live nat "Frame set" "XferSeq option" | Over

definition frame_no :: "Frame \<Rightarrow> nat" where
  "frame_no f = unat (fr_seq f)"

text \<open>Deliver while the next frame is at hand.\<close>

inductive drain :: "nat \<Rightarrow> Frame set \<Rightarrow> Frame list \<Rightarrow> nat \<Rightarrow> Frame set \<Rightarrow> bool" where
  drain_stop: "\<forall>f \<in> P. frame_no f \<noteq> Suc n \<Longrightarrow> drain n P [] n P"
| drain_next: "f \<in> P \<Longrightarrow> frame_no f = Suc n \<Longrightarrow> drain (Suc n) (P - {f}) fs m Q \<Longrightarrow> drain n P (f # fs) m Q"

text \<open>Report completion as soon as the declared length has been delivered.\<close>

fun settle :: "nat \<Rightarrow> Frame set \<Rightarrow> XferSeq option \<Rightarrow> rel_spec \<times> RecvEvent list" where
  "settle n P None = (Live n P None, [])"
| "settle n P (Some k) = (if unat k \<le> n then (Over, [RelFinished (Complete k)]) else (Live n P (Some k), []))"

definition already :: "nat \<Rightarrow> Frame set \<Rightarrow> XferSeq \<Rightarrow> bool" where
  "already n P s \<longleftrightarrow> unat s \<le> n \<or> s \<in> fr_seq ` P"

fun carries_frame :: "RecvInput \<Rightarrow> bool" where
  "carries_frame (Packet s (B_Data ts p) now) = True"
| "carries_frame _ = False"

fun carries_notice :: "RecvInput \<Rightarrow> bool" where
  "carries_notice (Packet s (B_End k) now) = True"
| "carries_notice (Packet s (B_Keepalive lb) now) = True"
| "carries_notice _ = False"

fun may_give_up :: "RecvInput \<Rightarrow> RelAbortReason \<Rightarrow> bool" where
  "may_give_up (Packet s (B_Data ts p) now) r \<longleftrightarrow> r = BufferExhausted"
| "may_give_up (Packet s (B_Keepalive lb) now) r \<longleftrightarrow> r = SenderDiscarded"
| "may_give_up (RTick now) r \<longleftrightarrow> r = PeerGone \<or> r = Stalled \<or> r = UnrecoverableGap"
| "may_give_up _ r \<longleftrightarrow> False"

inductive rel_step :: "rel_spec \<Rightarrow> RecvInput \<Rightarrow> RecvEvent list \<Rightarrow> rel_spec \<Rightarrow> bool" where
  new_frame: "\<not> already n P s \<Longrightarrow> drain n (insert \<lparr>fr_seq = s, fr_ts = ts, fr_payload = p\<rparr> P) fs m Q
    \<Longrightarrow> settle m Q D = (q, es) \<Longrightarrow> rel_step (Live n P D) (Packet s (B_Data ts p) now) (map Reliable fs @ es) q"
| old_frame: "already n P s \<Longrightarrow> rel_step (Live n P D) (Packet s (B_Data ts p) now) [] (Live n P D)"
| end_notice: "settle n P (Some k) = (q, es) \<Longrightarrow> rel_step (Live n P D) (Packet s (B_End k) now) es q"
| keepalive: "settle n P D = (q, es) \<Longrightarrow> rel_step (Live n P D) (Packet s (B_Keepalive lb) now) es q"
| no_progress: "\<not> carries_frame i \<Longrightarrow> \<not> carries_notice i \<Longrightarrow> rel_step (Live n P D) i [] (Live n P D)"
| give_up: "may_give_up i r \<Longrightarrow> rel_step (Live n P D) i [RelFinished (Aborted r)] Over"
| over: "rel_step Over i [] Over"

inductive_cases over_cases [elim!]: "rel_step Over i es q"
inductive_cases live_cases: "rel_step (Live n P D) i es q"

section \<open>What the specification says\<close>

lemma drain_count: "drain n P fs m Q \<Longrightarrow> m = n + length fs \<and> map frame_no fs = map Suc [n..<m]
    \<and> set fs \<subseteq> P \<and> Q = P - set fs \<and> (\<forall>f \<in> Q. frame_no f \<noteq> Suc m)"
proof (induction rule: drain.induct)
  case (drain_next f P n fs m Q)
  then show ?case by (auto simp: upt_rec [of n])
qed simp

text \<open>
  What every run of the specification has put out: the frames numbered from 1, and at most one
  outcome, last; while it is alive, nothing deliverable is held back and the declared length, if
  any, has not been reached.
\<close>

definition spec_shape :: "RecvEvent list \<Rightarrow> rel_spec \<Rightarrow> bool" where
  "spec_shape es q \<longleftrightarrow> (case q of
     Live n P D \<Rightarrow> (\<exists>fs. es = map Reliable fs \<and> map frame_no fs = map Suc [0..<n])
       \<and> (\<forall>f \<in> P. Suc n < frame_no f) \<and> inj_on fr_seq P \<and> (\<forall>k. D = Some k \<longrightarrow> n < unat k)
   | Over \<Rightarrow> \<exists>fs o'. es = map Reliable fs @ [RelFinished o'] \<and> map frame_no fs = map Suc [0..<length fs]
       \<and> (\<forall>k. o' = Complete k \<longrightarrow> unat k \<le> length fs))"

lemma settle_shape:
  assumes "settle n P D = (q, gs)" and "es = map Reliable fs" and "map frame_no fs = map Suc [0..<n]"
    and "\<forall>f \<in> P. Suc n < frame_no f" and "inj_on fr_seq P"
  shows "spec_shape (es @ gs) q"
proof -
  have "length fs = n" using arg_cong [OF assms(3), of length] by simp
  then show ?thesis using assms by (cases D) (auto simp: spec_shape_def split: if_splits)
qed

lemma spec_step_shape:
  assumes "rel_step q i gs q'" and "spec_shape es q"
  shows "spec_shape (es @ gs) q'"
  using assms
proof (induction rule: rel_step.induct)
  case (new_frame n P s ts p fs m Q D q gs now)
  let ?f = "\<lparr>fr_seq = s, fr_ts = ts, fr_payload = p\<rparr>"
  obtain hs where hs: "es = map Reliable hs" "map frame_no hs = map Suc [0..<n]" and P: "\<forall>f \<in> P. Suc n < frame_no f" "inj_on fr_seq P"
    using new_frame.prems by (auto simp: spec_shape_def)
  have d: "m = n + length fs" "map frame_no fs = map Suc [n..<m]" "Q = insert ?f P - set fs" "\<forall>f \<in> Q. frame_no f \<noteq> Suc m"
    and sub: "set fs \<subseteq> insert ?f P" using drain_count [OF new_frame.hyps(2)] by auto
  have inj: "inj_on fr_seq (insert ?f P)" using P(2) new_frame.hyps(1) by (auto simp: already_def)
  have "Suc m < frame_no f" if "f \<in> Q" for f
  proof (rule ccontr)
    assume "\<not> Suc m < frame_no f"
    then have "frame_no f \<le> m" using d(4) that by (meson le_SucE not_less)
    moreover have "n < frame_no f" using that d(3) P(1) new_frame.hyps(1) by (auto simp: already_def frame_no_def not_le)
    ultimately have "frame_no f \<in> set (map frame_no fs)" unfolding d(2) by (auto simp: image_iff Suc_le_eq)
    then obtain g where "g \<in> set fs" "fr_seq g = fr_seq f" by (auto simp: frame_no_def word_unat_eq_iff)
    then have "g = f" using inj_onD [OF inj] sub that d(3) by blast
    then show False using that d(3) \<open>g \<in> set fs\<close> by auto
  qed
  moreover have "map Suc [0..<n] @ map Suc [n..<m] = map Suc [0..<m]"
    using upt_add_eq_append [of 0 n "length fs"] d(1) by (simp flip: map_append)
  ultimately have "spec_shape ((es @ map Reliable fs) @ gs) q"
    by (intro settle_shape [OF new_frame.hyps(3), where fs = "hs @ fs"]) (use hs d(2,3) inj_on_subset [OF inj] in \<open>auto\<close>)
  then show ?case by simp
next
  case (end_notice n P k q gs D s now)
  from end_notice.prems show ?case
    by (auto simp: spec_shape_def [of _ "Live n P D"] intro: settle_shape [OF end_notice.hyps])
next
  case (keepalive n P D q gs s lb now)
  from keepalive.prems show ?case
    by (auto simp: spec_shape_def [of _ "Live n P D"] intro: settle_shape [OF keepalive.hyps])
next
  case (give_up i r n P D)
  then obtain fs where "es = map Reliable fs" and no: "map frame_no fs = map Suc [0..<n]" by (auto simp: spec_shape_def)
  moreover from arg_cong [OF no, of length] have "length fs = n" by simp
  ultimately show ?case by (auto simp: spec_shape_def)
qed (simp_all add: spec_shape_def)

lemma runs_shape: "runs rel_step (Live 0 {} None) is es q \<Longrightarrow> spec_shape es q"
proof (induction rule: runs.induct)
  case runs_nil
  then show ?case by (simp add: spec_shape_def)
qed (rule spec_step_shape)

section \<open>The receiver refines it\<close>

definition rel_abs :: "XferReceiver \<Rightarrow> rel_spec" where
  "rel_abs rx =
     (if rx_rel_state rx = R_Streaming
      then Live (unat (rx_rel_released rx)) (snd ` set (rx_reorder rx)) (rx_final_seq rx) else Over)"

lemma rel_abs_finished: "rx_rel_state rx = R_Finished \<Longrightarrow> rel_abs rx = Over"
  by (simp add: rel_abs_def)

lemma rel_abs_irrelevant [simp]:
  "rel_abs (rx\<lparr>rx_last_packet_at := t\<rparr>) = rel_abs rx" "rel_abs (rx\<lparr>rx_buffered_ms := ms\<rparr>) = rel_abs rx"
  "rel_abs (rx\<lparr>rx_nacks := ns\<rparr>) = rel_abs rx" "rel_abs (rx\<lparr>rx_sender_lost_below := lb\<rparr>) = rel_abs rx"
  "rel_abs (fst (maybe_ack rx now)) = rel_abs rx"
  by (simp_all add: rel_abs_def)

lemma frames_remove:
  assumes "bmap_invar m" and "\<forall>e \<in> set m. fr_seq (snd e) = fst e" and "map_of m k = Some f"
  shows "snd ` set (bmap_remove k m) = snd ` set m - {f}"
proof -
  have "(k, f) \<in> set m" using assms(3) by (rule map_of_SomeD)
  moreover have "fst ` set (bmap_remove k m) = fst ` set m - {k}" "set (bmap_remove k m) \<subseteq> set m"
    using assms(1) by (auto simp: bmap.keys_rem bmap_remove_def)
  moreover have "e = e'" if "e \<in> set m" "e' \<in> set m" "fst e = fst e'" for e e'
    using bmap.distinct_keys [OF assms(1)] that by (metis eq_key_imp_eq_value prod.collapse)
  ultimately show ?thesis using assms(2) by (auto simp: image_iff bmap_remove_def) (metis fst_conv snd_conv)+
qed

lemma release_loop_drains:
  assumes "streaming_inv S es rx" and "c = gt_contiguous (rx_gaps rx)"
  shows "\<exists>fs. snd (release_loop c rx) = map Reliable fs
    \<and> drain (unat (rx_rel_released rx)) (snd ` set (rx_reorder rx)) fs
        (unat (rx_rel_released (fst (release_loop c rx)))) (snd ` set (rx_reorder (fst (release_loop c rx))))"
  using assms
proof (induction c rx arbitrary: es rule: release_loop.induct)
  case (1 c rx)
  note inv = "1.prems"(1)
  let ?n = "rx_rel_released rx" and ?m = "rx_reorder rx"
  show ?case
  proof (cases "?n < c")
    case False
    then have n: "?n = gt_contiguous (rx_gaps rx)" using 1 by (simp add: streaming_inv_def)
    have "frame_no f \<noteq> Suc (unat ?n)" if "f \<in> snd ` set ?m" for f
    proof -
      from that obtain e where "e \<in> set ?m" "f = snd e" by blast
      then have "fr_seq f \<in> arrived (rx_gaps rx)" "?n < fr_seq f" and gt: "gt_invar (rx_gaps rx)"
        using inv by (auto simp: streaming_inv_def)
      then have "fr_seq f \<in> set (gt_ahead (rx_gaps rx))" using n by (auto simp: arrived_def)
      then show ?thesis using gt n by (auto simp: gt_invar_def frame_no_def)
    qed
    then show ?thesis using False by (subst (1 2 3) release_loop.simps) (auto intro: drain_stop)
  next
    case True
    with 1 release_turn obtain f where f: "map_of ?m (?n + 1) = Some f"
      and inv': "streaming_inv S (es @ [Reliable f])
      (rx\<lparr>rx_reorder := bmap_remove (?n + 1) ?m, rx_reorder_bytes := rx_reorder_bytes rx - length (fr_payload f),
          rx_rel_released := ?n + 1, rx_nacks := bmap_remove (?n + 1) (rx_nacks rx)\<rparr>)" by blast
    let ?rx = "rx\<lparr>rx_reorder := bmap_remove (?n + 1) ?m,
      rx_reorder_bytes := rx_reorder_bytes rx - length (fr_payload f),
      rx_rel_released := ?n + 1, rx_nacks := bmap_remove (?n + 1) (rx_nacks rx)\<rparr>"
    have mem: "(?n + 1, f) \<in> set ?m" using f by (rule map_of_SomeD)
    have keyed: "bmap_invar ?m" "\<forall>e \<in> set ?m. fr_seq (snd e) = fst e" using inv by (simp_all add: streaming_inv_def)
    have suc: "unat (?n + 1) = Suc (unat ?n)" by (rule unat_succ_less [OF True])
    then have no: "frame_no f = Suc (unat ?n)" "f \<in> snd ` set ?m" using keyed mem by (force simp: frame_no_def)+
    from "1.IH" [OF True refl f refl, unfolded fst_conv, OF inv'] "1.prems"(2) obtain fs where
      "snd (release_loop c ?rx) = map Reliable fs" and
      "drain (unat (?n + 1)) (snd ` set (bmap_remove (?n + 1) ?m)) fs
        (unat (rx_rel_released (fst (release_loop c ?rx)))) (snd ` set (rx_reorder (fst (release_loop c ?rx))))"
      by auto
    moreover have "release_loop c rx = andthen (?rx, [Reliable f]) (release_loop c)"
      using True f by (subst release_loop.simps) (simp add: Let_def)
    ultimately show ?thesis using drain_next [OF no(2,1)] suc frames_remove [OF keyed f]
      by (intro exI [of _ "f # fs"]) simp
  qed
qed

abbreviation settled :: "RecvEvent list \<Rightarrow> XferReceiver \<Rightarrow> bool" where
  "settled \<equiv> settled_inv (\<lambda>f. True) (\<lambda>n. True)"

lemma settled_reach: "settled (trace recv_step (XferReceiver_new cfg t0) is) (final recv_step (XferReceiver_new cfg t0) is)"
  by (rule settled_mono [OF rel.holds [of "is" cfg t0]]) simp_all

lemma settled_next: "settled es rx \<Longrightarrow> settled (es @ snd (recv_step rx i)) (fst (recv_step rx i))"
  using recv_handle_inv [of "\<lambda>f. True" "\<lambda>n. True" es rx] recv_tick_inv [of "\<lambda>f. True" "\<lambda>n. True" es rx]
  by (cases i) (simp_all add: after_def set_buffered_ms_def)

lemma no_outcome: "map Reliable fs @ RelFinished o' # es \<noteq> map Reliable gs"
proof
  assume "map Reliable fs @ RelFinished o' # es = map Reliable gs"
  then have "RelFinished o' \<in> set (map Reliable gs)" by (metis in_set_conv_decomp)
  then show False by auto
qed

lemma over_stays:
  assumes "settled es rx" and "rx_rel_state rx = R_Finished"
  shows "rel_step (rel_abs rx) i (rel_events (snd (recv_step rx i))) (rel_abs (fst (recv_step rx i)))"
proof -
  let ?es = "snd (recv_step rx i)" and ?rx = "fst (recv_step rx i)"
  obtain fs o' where es: "rel_events es = map Reliable fs @ [RelFinished o']"
    using assms by (auto simp: settled_inv_def finished_inv_def)
  from settled_next [OF assms(1), of i] have inv: "settled (es @ ?es) ?rx" .
  have fin: "rx_rel_state ?rx = R_Finished"
  proof (cases "rx_rel_state ?rx")
    case R_Streaming
    then obtain gs where "rel_events (es @ ?es) = map Reliable gs"
      using inv by (auto simp: settled_inv_def streaming_inv_def)
    then show ?thesis using es no_outcome [of fs o' "rel_events ?es" gs] by simp
  qed
  then obtain gs o'' where "rel_events (es @ ?es) = map Reliable gs @ [RelFinished o'']"
    using inv by (auto simp: settled_inv_def finished_inv_def)
  then have "rel_events ?es = []"
    using es no_outcome [of fs o' _ gs] by (cases "rel_events ?es" rule: rev_cases) auto
  then show ?thesis using fin assms(2) by (simp add: rel_abs_finished over)
qed

lemma check_finish_settles:
  assumes "settled es rx" and "rx_rel_state rx = R_Streaming"
  shows "settle (unat (rx_rel_released rx)) (snd ` set (rx_reorder rx)) (rx_final_seq rx)
    = (rel_abs (fst (check_finish rx now)), rel_events (snd (check_finish rx now)))"
proof (cases "rx_final_seq rx")
  case None
  then show ?thesis using assms(2) by (simp add: check_finish_def rel_abs_def)
next
  case (Some k)
  have rel: "rx_rel_released rx = gt_contiguous (rx_gaps rx)" and un: "\<not> rx_end_acked rx"
    using assms by (simp_all add: settled_inv_def streaming_inv_def)
  have ack: "rel_abs (fst (ack_end r n)) = rel_abs r" "rel_events (snd (ack_end r n)) = []" for r n
    by (simp_all add: ack_end_def rel_abs_def)
  have "release_loop (gt_contiguous (rx_gaps rx)) rx = (rx, [])"
    using rel by (subst release_loop.simps) simp
  then have "release_contiguous rx now = (rx, [])" by (simp add: release_contiguous_def)
  then show ?thesis
    using Some assms(2) rel un ack
    by (auto simp: check_finish_def is_complete_def finish_rel_streaming rel_abs_def word_le_nat_alt)
qed

lemma release_contiguous_drains:
  assumes "streaming_inv S es rx"
  shows "\<exists>fs. snd (release_contiguous rx now) = map Reliable fs
    \<and> drain (unat (rx_rel_released rx)) (snd ` set (rx_reorder rx)) fs
        (unat (rx_rel_released (fst (release_contiguous rx now)))) (snd ` set (rx_reorder (fst (release_contiguous rx now))))"
  using release_loop_drains [OF assms refl] by (auto simp: release_contiguous_def Let_def split_beta)

lemma frames_insert:
  assumes "bmap_invar m" and "k \<notin> fst ` set m"
  shows "snd ` set (bmap_insert k f m) = insert f (snd ` set m)"
proof -
  have "map_of m k = None" using assms(2) by (simp add: map_of_eq_None_iff)
  then have "set (bmap_insert k f m) = insert (k, f) (set m)"
    using bmap.items_graph [OF bmap.invar_ins [OF assms(1)], of k f] bmap.items_graph [OF assms(1)]
    by (auto split: if_splits)
  then show ?thesis by simp
qed

lemma known_iff:
  assumes "settled es rx" and "rx_rel_state rx = R_Streaming"
  shows "already (unat (rx_rel_released rx)) (snd ` set (rx_reorder rx)) s \<longleftrightarrow> s = 0 \<or> s \<in> arrived (rx_gaps rx)"
proof -
  have rel: "rx_rel_released rx = gt_contiguous (rx_gaps rx)"
    and keys: "fst ` set (rx_reorder rx) = {s \<in> arrived (rx_gaps rx). rx_rel_released rx < s}"
    and vals: "\<forall>e \<in> set (rx_reorder rx). fr_seq (snd e) = fst e"
    using assms by (simp_all add: settled_inv_def streaming_inv_def)
  have "fr_seq ` snd ` set (rx_reorder rx) = fst ` set (rx_reorder rx)"
    using vals by (auto simp: image_image intro!: image_cong)
  then show ?thesis unfolding already_def keys rel
    using prefix_arrived [of s "rx_gaps rx"] by (auto simp: word_le_nat_alt word_less_nat_alt not_le unat_eq_0 [symmetric])
qed

lemma on_data_admits:
  fixes rx f g now
  defines "rx' \<equiv> rx\<lparr>rx_gaps := g, rx_reorder_bytes := rx_reorder_bytes rx + length (fr_payload f),
     rx_reorder := bmap_insert (fr_seq f) f (rx_reorder rx)\<rparr>"
  assumes inv: "settled es rx" and str: "rx_rel_state rx = R_Streaming"
    and new: "fr_seq f \<noteq> 0" "fr_seq f \<notin> arrived (rx_gaps rx)" and rec: "gt_record (rx_gaps rx) (fr_seq f) = (g, True)"
    and room: "window_span g \<le> reorder_window (rx_cfg rx)"
      "rx_reorder_bytes rx + length (fr_payload f) \<le> max_reorder_bytes (rx_cfg rx)"
  shows "rel_step (rel_abs rx) (Packet (fr_seq f) (B_Data (fr_ts f) (fr_payload f)) now)
    (rel_events (snd (andthen (release_contiguous rx' now) (\<lambda>r. check_finish r now))))
    (rel_abs (fst (andthen (release_contiguous rx' now) (\<lambda>r. check_finish r now))))"
proof -
  let ?r = "release_contiguous rx' now"
  have sinv: "streaming_inv (\<lambda>f. True) es rx'"
    unfolding rx'_def using streaming_admit [OF inv str, of f g] rec room new by simp
  then have "settled (es @ snd ?r) (fst ?r)"
    using release_contiguous_inv [OF sinv, of now] str by (simp add: rx'_def settled_inv_def after_def)
  from check_finish_settles [OF this] str
  have fin: "settle (unat (rx_rel_released (fst ?r))) (snd ` set (rx_reorder (fst ?r))) (rx_final_seq rx)
    = (rel_abs (fst (check_finish (fst ?r) now)), rel_events (snd (check_finish (fst ?r) now)))" by (simp add: rx'_def)
  obtain fs where fs: "snd ?r = map Reliable fs" "drain (unat (rx_rel_released rx)) (snd ` set (rx_reorder rx')) fs
      (unat (rx_rel_released (fst ?r))) (snd ` set (rx_reorder (fst ?r)))"
    using release_contiguous_drains [OF sinv, of now] by (auto simp: rx'_def)
  have "fr_seq f \<notin> fst ` set (rx_reorder rx)" "bmap_invar (rx_reorder rx)"
    using inv str new by (simp_all add: settled_inv_def streaming_inv_def)
  from frames_insert [OF this(2,1)]
  have ins: "snd ` set (rx_reorder rx') = insert f (snd ` set (rx_reorder rx))" by (simp add: rx'_def)
  have full: "\<lparr>fr_seq = fr_seq f, fr_ts = fr_ts f, fr_payload = fr_payload f\<rparr> = f" by simp
  have fresh: "\<not> already (unat (rx_rel_released rx)) (snd ` set (rx_reorder rx)) (fr_seq f)"
    using new known_iff [OF inv str] by simp
  have live: "rel_abs rx = Live (unat (rx_rel_released rx)) (snd ` set (rx_reorder rx)) (rx_final_seq rx)"
    using str by (simp add: rel_abs_def)
  have "rel_events (map Reliable fs) = map Reliable fs" by (simp add: rel_events_def)
  then show ?thesis
    unfolding fst_andthen snd_andthen reads_append fs(1) live
    using new_frame [where s = "fr_seq f" and ts = "fr_ts f" and p = "fr_payload f", unfolded full, OF fresh fs(2) [unfolded ins] fin] by metis
qed

lemma on_data_refines:
  assumes inv: "settled es rx" and str: "rx_rel_state rx = R_Streaming"
  shows "rel_step (rel_abs rx) (Packet s (B_Data ts p) now)
    (rel_events (snd (on_data rx \<lparr>fr_seq = s, fr_ts = ts, fr_payload = p\<rparr> now)))
    (rel_abs (fst (on_data rx \<lparr>fr_seq = s, fr_ts = ts, fr_payload = p\<rparr> now)))"
proof (cases "s = 0 \<or> s \<in> arrived (rx_gaps rx)")
  case True
  then have "already (unat (rx_rel_released rx)) (snd ` set (rx_reorder rx)) s" using known_iff [OF inv str] by simp
  then show ?thesis using True str gt_record_stale [OF True]
    by (simp add: on_data_def Let_def rel_abs_def old_frame)
next
  case fresh: False
  let ?f = "\<lparr>fr_seq = s, fr_ts = ts, fr_payload = p\<rparr>"
  have gt: "gt_invar (rx_gaps rx)" using inv str by (simp add: settled_inv_def streaming_inv_def)
  obtain g where rec: "gt_record (rx_gaps rx) s = (g, True)" using gt_record_fresh [OF gt] fresh by metis
  have abort: "rel_step (rel_abs rx) (Packet s (B_Data ts p) now) [RelFinished (Aborted BufferExhausted)] Over"
    using str by (simp add: rel_abs_def give_up)
  show ?thesis
  proof (cases "window_span g \<le> reorder_window (rx_cfg rx)
      \<and> rx_reorder_bytes rx + length p \<le> max_reorder_bytes (rx_cfg rx)")
    case False
    then show ?thesis using abort str rec
      by (auto simp: on_data_def Let_def finish_rel_streaming rel_abs_def)
  next
    case True
    then show ?thesis using on_data_admits [OF inv str, of ?f g now] fresh str rec
      by (auto simp: on_data_def Let_def not_less not_le)
  qed
qed

lemma on_body_refines:
  assumes inv: "settled es rx" and str: "rx_rel_state rx = R_Streaming"
  shows "rel_step (rel_abs rx) (Packet s body now)
    (rel_events (snd (on_body rx s body now))) (rel_abs (fst (on_body rx s body now)))"
proof (cases body)
  case (B_Data ts p)
  then show ?thesis using on_data_refines [OF assms] by (simp add: on_body_def)
next
  case (B_End k)
  have "settled es (rx\<lparr>rx_final_seq := Some k\<rparr>)" using inv str by (simp add: settled_inv_def)
  from check_finish_settles [OF this, of now] B_End str show ?thesis
    by (auto simp: on_body_def rel_abs_def intro: end_notice)
next
  case (B_Keepalive lb)
  have quiet: "rel_abs (fst (check_finish r now)) = Over" "rel_events (snd (check_finish r now)) = []"
    if "rx_rel_state r = R_Finished" for r
    using that by (auto simp: check_finish_def ack_end_def rel_abs_def split: option.splits)
  have keep: ?thesis if "on_body rx s body now = check_finish r now" "rel_abs r = rel_abs rx" "settled es r"
    "rx_rel_state r = R_Streaming" for r
    using check_finish_settles [OF that(3,4), of now] that B_Keepalive str
    by (auto simp: rel_abs_def intro: keepalive)
  have "on_body rx s body now =
      (if \<not> lb > rx_sender_lost_below rx then check_finish rx now
       else if gt_contiguous (rx_gaps rx) < lb
       then andthen (finish_rel (rx\<lparr>rx_sender_lost_below := lb\<rparr>) (Aborted SenderDiscarded)) (\<lambda>r. check_finish r now)
       else check_finish (rx\<lparr>rx_sender_lost_below := lb\<rparr>) now)"
    using B_Keepalive str by (simp add: on_body_def Let_def andthen_silent)
  then consider "on_body rx s body now = check_finish rx now"
    | "on_body rx s body now = check_finish (rx\<lparr>rx_sender_lost_below := lb\<rparr>) now"
    | "on_body rx s body now = andthen (finish_rel (rx\<lparr>rx_sender_lost_below := lb\<rparr>) (Aborted SenderDiscarded))
        (\<lambda>r. check_finish r now)"
    by (simp split: if_splits)
  then show ?thesis
  proof cases
    case 1
    then show ?thesis using keep [of rx] inv str by simp
  next
    case 2
    then show ?thesis using keep [of "rx\<lparr>rx_sender_lost_below := lb\<rparr>"] inv str by simp
  next
    case 3
    then show ?thesis using quiet str B_Keepalive
      by (simp add: finish_rel_streaming) (simp add: rel_abs_def give_up)
  qed
qed (use str in \<open>simp_all add: on_body_def rel_abs_def no_progress\<close>)

lemma recv_tick_refines:
  assumes str: "rx_rel_state rx = R_Streaming"
  shows "rel_step (rel_abs rx) (RTick now) (rel_events (snd (recv_tick rx now))) (rel_abs (fst (recv_tick rx now)))"
proof -
  have stay: "rel_step (rel_abs rx) (RTick now) [] (rel_abs rx)" using str by (simp add: rel_abs_def no_progress)
  have stop: "rel_step (rel_abs rx) (RTick now) [RelFinished (Aborted r)] Over"
    if "r = PeerGone \<or> r = Stalled \<or> r = UnrecoverableGap" for r
    using str that by (simp add: rel_abs_def give_up)
  have over: "rel_abs (rx\<lparr>rx_rel_state := R_Finished, rx_reorder := [], rx_reorder_bytes := 0, rx_nacks := [],
         rx_gaps := g\<rparr>) = Over" for g by (simp add: rel_abs_def)
  have nacks: "rel_step (rel_abs rx) (RTick now) (rel_events (snd (emit_nacks rx now))) (rel_abs (fst (emit_nacks rx now)))"
    using stay stop [of UnrecoverableGap] str
    by (auto simp: emit_nacks_def Let_def finish_rel_streaming over split: prod.splits)
  show ?thesis using stay stop nacks str
    by (auto simp: recv_tick_def finish_rel_streaming maybe_ack_eq over rel_abs_finished)
qed

lemma recv_step_refines:
  assumes inv: "settled es rx"
  shows "rel_step (rel_abs rx) i (rel_events (snd (recv_step rx i))) (rel_abs (fst (recv_step rx i)))"
proof (cases "rx_rel_state rx")
  case R_Finished
  then show ?thesis by (rule over_stays [OF inv])
next
  case R_Streaming
  show ?thesis
  proof (cases i)
    case (Packet s body now)
    have "settled es (rx\<lparr>rx_last_packet_at := now\<rparr>)" using inv by simp
    from on_body_refines [OF this, of s body now] Packet R_Streaming show ?thesis
      by (simp add: recv_handle_def maybe_ack_eq)
  next
    case (RTick now)
    then show ?thesis using recv_tick_refines [OF R_Streaming] by simp
  next
    case (SetBuffered ms)
    then show ?thesis using R_Streaming by (simp add: set_buffered_ms_def) (simp add: rel_abs_def no_progress)
  qed
qed

lemma rel_abs_new [simp]: "rel_abs (XferReceiver_new cfg t0) = Live 0 {} None"
  by (simp add: rel_abs_def XferReceiver_new_def)

interpretation rel_refinement: simulation recv_step "XferReceiver_new cfg t0" rel_step rel_abs rel_events for cfg t0
  by unfold_locales (simp_all add: recv_step_refines [OF settled_reach])

text \<open>The declared length a live stream knows is one that was declared, and it knows one as soon as one was.\<close>

definition knows_length :: "RecvInput list \<Rightarrow> rel_spec \<Rightarrow> bool" where
  "knows_length is q \<longleftrightarrow> (case q of
     Live n P D \<Rightarrow> (case D of None \<Rightarrow> \<forall>k. \<not> declared is k | Some k \<Rightarrow> declared is k)
   | Over \<Rightarrow> True)"

lemma declared_snoc:
  "declared (is @ [i]) k \<longleftrightarrow> declared is k \<or> (\<exists>s now. i = Packet s (B_End k) now)"
  by (auto simp: declared_def)

lemma settle_knows: "settle n P D = (q, es) \<Longrightarrow> knows_length is (Live n P D) \<Longrightarrow> knows_length is q"
  by (cases D) (auto simp: knows_length_def split: if_splits)

lemma knows_length_step:
  assumes "rel_step q i es q'" and "knows_length is q"
  shows "knows_length (is @ [i]) q'"
  using assms
proof (induction rule: rel_step.induct)
  case (new_frame n P s ts p fs m Q D q es now)
  have "knows_length (is @ [Packet s (B_Data ts p) now]) (Live m Q D)"
    using new_frame.prems by (simp add: knows_length_def declared_snoc split: option.splits)
  with new_frame.hyps(3) show ?case by (rule settle_knows)
next
  case (end_notice n P k q es D s now)
  have "knows_length (is @ [Packet s (B_End k) now]) (Live n P (Some k))"
    by (simp add: knows_length_def declared_snoc)
  with end_notice.hyps show ?case by (rule settle_knows)
next
  case (keepalive n P D q es s lb now)
  have "knows_length (is @ [Packet s (B_Keepalive lb) now]) (Live n P D)"
    using keepalive.prems by (simp add: knows_length_def declared_snoc split: option.splits)
  with keepalive.hyps show ?case by (rule settle_knows)
next
  case (no_progress i n P D)
  then show ?case by (cases i rule: carries_notice.cases) (auto simp: knows_length_def declared_snoc split: option.splits)
qed (auto simp: knows_length_def declared_snoc split: option.splits)

lemma runs_knows_length: "runs rel_step (Live 0 {} None) is es q \<Longrightarrow> knows_length is q"
proof (induction rule: runs.induct)
  case runs_nil
  then show ?case by (simp add: knows_length_def declared_def)
qed (rule knows_length_step)

lemma arrived_completes:
  assumes "declared is n" and "\<And>k. declared is k \<Longrightarrow> k = n" and "{1..n} \<subseteq> data_seqs is"
    and "\<And>r. Aborted r \<notin> set (outcomes (trace recv_step (XferReceiver_new cfg t0) is))"
  shows "outcomes (trace recv_step (XferReceiver_new cfg t0) is) = [Complete n]"
proof -
  let ?es = "trace recv_step (XferReceiver_new cfg t0) is" and ?rx = "final recv_step (XferReceiver_new cfg t0) is"
  have inv: "settled_inv (got is) (declared is) ?es ?rx" by (rule rel.holds)
  have run: "runs rel_step (Live 0 {} None) is (rel_events ?es) (rel_abs ?rx)"
    using rel_refinement.refines [of cfg t0 "is"] by simp
  have fin: "rx_rel_state ?rx = R_Finished"
  proof (rule ccontr)
    assume "rx_rel_state ?rx \<noteq> R_Finished"
    then have str: "rx_rel_state ?rx = R_Streaming" by (cases "rx_rel_state ?rx") simp_all
    have "knows_length is (rel_abs ?rx)" by (rule runs_knows_length [OF run])
    then have "rx_final_seq ?rx = Some n"
      using str assms(1,2) by (cases "rx_final_seq ?rx") (simp_all add: rel_abs_def knows_length_def)
    then have "unat (rx_rel_released ?rx) < unat n"
      using runs_shape [OF run] str by (simp add: rel_abs_def spec_shape_def)
    moreover have "unat n \<le> length (reliable_frames ?es)" using released_iff_arrived [OF str] assms(3) by blast
    ultimately show False using length_in_order [OF settled_shape(2) [OF inv]] by simp
  qed
  then obtain o' where o': "outcomes ?es = [o']"
    using settled_shape(3) [OF inv] by (auto simp: length_Suc_conv)
  then show ?thesis
    using assms(2) assms(4) settled_shape(4) [OF inv] by (cases o') auto
qed

section \<open>Properties\<close>

text \<open>
  C4: the receiver refines the specification of the reliable stream: whatever the calls, the
  reliable frames and the outcome it emits are those of a run of the specification on the same
  calls, from the empty stream to the abstraction of the state it is in.
\<close>

theorem receiver_refines_spec:
  "runs rel_step (Live 0 {} None) is (rel_events (trace recv_step (XferReceiver_new cfg t0) is))
     (rel_abs (final recv_step (XferReceiver_new cfg t0) is))"
  using rel_refinement.refines [of cfg t0 "is"] by simp

text \<open>
  C8: when packets with all the numbers up to the declared length have arrived, in whatever order
  and however often, a receiver that has not given up has reported completion: it never waits
  for anything else.
\<close>

theorem everything_arrived_completes:
  assumes "declared is n" and "\<And>k. declared is k \<Longrightarrow> k = n" and "{1..n} \<subseteq> data_seqs is"
    and "\<And>r. Aborted r \<notin> set (outcomes (trace recv_step (XferReceiver_new cfg t0) is))"
  shows "outcomes (trace recv_step (XferReceiver_new cfg t0) is) = [Complete n]"
  by (rule arrived_completes [OF assms])

text \<open>The end first, then the frames in the wrong order.\<close>

definition backwards :: "RecvInput list" where
  "backwards = [Packet 1 (B_End 2) 1, Packet 2 (B_Data 20 [8]) 2, Packet 1 (B_Data 0 [7]) 3]"

theorem everything_arrived_completes_witness:
  "outcomes (trace recv_step (XferReceiver_new audio_engine 0) backwards) = [Complete 2]"
proof (rule everything_arrived_completes)
  show "declared backwards 2" by (simp add: declared_def backwards_def)
  show "k = 2" if "declared backwards k" for k using that by (auto simp: declared_def backwards_def)
  have small: "s \<in> {1, 2}" if "s \<in> {1..2}" for s :: u32
  proof -
    have "unat s = 1 \<or> unat s = 2" using that by (simp add: word_le_nat_alt) arith
    then show ?thesis by (auto simp: word_unat_eq_iff)
  qed
  have "{1, 2} \<subseteq> data_seqs backwards" by (simp add: data_seqs_def backwards_def)
  then show "{1..2} \<subseteq> data_seqs backwards" using small by blast
  show "Aborted r \<notin> set (outcomes (trace recv_step (XferReceiver_new audio_engine 0) backwards))" for r
    by (simp add: backwards_def outcomes_def rx_eval)
qed

end
