(* ===== verification/Pf4_Receiver_Wf.thy ===== *)
theory Pf4_Receiver_Wf
  imports Pf4_Rel_Spec
begin

text \<open>
  The well-formedness of a receiver as an executable predicate of the state alone, with no history,
  and its preservation by every method from every well-formed state, reachable or not.  It fixes
  how the fields belong together: the keys of the reorder buffer are the numbers ahead of the
  prefix, the byte counter is their content, the attempt counters stay within the budget, a
  finished stream holds nothing, and the flags are set in the order the code sets them.
\<close>

definition nacks_wf :: "u8 \<Rightarrow> (u32 \<times> (u8 \<times> instant)) list \<Rightarrow> bool" where
  "nacks_wf budget nacks \<longleftrightarrow> bmap_invar nacks \<and> list_all (\<lambda>e. fst (snd e) \<le> budget) nacks"

definition stream_wf :: "XferReceiver \<Rightarrow> bool" where
  "stream_wf rx \<longleftrightarrow> gt_invar (rx_gaps rx) \<and>
     (case rx_rel_state rx of
        R_Streaming \<Rightarrow>
          \<not> rx_closed rx \<and> \<not> rx_end_acked rx \<and> rx_rel_released rx = gt_contiguous (rx_gaps rx)
          \<and> map fst (rx_reorder rx) = gt_ahead (rx_gaps rx)
          \<and> list_all (\<lambda>e. fr_seq (snd e) = fst e) (rx_reorder rx)
          \<and> rx_reorder_bytes rx = frame_weight (rx_reorder rx)
          \<and> rx_reorder_bytes rx \<le> max_reorder_bytes (rx_cfg rx)
          \<and> window_span (rx_gaps rx) \<le> reorder_window (rx_cfg rx)
      | R_Finished \<Rightarrow> rx_reorder rx = [] \<and> rx_reorder_bytes rx = 0 \<and> rx_nacks rx = [])"

definition books_wf :: "XferReceiver \<Rightarrow> bool" where
  "books_wf rx \<longleftrightarrow> nacks_wf (max_nack_attempts (rx_cfg rx)) (rx_nacks rx)
     \<and> (rx_end_acked rx \<longrightarrow> rx_closed rx)"

definition rx_wf :: "XferReceiver \<Rightarrow> bool" where
  "rx_wf rx \<longleftrightarrow> stream_wf rx \<and> books_wf rx"

section \<open>The stream\<close>

text \<open>Some history fits every well-formed state.\<close>

definition plain_history :: "u32 \<Rightarrow> RecvEvent list" where
  "plain_history n =
     map (\<lambda>k. Reliable \<lparr>fr_seq = of_nat (Suc k), fr_ts = 0, fr_payload = []\<rparr>) [0..<unat n]"

lemma plain_history_in_order:
  "\<exists>fs. rel_events (plain_history n) = map Reliable fs \<and> in_order (\<lambda>f. True) fs n"
proof -
  let ?fs = "map (\<lambda>k. \<lparr>fr_seq = of_nat (Suc k), fr_ts = 0, fr_payload = []\<rparr>) [0..<unat n]"
  have "unat (of_nat (Suc k) :: u32) = Suc k" if "k < unat n" for k
    using that unat_u32_less [of n] by (intro unat_of_nat_u32) linarith
  then have "in_order (\<lambda>f. True) ?fs n" by (auto simp: in_order_def simp del: of_nat_Suc)
  moreover have "rel_events (plain_history n) = map Reliable ?fs"
    by (simp add: plain_history_def rel_events_def comp_def)
  ultimately show ?thesis by blast
qed

lemma keys_ahead:
  "gt_invar g \<Longrightarrow> {s \<in> arrived g. gt_contiguous g < s} = set (gt_ahead g)"
  by (auto simp: arrived_def gt_invar_def word_less_nat_alt word_le_nat_alt)

lemma stream_wf_settled: "stream_wf rx \<longleftrightarrow> (\<exists>es. settled es rx)"
proof
  assume wf: "stream_wf rx"
  obtain fs where fs: "rel_events (plain_history (rx_rel_released rx)) = map Reliable fs"
    "in_order (\<lambda>f. True) fs (rx_rel_released rx)" using plain_history_in_order by blast
  show "\<exists>es. settled es rx"
  proof (cases "rx_rel_state rx")
    case R_Finished
    have "rel_events (plain_history (rx_rel_released rx) @ [RelFinished (Aborted Stalled)])
        = map Reliable fs @ [RelFinished (Aborted Stalled)]" using fs(1) by simp
    then have "settled (plain_history (rx_rel_released rx) @ [RelFinished (Aborted Stalled)]) rx"
      using wf R_Finished fs(2) by (auto simp: stream_wf_def settled_inv_def finished_inv_def)
    then show ?thesis by blast
  next
    case R_Streaming
    have gt: "gt_invar (rx_gaps rx)" and keys: "map fst (rx_reorder rx) = gt_ahead (rx_gaps rx)"
      using wf R_Streaming by (simp_all add: stream_wf_def)
    have "bmap_invar (rx_reorder rx)" using gt keys by (simp add: gt_invar_def bmap_invar_def bset_invar_def)
    moreover have "fst ` set (rx_reorder rx) = {s \<in> arrived (rx_gaps rx). gt_contiguous (rx_gaps rx) < s}"
      unfolding keys_ahead [OF gt] using arg_cong [OF keys, of set] by simp
    ultimately have "settled (plain_history (rx_rel_released rx)) rx"
      using wf R_Streaming fs by (auto simp: stream_wf_def settled_inv_def streaming_inv_def list_all_iff)
    then show ?thesis by blast
  qed
next
  assume "\<exists>es. settled es rx"
  then obtain es where inv: "settled es rx" by blast
  show "stream_wf rx"
  proof (cases "rx_rel_state rx")
    case R_Finished
    then show ?thesis using inv by (simp add: settled_inv_def finished_inv_def stream_wf_def)
  next
    case R_Streaming
    then have str: "streaming_inv (\<lambda>f. True) es rx" and rel: "rx_rel_released rx = gt_contiguous (rx_gaps rx)"
      using inv by (simp_all add: settled_inv_def)
    then have gt: "gt_invar (rx_gaps rx)" by (simp add: streaming_inv_def)
    then have "set (map fst (rx_reorder rx)) = set (gt_ahead (rx_gaps rx))"
      using str rel keys_ahead [OF gt] by (simp add: streaming_inv_def)
    moreover have "sorted_wrt (<) (map fst (rx_reorder rx))" "sorted_wrt (<) (gt_ahead (rx_gaps rx))"
      using str gt by (simp_all add: streaming_inv_def gt_invar_def bmap_invar_def bset_invar_def)
    ultimately have "map fst (rx_reorder rx) = gt_ahead (rx_gaps rx)"
      by (intro sorted_distinct_set_unique) (auto simp: strict_sorted_iff)
    then show ?thesis using R_Streaming str rel gt
      by (simp add: streaming_inv_def stream_wf_def list_all_iff)
  qed
qed

lemma stream_wf_step: "stream_wf rx \<Longrightarrow> stream_wf (fst (recv_step rx i))"
  unfolding stream_wf_settled using settled_next by blast

section \<open>The bookkeeping\<close>

lemma nacks_wf_insert: "nacks_wf b m \<Longrightarrow> fst v \<le> b \<Longrightarrow> nacks_wf b (bmap_insert k v m)"
  by (fastforce simp: nacks_wf_def list_all_iff bmap.items_graph bmap.invar_ins split: if_splits)

lemma nacks_wf_remove: "nacks_wf b m \<Longrightarrow> nacks_wf b (bmap_remove k m)"
  using bmap.invar_rem [of m k] by (auto simp: nacks_wf_def list_all_iff bmap_remove_def)

lemma nack_loop_wf:
  "nacks_wf (max_nack_attempts cfg) nacks \<Longrightarrow>
     nacks_wf (max_nack_attempts cfg) (fst (nack_loop cfg lb now miss nacks ask))"
proof (induction miss arbitrary: nacks ask)
  case (Cons s miss)
  let ?b = "max_nack_attempts cfg"
  have seen: "fst e \<le> ?b" if "map_of nacks s = Some e" for e
    using Cons.prems map_of_SomeD [OF that] by (auto simp: nacks_wf_def list_all_iff)
  have succ: "c + 1 \<le> ?b" if "\<not> ?b \<le> c" for c :: u8
    using that unat_succ_less [of c ?b] by (simp add: word_le_nat_alt word_less_nat_alt)
  have one: "1 \<le> ?b" if "?b \<noteq> 0" using succ [of 0] that by simp
  show ?case using Cons seen one
    by (auto simp: Let_def succ nacks_wf_insert split: option.splits)
qed simp

lemma books_irrelevant [simp]:
  "books_wf (rx\<lparr>rx_last_packet_at := t\<rparr>) = books_wf rx" "books_wf (rx\<lparr>rx_last_ack_at := t\<rparr>) = books_wf rx"
  "books_wf (rx\<lparr>rx_last_rel_progress_at := t\<rparr>) = books_wf rx" "books_wf (rx\<lparr>rx_buffered_ms := ms\<rparr>) = books_wf rx"
  "books_wf (rx\<lparr>rx_sender_lost_below := s\<rparr>) = books_wf rx" "books_wf (rx\<lparr>rx_final_seq := n\<rparr>) = books_wf rx"
  "books_wf (rx\<lparr>rx_gaps := g\<rparr>) = books_wf rx" "books_wf (rx\<lparr>rx_reorder_bytes := b, rx_reorder := m\<rparr>) = books_wf rx"
  by (simp_all add: books_wf_def)

lemma books_release_loop: "books_wf rx \<Longrightarrow> books_wf (fst (release_loop c rx))"
proof (induction c rx rule: release_loop.induct)
  case (1 c rx)
  then show ?case
    by (subst release_loop.simps) (auto simp: Let_def books_wf_def nacks_wf_remove split: option.splits)
qed

lemma books_ops:
  "books_wf rx \<Longrightarrow> books_wf (fst (finish_rel rx o'))"
  "books_wf rx \<Longrightarrow> books_wf (fst (release_contiguous rx now))"
  "books_wf rx \<Longrightarrow> books_wf (fst (ack_end rx n))"
  "books_wf rx \<Longrightarrow> books_wf (fst (maybe_ack rx now))"
  "books_wf rx \<Longrightarrow> books_wf (fst (emit_nacks rx now))"
proof -
  have fin: "books_wf r \<Longrightarrow> books_wf (fst (finish_rel r o'))" for r o'
    by (simp add: finish_rel_def books_wf_def nacks_wf_def bmap_invar_def)
  show "books_wf rx \<Longrightarrow> books_wf (fst (finish_rel rx o'))" by (rule fin)
  show "books_wf rx \<Longrightarrow> books_wf (fst (release_contiguous rx now))"
    using books_release_loop by (simp add: release_contiguous_def Let_def split_beta)
  show "books_wf rx \<Longrightarrow> books_wf (fst (ack_end rx n))" by (simp add: ack_end_def books_wf_def)
  show "books_wf rx \<Longrightarrow> books_wf (fst (maybe_ack rx now))" by (simp add: maybe_ack_def)
  assume wf: "books_wf rx"
  let ?r = "nack_loop (rx_cfg rx) (rx_sender_lost_below rx) now (missing (rx_gaps rx) MAX_NACK_ENTRIES) (rx_nacks rx) []"
  have "books_wf (rx\<lparr>rx_nacks := fst ?r\<rparr>)" using wf nack_loop_wf by (simp add: books_wf_def)
  then show "books_wf (fst (emit_nacks rx now))"
    using wf fin by (simp add: emit_nacks_def Let_def split_beta)
qed

lemma books_check_finish: "books_wf rx \<Longrightarrow> books_wf (fst (check_finish rx now))"
  by (simp add: check_finish_def books_ops split: option.splits)

lemma books_wf_step:
  assumes "books_wf rx"
  shows "books_wf (fst (recv_step rx i))"
proof (cases i)
  case (Packet s b now)
  have "books_wf (fst (on_body r s b now))" if "books_wf r" for r
    using that by (cases b) (simp_all add: on_body_def on_data_def books_ops books_check_finish Let_def split_beta)
  then show ?thesis using assms Packet by (simp add: recv_handle_def books_ops)
next
  case (RTick now)
  have "books_wf (r\<lparr>rx_closed := True\<rparr>)" if "books_wf r" for r using that by (simp add: books_wf_def)
  then show ?thesis using assms RTick by (simp add: recv_tick_def books_ops)
next
  case (SetBuffered ms)
  then show ?thesis using assms by (simp add: set_buffered_ms_def)
qed

section \<open>Properties\<close>

text \<open>
  C9: a new receiver is well formed, and every method takes every well-formed receiver to a
  well-formed one: the reorder buffer holds exactly the numbers ahead of the prefix in order, its
  byte counter is its content and within the budget, no attempt counter exceeds its budget, and a
  finished stream holds no frame.
\<close>

theorem receiver_stays_well_formed:
  "rx_wf (XferReceiver_new cfg t0) \<and> (rx_wf rx \<longrightarrow> rx_wf (fst (recv_step rx i)))"
proof -
  have "stream_wf (XferReceiver_new cfg t0)" using settled_new stream_wf_settled by blast
  moreover have "books_wf (XferReceiver_new cfg t0)"
    by (simp add: books_wf_def nacks_wf_def XferReceiver_new_def bmap_invar_def)
  ultimately show ?thesis using stream_wf_step books_wf_step unfolding rx_wf_def by blast
qed

text \<open>A state in the middle of a transfer: 1 released, 3 waiting, 2 asked for once.\<close>

definition waiting_state :: XferReceiver where
  "waiting_state = (XferReceiver_new audio_engine 0)\<lparr>
     rx_gaps := \<lparr>gt_contiguous = 1, gt_ahead = [3], gt_highest = 3\<rparr>,
     rx_reorder := [(3, \<lparr>fr_seq = 3, fr_ts = 40, fr_payload = [9, 9]\<rparr>)], rx_reorder_bytes := 2,
     rx_rel_released := 1, rx_nacks := [(2, (1, 5))]\<rparr>"

theorem receiver_stays_well_formed_witness:
  "rx_wf waiting_state \<and> rx_wf (fst (recv_step waiting_state (Packet 2 (B_Data 20 [8]) 9)))"
proof -
  have "rx_wf waiting_state"
    by (simp add: waiting_state_def rx_wf_def stream_wf_def books_wf_def nacks_wf_def gt_invar_def bset_invar_def
        bmap_invar_def XferReceiver_new_def audio_engine_def frame_weight_def window_span_def sat_sub_def)
  then show ?thesis
    using receiver_stays_well_formed [of audio_engine 0 waiting_state "Packet 2 (B_Data 20 [8]) 9"] by simp
qed

section \<open>After the reliable stream is over\<close>

text \<open>A receiver whose reliable stream is over still records every arrival.\<close>

lemma record_beyond:
  assumes "gt_invar g" and "unat (gt_contiguous g) + 1 < unat s" and "s \<notin> set (gt_ahead g)"
  shows "gt_contiguous (fst (gt_record g s)) = gt_contiguous g \<and> gt_invar (fst (gt_record g s))
    \<and> set (gt_ahead (fst (gt_record g s))) = insert s (set (gt_ahead g))"
proof -
  let ?c = "gt_contiguous g" and ?a = "bset_insert s (gt_ahead g)"
  have s: "s \<noteq> 0" "\<not> s \<le> ?c" using assms(2) by (auto simp: word_le_nat_alt)
  have "unat (?c + 1) = Suc (unat ?c)"
    using assms(2) by (intro unat_succ_less [of _ s]) (simp add: word_less_nat_alt)
  then have "?c + 1 \<notin> set ?a" using assms(1,2) by (auto simp: gt_invar_def)
  then have "advance ?c ?a = (?c, ?a)" by (simp add: advance.simps)
  then show ?thesis using s assms(3) gt_record_laws(1) [OF assms(1), of s] by (simp add: gt_record_def Let_def)
qed

lemma finished_data:
  assumes "rx_rel_state rx = R_Finished"
  shows "rx_rel_state (fst (recv_step rx (Packet s (B_Data ts p) now))) = R_Finished
    \<and> rx_gaps (fst (recv_step rx (Packet s (B_Data ts p) now))) = fst (gt_record (rx_gaps rx) s)"
  using assms by (simp add: recv_handle_def on_body_def on_data_def Let_def split_beta)

lemma finished_tracks:
  assumes "rx_rel_state rx = R_Finished" and "gt_invar (rx_gaps rx)" and "distinct ss"
    and "\<forall>s \<in> set ss. unat (gt_contiguous (rx_gaps rx)) + 1 < unat s \<and> s \<notin> set (gt_ahead (rx_gaps rx))"
  shows "set (gt_ahead (rx_gaps (final recv_step rx (map (\<lambda>s. Packet s (B_Data ts p) now) ss))))
    = set ss \<union> set (gt_ahead (rx_gaps rx))"
  using assms
proof (induction ss arbitrary: rx)
  case (Cons s ss)
  let ?rx = "fst (recv_step rx (Packet s (B_Data ts p) now))"
  have r: "rx_rel_state ?rx = R_Finished" "rx_gaps ?rx = fst (gt_record (rx_gaps rx) s)"
    using finished_data [OF Cons.prems(1)] by simp_all
  have g: "gt_contiguous (rx_gaps ?rx) = gt_contiguous (rx_gaps rx)" "gt_invar (rx_gaps ?rx)"
    "set (gt_ahead (rx_gaps ?rx)) = insert s (set (gt_ahead (rx_gaps rx)))"
    using record_beyond [OF Cons.prems(2), of s] Cons.prems(4) unfolding r(2) by simp_all
  have "set (gt_ahead (rx_gaps (final recv_step ?rx (map (\<lambda>s. Packet s (B_Data ts p) now) ss))))
      = set ss \<union> set (gt_ahead (rx_gaps ?rx))"
    by (rule Cons.IH [OF r(1) g(2)]) (use Cons.prems(3,4) g in auto)
  then show ?case using g(3) by (simp add: split_beta)
qed simp

text \<open>
  C37: giving the reliable stream up does not stop it from holding memory: every later arrival above
  the abandoned gap is recorded and kept, without regard to the reorder window.
\<close>

theorem aborted_stream_still_tracks:
  assumes "rx_rel_state rx = R_Finished" and "gt_invar (rx_gaps rx)" and "gt_ahead (rx_gaps rx) = []"
    and "distinct ss" and "\<And>s. s \<in> set ss \<Longrightarrow> unat (gt_contiguous (rx_gaps rx)) + 1 < unat s"
  shows "set (gt_ahead (rx_gaps (final recv_step rx (map (\<lambda>s. Packet s (B_Data ts p) now) ss)))) = set ss"
  using finished_tracks [OF assms(1,2,4), of ts p now] assms(3,5) by simp

theorem aborted_stream_still_tracks_witness:
  "set (gt_ahead (rx_gaps (final recv_step (final recv_step (XferReceiver_new audio_engine 0) [Packet 1 (B_Keepalive 1) 1])
     (map (\<lambda>s. Packet s (B_Data 0 [7]) 2) [5, 1000000, 4000000000])))) = {5, 1000000, 4000000000}"
proof -
  let ?rx = "final recv_step (XferReceiver_new audio_engine 0) [Packet 1 (B_Keepalive 1) 1]"
  have rx: "rx_rel_state ?rx = R_Finished" "rx_gaps ?rx = GapTracker_new"
    by (simp_all add: rx_eval)
  have "set (gt_ahead (rx_gaps (final recv_step ?rx (map (\<lambda>s. Packet s (B_Data 0 [7]) 2) [5, 1000000, 4000000000]))))
      = set [5, 1000000, 4000000000]"
  proof (rule aborted_stream_still_tracks [OF rx(1)])
    show "unat (gt_contiguous (rx_gaps ?rx)) + 1 < unat s" if "s \<in> set [5, 1000000, 4000000000]" for s :: u32
      using that unfolding rx(2) by (auto simp: GapTracker_new_def)
  qed (simp_all only: rx(2) gt_invar_new, simp_all add: GapTracker_new_def)
  then show ?thesis by (simp only: list.set)
qed

end
