(* ===== verification/Pf4_Nack_Spec.thy ===== *)
theory Pf4_Nack_Spec
  imports Pf4_Receiver_Props
begin

text \<open>
  What a tick asks for, specified without the loops of \<open>emit_nacks\<close> and \<open>missing\<close>.  A tick looks at the
  lowest gaps only, as many as fit in one \<open>Nack\<close>: of those it asks for the ones whose turn it is, all in
  one request, unless one of them cannot be recovered any more, and then for nothing: it ends the
  reliable stream.
\<close>

text \<open>All gaps, in order: what has not arrived above the prefix although something later has.\<close>

definition all_gaps :: "GapTracker \<Rightarrow> XferSeq list" where
  "all_gaps g = sorted_list_of_set {s. gt_contiguous g < s \<and> s \<notin> arrived g \<and> (\<exists>a \<in> arrived g. s < a)}"

definition nacks_wanted :: "XferReceiver \<Rightarrow> instant \<Rightarrow> RecvEvent list" where
  "nacks_wanted rx now =
     (let gaps = take MAX_NACK_ENTRIES (all_gaps (rx_gaps rx));
          ask = filter (due (rx_cfg rx) now (rx_nacks rx)) gaps
      in if list_ex (hopeless (rx_cfg rx) (rx_sender_lost_below rx) (rx_nacks rx)) gaps
         then [RelFinished (Aborted UnrecoverableGap)]
         else if ask = [] then [] else [SendNack ask])"

lemma missing_first_gaps: "gt_invar g \<Longrightarrow> missing g limit = take limit (all_gaps g)"
  by (simp add: missing_sorted_list all_gaps_def)

section \<open>Properties\<close>

text \<open>
  C25: a tick looks at the lowest 128 gaps (\<open>MAX_NACK_ENTRIES\<close>, the room of one \<open>Nack\<close>), and its request is
  exactly the specified one: when none of these gaps is beyond recovery, one \<open>Nack\<close> with those of
  them whose retry is due and no others, in ascending order, or none when no retry is due;
  otherwise the reliable stream is given up and nothing is asked.  Gaps past the first 128 are not asked for,
  due or not, until lower ones have been filled.
\<close>

theorem emit_nacks_is_spec:
  assumes "gt_invar (rx_gaps rx)" and "rx_rel_state rx = R_Streaming"
  shows "snd (emit_nacks rx now) = nacks_wanted rx now"
proof -
  let ?m = "missing (rx_gaps rx) MAX_NACK_ENTRIES"
  obtain ns new ex where loop:
    "nack_loop (rx_cfg rx) (rx_sender_lost_below rx) now ?m (rx_nacks rx) [] = (ns, new, ex)"
    by (metis prod_cases3)
  from nack_loop_is_spec [OF distinct_missing [OF assms(1)], of "rx_cfg rx" "rx_sender_lost_below rx" now MAX_NACK_ENTRIES "rx_nacks rx" "[]"]
  show ?thesis using assms(2) loop
    by (auto simp: emit_nacks_def nacks_wanted_def missing_first_gaps [OF assms(1), symmetric] Let_def finish_rel_streaming)
qed

theorem emit_nacks_is_spec_witness:
  "snd (emit_nacks (final recv_step (XferReceiver_new audio_engine 0) [Packet 3 (B_Data 0 [7]) 1]) 5)
     = nacks_wanted (final recv_step (XferReceiver_new audio_engine 0) [Packet 3 (B_Data 0 [7]) 1]) 5
   \<and> nacks_wanted (final recv_step (XferReceiver_new audio_engine 0) [Packet 3 (B_Data 0 [7]) 1]) 5 = [SendNack [1, 2]]"
proof
  let ?rx = "final recv_step (XferReceiver_new audio_engine 0) [Packet 3 (B_Data 0 [7]) 1]"
  have gt: "gt_invar (rx_gaps ?rx)" using play.holds [of audio_engine 0 "[Packet 3 (B_Data 0 [7]) 1]"] by (simp add: play_inv_def)
  then show "snd (emit_nacks ?rx 5) = nacks_wanted ?rx 5"
    by (rule emit_nacks_is_spec) (simp add: rx_eval)
  show "nacks_wanted ?rx 5 = [SendNack [1, 2]]"
    unfolding nacks_wanted_def missing_first_gaps [OF gt, symmetric]
    by (simp add: rx_eval missing_def missing_fill.simps hopeless_def due_def attempts_def
        nack_delay_def MAX_NACK_ENTRIES_def)
qed

end
