(* ===== verification/Pf4_Net.thy ===== *)
theory Pf4_Net
  imports Pf4_Types
begin

text \<open>
  What both endpoints of the tokio crate share: the error enumeration of \<open>protofish4/src/error.rs\<close>
  and the socket interface they call.  Name resolution, binding and sending belong to the
  operating system and are parameters: \<open>net\<close> answers the calls that set a socket up, and a
  socket carries the answers its send calls will get, in order.  The model records the datagrams
  handed over successfully; what the network does with them is left open.
\<close>

datatype SocketAddr = V4 bytes u16 | V6 bytes u16

fun is_ipv4 :: "SocketAddr \<Rightarrow> bool" where
  "is_ipv4 (V4 ip port) = True"
| "is_ipv4 (V6 ip port) = False"

type_synonym io_error = string

datatype NetError =
  E_Io io_error
| E_Proto Error
| E_NoRouteToSink "string list"
| E_DuplicateRequest RequestId
| E_EndpointClosed
| E_NoAck SocketAddr
| E_FinalizeTimeout
| E_PeerGone

type_synonym 'a net_result = "NetError + 'a"

text \<open>The conversions the operator \<open>?\<close> applies.\<close>

fun from_io :: "io_error + 'a \<Rightarrow> 'a net_result" where
  "from_io (Inl e) = Inl (E_Io e)"
| "from_io (Inr x) = Inr x"

fun from_proto :: "'a result \<Rightarrow> 'a net_result" where
  "from_proto (Inl e) = Inl (E_Proto e)"
| "from_proto (Inr x) = Inr x"

section \<open>Sockets\<close>

record net =
  net_lookup :: "string \<Rightarrow> io_error + SocketAddr list"
  net_bind :: "SocketAddr \<Rightarrow> io_error + unit"
  net_connect :: "SocketAddr \<Rightarrow> io_error + unit"
  net_send :: "nat \<Rightarrow> io_error option"

record UdpSocket =
  us_send_answers :: "nat \<Rightarrow> io_error option"
  us_calls :: nat
  us_sent :: "bytes list"

definition UdpSocket_new :: "net \<Rightarrow> UdpSocket" where
  "UdpSocket_new N = \<lparr>us_send_answers = net_send N, us_calls = 0, us_sent = []\<rparr>"

definition socket_send :: "UdpSocket \<Rightarrow> bytes \<Rightarrow> UdpSocket \<times> (io_error + unit)" where
  "socket_send sk d =
     (let sk1 = sk\<lparr>us_calls := us_calls sk + 1\<rparr>
      in case us_send_answers sk (us_calls sk) of
           None \<Rightarrow> (sk1\<lparr>us_sent := us_sent sk @ [d]\<rparr>, Inr ())
         | Some e \<Rightarrow> (sk1, Inl e))"

section \<open>Lemmas\<close>

lemma socket_send_cases:
  obtains (sent) "socket_send sk d = (sk\<lparr>us_calls := us_calls sk + 1, us_sent := us_sent sk @ [d]\<rparr>, Inr ())"
  | (failed) e where "socket_send sk d = (sk\<lparr>us_calls := us_calls sk + 1\<rparr>, Inl e)"
  by (cases "us_send_answers sk (us_calls sk)") (auto simp: socket_send_def Let_def)

lemma from_io_Inr_iff [simp]: "from_io r = Inr x \<longleftrightarrow> r = Inr x"
  by (cases r) auto

lemma from_proto_Inr_iff [simp]: "from_proto r = Inr x \<longleftrightarrow> r = Inr x"
  by (cases r) auto

end
