(* ===== verification/Pf4_Header.thy ===== *)
theory Pf4_Header
  imports Pf4_Types
begin

text \<open>
  \<open>protofish4-proto/src/header.rs\<close>: the 22-byte cleartext header, its parser, its serialiser and
  the routing peek of a relay.  The lemmas show that parsing and serialising are inverse on
  both sides, so a header has exactly one wire form, and that the relay's peek agrees with the
  full parser wherever the parser succeeds.
\<close>

definition VERSION :: u8 where
  "VERSION = 0x04"

definition HEADER_LEN :: usize where
  "HEADER_LEN = 22"

definition REQUEST_ID_OFF :: usize where
  "REQUEST_ID_OFF = 2"

definition SEQ_OFF :: usize where
  "SEQ_OFF = 18"

record Header =
  hdr_kind :: PacketKind
  hdr_request_id :: RequestId
  hdr_seq :: u32

definition Header_new :: "PacketKind \<Rightarrow> RequestId \<Rightarrow> u32 \<Rightarrow> Header" where
  "Header_new k r s = \<lparr>hdr_kind = k, hdr_request_id = r, hdr_seq = s\<rparr>"

text \<open>A slice \<open>buf[a..b]\<close> the code takes once the length has been checked.\<close>

definition sub_slice :: "bytes \<Rightarrow> nat \<Rightarrow> nat \<Rightarrow> bytes" where
  "sub_slice buf a b = take (b - a) (drop a buf)"

definition Header_parse :: "bytes \<Rightarrow> (Header \<times> bytes) result" where
  "Header_parse buf =
     (if length buf < HEADER_LEN then Inl (Truncated HEADER_LEN (length buf))
      else if buf ! 0 \<noteq> VERSION then Inl (UnsupportedVersion (buf ! 0))
      else rbind (PacketKind_from_u8 (buf ! 1)) (\<lambda>k.
        let id = sub_slice buf REQUEST_ID_OFF SEQ_OFF;
            s = from_be (sub_slice buf SEQ_OFF HEADER_LEN)
        in Inr (\<lparr>hdr_kind = k, hdr_request_id = RequestId_from_bytes id, hdr_seq = s\<rparr>, drop HEADER_LEN buf)))"

definition Header_to_bytes :: "Header \<Rightarrow> bytes" where
  "Header_to_bytes h =
     [VERSION, PacketKind_as_u8 (hdr_kind h)] @ RequestId_to_bytes (hdr_request_id h) @ to_be 4 (hdr_seq h)"

definition peek_request_id :: "bytes \<Rightarrow> RequestId result" where
  "peek_request_id buf =
     (if length buf < HEADER_LEN then Inl (Truncated HEADER_LEN (length buf))
      else if buf ! 0 \<noteq> VERSION then Inl (UnsupportedVersion (buf ! 0))
      else Inr (RequestId_from_bytes (sub_slice buf REQUEST_ID_OFF SEQ_OFF)))"

section \<open>Lemmas\<close>

lemmas header_consts = VERSION_def HEADER_LEN_def REQUEST_ID_OFF_def SEQ_OFF_def

lemma Header_new_simps [simp]:
  "hdr_kind (Header_new k r s) = k" "hdr_request_id (Header_new k r s) = r" "hdr_seq (Header_new k r s) = s"
  by (simp_all add: Header_new_def)

lemma length_Header_to_bytes [simp]:
  "request_id_wf (hdr_request_id h) \<Longrightarrow> length (Header_to_bytes h) = HEADER_LEN"
  by (simp add: Header_to_bytes_def HEADER_LEN_def)

lemma length_sub_slice [simp]: "length (sub_slice buf a b) = min (b - a) (length buf - a)"
  by (simp add: sub_slice_def)

lemma buffer_split:
  assumes "HEADER_LEN \<le> length buf"
  shows "buf = [buf ! 0, buf ! 1] @ sub_slice buf REQUEST_ID_OFF SEQ_OFF
           @ sub_slice buf SEQ_OFF HEADER_LEN @ drop HEADER_LEN buf"
proof -
  from assms obtain a b rest where buf: "buf = a # b # rest" and len: "20 \<le> length rest"
    by (cases buf; cases "tl buf") (auto simp: HEADER_LEN_def)
  have "rest = take 16 rest @ take 4 (drop 16 rest) @ drop 4 (drop 16 rest)"
    by (simp only: append_take_drop_id)
  then show ?thesis by (simp add: buf sub_slice_def header_consts)
qed

lemma Header_parse_to_bytes:
  assumes "request_id_wf (hdr_request_id h)"
  shows "Header_parse (Header_to_bytes h @ rest) = Inr (h, rest)"
proof -
  let ?id = "RequestId_to_bytes (hdr_request_id h)"
  have len: "length ?id = 16" using assms by simp
  have id: "sub_slice (Header_to_bytes h @ rest) REQUEST_ID_OFF SEQ_OFF = ?id"
    using len by (simp add: sub_slice_def Header_to_bytes_def header_consts)
  have sq: "sub_slice (Header_to_bytes h @ rest) SEQ_OFF HEADER_LEN = to_be 4 (hdr_seq h)"
    using len by (simp add: sub_slice_def Header_to_bytes_def header_consts)
  have rest: "drop HEADER_LEN (Header_to_bytes h @ rest) = rest"
    using assms by simp
  have "(Header_to_bytes h @ rest) ! 0 = VERSION"
    and "(Header_to_bytes h @ rest) ! 1 = PacketKind_as_u8 (hdr_kind h)"
    by (simp_all add: Header_to_bytes_def)
  with assms id sq rest show ?thesis by (simp add: Header_parse_def Let_def)
qed

lemma Header_parse_InrD:
  assumes "Header_parse buf = Inr (h, rest)"
  shows "buf = Header_to_bytes h @ rest" and "request_id_wf (hdr_request_id h)"
proof -
  from assms have len: "HEADER_LEN \<le> length buf" and ver: "buf ! 0 = VERSION"
    and k: "buf ! 1 = PacketKind_as_u8 (hdr_kind h)"
    and id: "hdr_request_id h = RequestId_from_bytes (sub_slice buf REQUEST_ID_OFF SEQ_OFF)"
    and s: "hdr_seq h = from_be (sub_slice buf SEQ_OFF HEADER_LEN)"
    and rest: "rest = drop HEADER_LEN buf"
    by (auto simp: Header_parse_def Let_def rbind_Inr_iff PacketKind_from_u8_Inr_iff
        split: if_splits)
  from len show "request_id_wf (hdr_request_id h)"
    by (simp add: id header_consts)
  have "to_be 4 (hdr_seq h) = sub_slice buf SEQ_OFF HEADER_LEN"
    unfolding s by (rule to_be_from_be_u32) (use len in \<open>simp add: header_consts\<close>)
  with buffer_split [OF len] show "buf = Header_to_bytes h @ rest"
    by (simp add: Header_to_bytes_def ver k [unfolded One_nat_def] id rest)
qed

lemma Header_parse_Inr_iff:
  "Header_parse buf = Inr (h, rest) \<longleftrightarrow>
     buf = Header_to_bytes h @ rest \<and> request_id_wf (hdr_request_id h)"
  using Header_parse_InrD Header_parse_to_bytes by blast

lemma peek_of_parse:
  "Header_parse buf = Inr (h, rest) \<Longrightarrow> peek_request_id buf = Inr (hdr_request_id h)"
  by (auto simp: Header_parse_def peek_request_id_def Let_def rbind_Inr_iff split: if_splits)

lemma peek_Inr_iff:
  "peek_request_id buf = Inr r \<longleftrightarrow>
     HEADER_LEN \<le> length buf \<and> buf ! 0 = VERSION
     \<and> r = RequestId_from_bytes (sub_slice buf REQUEST_ID_OFF SEQ_OFF)"
  by (auto simp: peek_request_id_def)

section \<open>Properties\<close>

text \<open>
  C33: a buffer parses to a header and a remainder exactly when it is the 22-byte encoding of
  that header followed by the remainder; the wire form of a header is unique and loses nothing.
\<close>

theorem header_wire_format:
  "Header_parse buf = Inr (h, rest) \<longleftrightarrow>
     buf = Header_to_bytes h @ rest \<and> request_id_wf (hdr_request_id h)"
  by (rule Header_parse_Inr_iff)

end
