(* ===== verification/Pf4_Crypto.thy ===== *)
theory Pf4_Crypto
  imports Pf4_Header Pf4_Codec
begin

text \<open>
  \<open>protofish4-proto/src/crypto.rs\<close>, sealing and opening of datagrams and the derived nonce.  The
  ChaCha20-Poly1305 cipher is a dependency of the crate: it is the parameter \<open>A\<close>, a record of an
  encryption and a decryption function, and what the crate relies on is the predicate
  \<open>aead_correct\<close> (decryption inverts encryption under the same key, nonce and associated data,
  and a ciphertext is sixteen bytes longer than its plaintext).  A session key holds the bytes
  the cipher was built from.
\<close>

definition TAG_LEN :: usize where
  "TAG_LEN = 16"

definition KEY_LEN :: usize where
  "KEY_LEN = 32"

text \<open>The arguments of both operations: key, nonce, associated data, message.\<close>

record aead =
  encrypt :: "bytes \<Rightarrow> bytes \<Rightarrow> bytes \<Rightarrow> bytes \<Rightarrow> bytes option"
  decrypt :: "bytes \<Rightarrow> bytes \<Rightarrow> bytes \<Rightarrow> bytes \<Rightarrow> bytes option"

datatype SessionKey = SessionKey (cipher_key: bytes)

definition SessionKey_from_bytes :: "bytes \<Rightarrow> SessionKey result" where
  "SessionKey_from_bytes key =
     (if length key \<noteq> KEY_LEN then Inl (BadKeyLength (length key)) else Inr (SessionKey key))"

definition nonce_for :: "Direction \<Rightarrow> SeqClass \<Rightarrow> u32 \<Rightarrow> bytes" where
  "nonce_for dir class counter =
     [Direction_to_u8 dir, SeqClass_to_u8 class, 0, 0] @ to_be 8 (ucast counter :: u64)"

definition SessionKey_seal ::
  "aead \<Rightarrow> SessionKey \<Rightarrow> Header \<Rightarrow> Direction \<Rightarrow> bytes \<Rightarrow> bytes result" where
  "SessionKey_seal A key header dir plaintext =
     (let aad = Header_to_bytes header;
          nonce = nonce_for dir (PacketKind_seq_class (hdr_kind header)) (hdr_seq header)
      in rbind (ok_or (encrypt A (cipher_key key) nonce aad plaintext)
                  (DecryptFailed (hdr_request_id header)))
           (\<lambda>sealed. Inr (aad @ sealed)))"

definition SessionKey_open ::
  "aead \<Rightarrow> SessionKey \<Rightarrow> Header \<Rightarrow> Direction \<Rightarrow> bytes \<Rightarrow> bytes result" where
  "SessionKey_open A key header dir sealed =
     (let aad = Header_to_bytes header;
          nonce = nonce_for dir (PacketKind_seq_class (hdr_kind header)) (hdr_seq header)
      in ok_or (decrypt A (cipher_key key) nonce aad sealed) (DecryptFailed (hdr_request_id header)))"

definition crypto_seal ::
  "aead \<Rightarrow> SessionKey \<Rightarrow> Header \<Rightarrow> Direction \<Rightarrow> bytes \<Rightarrow> bytes result" where
  "crypto_seal A key header dir plaintext = SessionKey_seal A key header dir plaintext"

definition crypto_open ::
  "aead \<Rightarrow> SessionKey \<Rightarrow> bytes \<Rightarrow> Direction \<Rightarrow> (Header \<times> bytes) result" where
  "crypto_open A key datagram dir =
     rbind (Header_parse datagram) (\<lambda>(header, sealed).
       if PacketKind_direction (hdr_kind header) \<noteq> dir
       then Inl (WrongDirection (PacketKind_name (hdr_kind header)))
       else rbind (SessionKey_open A key header dir sealed) (\<lambda>plaintext. Inr (header, plaintext)))"

definition request_id_of :: "bytes \<Rightarrow> RequestId result" where
  "request_id_of datagram = peek_request_id datagram"

text \<open>Opening a datagram and decoding its body, as both endpoints do.\<close>

definition open_body :: "aead \<Rightarrow> SessionKey \<Rightarrow> Direction \<Rightarrow> bytes \<Rightarrow> (Header \<times> Body) result" where
  "open_body A key dir datagram =
     rbind (crypto_open A key datagram dir) (\<lambda>(header, plaintext).
     rbind (decode_body (hdr_kind header) plaintext) (\<lambda>body. Inr (header, body)))"

section \<open>What the crate relies on of the cipher\<close>

definition aead_correct :: "aead \<Rightarrow> bool" where
  "aead_correct A \<longleftrightarrow>
     (\<forall>k n a m c. encrypt A k n a m = Some c \<longrightarrow>
        decrypt A k n a c = Some m \<and> length c = length m + TAG_LEN)"

text \<open>
  A concrete cipher with these properties, so that statements about \<open>aead_correct\<close> have
  instances: the tag is the nonce followed by the sequence number of the header, which makes it
  no secret but easy to evaluate.
\<close>

definition demo_tag :: "bytes \<Rightarrow> bytes \<Rightarrow> bytes \<Rightarrow> bytes \<Rightarrow> bytes" where
  "demo_tag k n a m = take 16 (n @ take 4 (drop 18 a) @ k @ m @ replicate 16 0)"

definition demo_aead :: aead where
  "demo_aead = \<lparr>
     encrypt = (\<lambda>k n a m. Some (m @ demo_tag k n a m)),
     decrypt = (\<lambda>k n a c.
       let m = take (length c - 16) c in
       if 16 \<le> length c \<and> drop (length c - 16) c = demo_tag k n a m then Some m else None)\<rparr>"

lemma length_demo_tag [simp]: "length (demo_tag k n a m) = 16"
  unfolding demo_tag_def by (simp only: length_take length_append length_replicate)

lemma demo_aead_correct: "aead_correct demo_aead"
  by (simp add: aead_correct_def demo_aead_def TAG_LEN_def Let_def)

section \<open>Nonces\<close>

lemma length_nonce_for [simp]: "length (nonce_for d c n) = 12"
  by (simp add: nonce_for_def)

lemma nonce_for_inj:
  "nonce_for d c n = nonce_for d' c' n' \<longleftrightarrow> d = d' \<and> c = c' \<and> n = n'"
  by (auto simp: nonce_for_def Direction_to_u8_inj SeqClass_to_u8_inj to_be_inj_u64
      ucast_u32_u64_inj)

section \<open>Opening and sealing\<close>

lemma crypto_seal_Inr_iff:
  "crypto_seal A key h dir p = Inr d \<longleftrightarrow>
     (\<exists>c. encrypt A (cipher_key key) (nonce_for dir (PacketKind_seq_class (hdr_kind h)) (hdr_seq h))
            (Header_to_bytes h) p = Some c \<and> d = Header_to_bytes h @ c)"
  by (auto simp: crypto_seal_def SessionKey_seal_def Let_def rbind_Inr_iff)

lemma crypto_open_Inr_iff:
  "crypto_open A key d dir = Inr (h, p) \<longleftrightarrow>
     (\<exists>c. d = Header_to_bytes h @ c \<and> request_id_wf (hdr_request_id h)
        \<and> PacketKind_direction (hdr_kind h) = dir
        \<and> decrypt A (cipher_key key) (nonce_for dir (PacketKind_seq_class (hdr_kind h)) (hdr_seq h))
            (Header_to_bytes h) c = Some p)"
  by (auto simp: crypto_open_def SessionKey_open_def Let_def rbind_Inr_iff Header_parse_Inr_iff
      split: if_splits)

lemma open_seal:
  assumes "aead_correct A" and "request_id_wf (hdr_request_id h)"
    and "PacketKind_direction (hdr_kind h) = dir"
    and "crypto_seal A key h dir p = Inr d"
  shows "crypto_open A key d dir = Inr (h, p)"
  using assms by (auto simp: crypto_open_Inr_iff crypto_seal_Inr_iff aead_correct_def)

lemma length_seal:
  assumes "aead_correct A" and "request_id_wf (hdr_request_id h)"
    and "crypto_seal A key h dir p = Inr d"
  shows "length d = HEADER_LEN + length p + TAG_LEN"
  using assms by (auto simp: crypto_seal_Inr_iff aead_correct_def)

lemma open_routes:
  "crypto_open A key d dir = Inr (h, p) \<Longrightarrow> request_id_of d = Inr (hdr_request_id h)"
  unfolding crypto_open_Inr_iff request_id_of_def
  by (auto intro: peek_of_parse Header_parse_to_bytes)

lemma open_body_Inr_iff:
  "open_body A key dir d = Inr (h, b) \<longleftrightarrow>
     (\<exists>p. crypto_open A key d dir = Inr (h, p) \<and> decode_body (hdr_kind h) p = Inr b)"
  by (auto simp: open_body_def rbind_Inr_iff)

lemma open_body_sealed:
  assumes "aead_correct A" and "request_id_wf r" and "encode_body b = Inr p"
    and "PacketKind_direction (Body_kind b) = dir"
    and "crypto_seal A key (Header_new (Body_kind b) r s) dir p = Inr d"
  shows "open_body A key dir d = Inr (Header_new (Body_kind b) r s, b)"
  using open_seal [OF assms(1) _ _ assms(5)] decode_encode [OF assms(3)] assms(2,4)
  by (auto simp: open_body_Inr_iff)

section \<open>Properties\<close>

text \<open>
  C34: whatever body is encoded and sealed, opening the datagram with the same key in the
  direction of the body's kind and decoding it gives back the same header and the same body.
\<close>

theorem sealed_body_roundtrip:
  assumes "aead_correct A" and "request_id_wf r" and "encode_body b = Inr p"
    and "crypto_seal A key (Header_new (Body_kind b) r s) (PacketKind_direction (Body_kind b)) p = Inr d"
  shows "crypto_open A key d (PacketKind_direction (Body_kind b)) = Inr (Header_new (Body_kind b) r s, p)
    \<and> decode_body (Body_kind b) p = Inr b"
  using assms by (auto intro!: open_seal decode_encode)

definition demo_id :: RequestId where
  "demo_id = RequestId (replicate 16 7)"

definition demo_key :: SessionKey where
  "demo_key = SessionKey (replicate 32 9)"

lemma demo_id_wf [simp]: "request_id_wf demo_id"
  by (simp add: demo_id_def request_id_wf_def RequestId_LEN_def)

lemma demo_seals: "\<exists>d. crypto_seal demo_aead demo_key h dir p = Inr d"
  by (simp add: crypto_seal_Inr_iff demo_aead_def)

theorem sealed_body_roundtrip_witness:
  "\<exists>d. crypto_seal demo_aead demo_key (Header_new PK_End demo_id 3) Dir_Send [0, 0, 0, 5] = Inr d
     \<and> crypto_open demo_aead demo_key d Dir_Send = Inr (Header_new PK_End demo_id 3, [0, 0, 0, 5])
     \<and> decode_body PK_End [0, 0, 0, 5] = Inr (B_End 5)"
proof -
  obtain d where d: "crypto_seal demo_aead demo_key (Header_new PK_End demo_id 3) Dir_Send [0, 0, 0, 5] = Inr d"
    using demo_seals by blast
  have enc: "encode_body (B_End 5) = Inr [0, 0, 0, 5]" by code_simp
  show ?thesis
    using d sealed_body_roundtrip [OF demo_aead_correct demo_id_wf enc, of demo_key 3 d] by simp
qed

text \<open>
  A sealed datagram never exceeds the 1200-byte datagram budget the payload limit was chosen
  for, whatever the body.
\<close>

lemma datagram_fits_mtu:
  assumes "aead_correct A" and "request_id_wf r" and "encode_body b = Inr p"
    and "crypto_seal A key (Header_new k r s) dir p = Inr d"
  shows "length d \<le> 1200"
  using length_seal [OF assms(1) _ assms(4)] assms(2) length_encode_body [OF assms(3)]
  by (simp add: HEADER_LEN_def TAG_LEN_def MAX_PAYLOAD_def)

text \<open>
  A datagram is never accepted in the direction opposite to its packet kind, so reflecting a
  peer's own packets back at it is refused before decryption, with the kind in the error.
\<close>

lemma reflection_refused:
  assumes "request_id_wf (hdr_request_id h)" and "PacketKind_direction (hdr_kind h) = dir"
    and "crypto_seal A key h dir p = Inr d"
  shows "crypto_open A key d (Direction_peer dir) = Inl (WrongDirection (PacketKind_name (hdr_kind h)))"
proof -
  obtain c where "d = Header_to_bytes h @ c" using assms(3) by (auto simp: crypto_seal_Inr_iff)
  then have "Header_parse d = Inr (h, c)" using assms(1) by (simp add: Header_parse_Inr_iff)
  moreover have "dir \<noteq> Direction_peer dir" by (cases dir) simp_all
  ultimately show ?thesis using assms(2) by (simp add: crypto_open_def)
qed

lemma reflection_refused_instance:
  "\<exists>d. crypto_seal demo_aead demo_key (Header_new PK_Data demo_id 1) Dir_Send [0] = Inr d
     \<and> crypto_open demo_aead demo_key d Dir_Recv = Inl (WrongDirection ''Data'')"
proof -
  obtain d where d: "crypto_seal demo_aead demo_key (Header_new PK_Data demo_id 1) Dir_Send [0] = Inr d"
    using demo_seals by blast
  show ?thesis using d reflection_refused [OF _ _ d] by simp
qed

section \<open>Example datagrams\<close>

text \<open>What the example cipher makes of a body.\<close>

definition demo_sealed :: "Direction \<Rightarrow> XferSeq \<Rightarrow> Body \<Rightarrow> bytes \<Rightarrow> bytes" where
  "demo_sealed dir s b p =
     (let h = Header_new (Body_kind b) demo_id s
      in Header_to_bytes h @ p @ demo_tag (cipher_key demo_key)
           (nonce_for dir (PacketKind_seq_class (Body_kind b)) s) (Header_to_bytes h) p)"

lemma demo_seal:
  "crypto_seal demo_aead demo_key (Header_new (Body_kind b) demo_id s) dir p = Inr (demo_sealed dir s b p)"
  by (simp add: crypto_seal_Inr_iff demo_aead_def demo_sealed_def Let_def)

lemma demo_opens:
  "encode_body b = Inr p \<Longrightarrow> PacketKind_direction (Body_kind b) = dir \<Longrightarrow>
     open_body demo_aead demo_key dir (demo_sealed dir s b p) = Inr (Header_new (Body_kind b) demo_id s, b)"
  using open_body_sealed [OF demo_aead_correct demo_id_wf _ _ demo_seal] by blast

lemma demo_length:
  "encode_body b = Inr p \<Longrightarrow> length (demo_sealed dir s b p) \<le> 1200"
  by (rule datagram_fits_mtu [OF demo_aead_correct demo_id_wf _ demo_seal])

lemma demo_routes:
  "encode_body b = Inr p \<Longrightarrow> PacketKind_direction (Body_kind b) = dir \<Longrightarrow>
     request_id_of (demo_sealed dir s b p) = Inr demo_id"
  using open_routes demo_opens by (fastforce simp: open_body_Inr_iff)

text \<open>A payload frame of one byte.\<close>

definition demo_frame :: "u32 \<Rightarrow> u8 \<Rightarrow> bytes" where
  "demo_frame s x = demo_sealed Dir_Send s (B_Data 0 [x]) (to_be 8 (0 :: u64) @ [x])"

lemma demo_frame_opens:
  "open_body demo_aead demo_key Dir_Send (demo_frame s x) = Inr (Header_new PK_Data demo_id s, B_Data 0 [x])"
  using demo_opens [of "B_Data 0 [x]" "to_be 8 (0 :: u64) @ [x]" Dir_Send s]
  by (simp add: demo_frame_def MAX_PAYLOAD_def del: to_be.simps)

lemma demo_frame_length: "length (demo_frame s x) = 47"
  by (simp add: demo_frame_def demo_sealed_def Let_def Header_to_bytes_def)

lemma demo_frame_routes: "request_id_of (demo_frame s x) = Inr demo_id"
  using demo_routes [of "B_Data 0 [x]" "to_be 8 (0 :: u64) @ [x]" Dir_Send s]
  by (simp add: demo_frame_def MAX_PAYLOAD_def del: to_be.simps)

end
