(* ===== verification/Pf4_Endpoint.thy ===== *)
theory Pf4_Endpoint
  imports Pf4_Net Pf4_Crypto Pf4_Receiver_Props "HOL-Library.Sublist"
begin

text \<open>
  \<open>protofish4/src/receiver.rs\<close>: the sink's endpoint, one socket that serves many transfers.  The
  table of armed requests is a map from request ids to entries; an entry couples a receiving
  state machine with its key, the peer it learned, its control counter and the occupancy
  feedback.  The channels to the application and the clock belong to the environment: wherever
  the loop over the events reads the clock or offers a frame to a channel, the answer is an
  argument, one clock reading and one channel answer per event.  What an event causes is returned
  as a list of effects in order: datagrams to send, frames the channels accepted or refused, and
  the outcome.  How long a channel makes the endpoint wait is not modelled.
\<close>

section \<open>Occupancy feedback\<close>

record BufferFeedback =
  bf_playhead_ms :: u64
  bf_written_at_ms :: u64
  bf_epoch :: instant

definition BufferFeedback_default :: "instant \<Rightarrow> BufferFeedback" where
  "BufferFeedback_default now = \<lparr>bf_playhead_ms = 0, bf_written_at_ms = 0, bf_epoch = now\<rparr>"

definition set_playhead_ms :: "BufferFeedback \<Rightarrow> u64 \<Rightarrow> instant \<Rightarrow> BufferFeedback" where
  "set_playhead_ms fb ms now =
     fb\<lparr>bf_playhead_ms := ms,
        bf_written_at_ms := of_nat (as_millis (duration_since now (bf_epoch fb)))\<rparr>"

definition fresh_playhead_ms :: "BufferFeedback \<Rightarrow> instant \<Rightarrow> duration \<Rightarrow> u64 option" where
  "fresh_playhead_ms fb now ttl =
     (let written = from_millis (unat (bf_written_at_ms fb));
          reported_at = bf_epoch fb + int written
      in if duration_since now reported_at > ttl then None else Some (bf_playhead_ms fb))"

definition BUFFER_REPORT_TTL :: duration where
  "BUFFER_REPORT_TTL = from_secs 2"

definition DROP_WARN_INTERVAL :: duration where
  "DROP_WARN_INTERVAL = from_secs 5"

definition ack_buffered_ms :: "BufferFeedback \<Rightarrow> u16 \<Rightarrow> u64 \<Rightarrow> instant \<Rightarrow> u16" where
  "ack_buffered_ms fb state_ms newest_data_ms now =
     (case fresh_playhead_ms fb now BUFFER_REPORT_TTL of
        Some playhead \<Rightarrow> ucast (min (sat_sub newest_data_ms playhead) (ucast (-1 :: u16)))
      | None \<Rightarrow> state_ms)"

section \<open>Entries\<close>

record Entry =
  en_key :: SessionKey
  en_state :: XferReceiver
  en_peer :: "SocketAddr option"
  en_control_seq :: ControlSeq
  en_outcome_tx :: bool
  en_feedback :: BufferFeedback
  en_newest_data_ms :: u64
  en_dropped_unrel :: u64
  en_last_drop_warn :: "instant option"

definition Entry_new :: "SessionKey \<Rightarrow> ReceiverConfig \<Rightarrow> instant \<Rightarrow> instant \<Rightarrow> Entry" where
  "Entry_new key cfg feedback_at now = \<lparr>
     en_key = key,
     en_state = XferReceiver_new cfg now,
     en_peer = None,
     en_control_seq = ControlSeq_FIRST,
     en_outcome_tx = True,
     en_feedback = BufferFeedback_default feedback_at,
     en_newest_data_ms = 0,
     en_dropped_unrel = 0,
     en_last_drop_warn = None\<rparr>"

definition Entry_seal :: "aead \<Rightarrow> Entry \<Rightarrow> RequestId \<Rightarrow> Body \<Rightarrow> Entry \<times> bytes option" where
  "Entry_seal A e rid body =
     (let s = en_control_seq e;
          e1 = e\<lparr>en_control_seq := ControlSeq_next s\<rparr>;
          header = Header_new (Body_kind body) rid s
      in (e1, case encode_body body of
                Inl err \<Rightarrow> None
              | Inr plaintext \<Rightarrow>
                  (case crypto_seal A (en_key e1) header Dir_Recv plaintext of
                     Inl err \<Rightarrow> None | Inr d \<Rightarrow> Some d)))"

datatype Effect =
  Reply bytes
| ToUnrel Frame
| UnrelRefused Frame
| ToRel Frame
| RelRefused Frame
| Outcome RelOutcome

definition reply_with :: "aead \<Rightarrow> Entry \<Rightarrow> RequestId \<Rightarrow> Body \<Rightarrow> Entry \<times> Effect list" where
  "reply_with A e rid body =
     (let (e1, d) = Entry_seal A e rid body
      in (e1, case d of None \<Rightarrow> [] | Some bs \<Rightarrow> [Reply bs]))"

text \<open>
  One turn of the loop in \<open>apply\<close>: \<open>now\<close> is the clock reading and \<open>sent\<close> whether the channel took
  the frame, where the event asks for them.
\<close>

definition apply_one ::
  "aead \<Rightarrow> RequestId \<Rightarrow> instant \<times> bool \<Rightarrow> Entry \<Rightarrow> RecvEvent \<Rightarrow> Entry \<times> Effect list" where
  "apply_one A rid answer e ev =
     (let (now, sent) = answer in
      case ev of
        Unreliable f \<Rightarrow>
          (let e1 = e\<lparr>en_newest_data_ms := max (en_newest_data_ms e) (fr_ts f)\<rparr>
           in if sent then (e1, [ToUnrel f])
              else let e2 = e1\<lparr>en_dropped_unrel := en_dropped_unrel e1 + 1\<rparr>
                   in (if (case en_last_drop_warn e2 of
                             None \<Rightarrow> True
                           | Some t \<Rightarrow> duration_since now t \<ge> DROP_WARN_INTERVAL)
                       then e2\<lparr>en_last_drop_warn := Some now\<rparr> else e2, [UnrelRefused f]))
      | Reliable f \<Rightarrow>
          (e\<lparr>en_newest_data_ms := max (en_newest_data_ms e) (fr_ts f)\<rparr>,
           [if sent then ToRel f else RelRefused f])
      | SendNack gaps \<Rightarrow> reply_with A e rid (B_Nack gaps)
      | SendAck contiguous highest buffered_ms \<Rightarrow>
          reply_with A e rid (B_Ack contiguous highest
            (ack_buffered_ms (en_feedback e) buffered_ms (en_newest_data_ms e) now))
      | SendEndAck \<Rightarrow> reply_with A e rid B_EndAck
      | RelFinished outcome \<Rightarrow>
          (if en_outcome_tx e then (e\<lparr>en_outcome_tx := False\<rparr>, [Outcome outcome]) else (e, []))
      | Closed \<Rightarrow> (e, []))"

text \<open>The loop over the events; \<open>env\<close> holds the answers of the environment, one per event.\<close>

type_synonym env = "nat \<Rightarrow> instant \<times> bool"

fun apply_events :: "aead \<Rightarrow> RequestId \<Rightarrow> env \<Rightarrow> Entry \<Rightarrow> RecvEvent list \<Rightarrow> Entry \<times> Effect list" where
  "apply_events A rid env e [] = (e, [])"
| "apply_events A rid env e (ev # events) =
     andthen (apply_one A rid (env 0) e ev) (\<lambda>e'. apply_events A rid (env \<circ> Suc) e' events)"

fun replies :: "Effect list \<Rightarrow> bytes list" where
  "replies [] = []"
| "replies (Reply d # es) = d # replies es"
| "replies (_ # es) = replies es"

section \<open>The endpoint\<close>

type_synonym Endpoint = "RequestId \<rightharpoonup> Entry"

definition arm ::
  "Endpoint \<Rightarrow> RequestId \<Rightarrow> SessionKey \<Rightarrow> ReceiverConfig \<Rightarrow> instant \<Rightarrow> instant \<Rightarrow> Endpoint net_result" where
  "arm ep request_id key cfg feedback_at now =
     (if request_id \<in> dom ep then Inl (E_DuplicateRequest request_id)
      else Inr (ep(request_id \<mapsto> Entry_new key cfg feedback_at now)))"

definition disarm :: "Endpoint \<Rightarrow> RequestId \<Rightarrow> Endpoint" where
  "disarm ep request_id = ep(request_id := None)"

text \<open>What \<open>on_datagram\<close> does with the entry it found; nothing when the datagram does not open.\<close>

definition entry_datagram ::
  "aead \<Rightarrow> RequestId \<Rightarrow> Entry \<Rightarrow> bytes \<Rightarrow> SocketAddr \<Rightarrow> instant \<Rightarrow> env
    \<Rightarrow> (Entry \<times> Effect list) option" where
  "entry_datagram A rid e datagram src now env =
     (case crypto_open A (en_key e) datagram Dir_Send of
        Inl err \<Rightarrow> None
      | Inr (header, plaintext) \<Rightarrow>
          (case decode_body (hdr_kind header) plaintext of
             Inl err \<Rightarrow> None
           | Inr body \<Rightarrow>
               let e1 = (if en_peer e = None then e\<lparr>en_peer := Some src\<rparr> else e);
                   (st, events) = recv_handle (en_state e1) (hdr_seq header) body now
               in Some (apply_events A rid env (e1\<lparr>en_state := st\<rparr>) events)))"

text \<open>The part of \<open>on_datagram\<close> that holds the lock: the transfer that is over, if any, is reported.\<close>

definition on_datagram_locked ::
  "aead \<Rightarrow> Endpoint \<Rightarrow> bytes \<Rightarrow> SocketAddr \<Rightarrow> instant \<Rightarrow> env
    \<Rightarrow> Endpoint \<times> (RequestId \<times> Effect list) list \<times> (bytes \<times> SocketAddr) list \<times> RequestId option" where
  "on_datagram_locked A ep datagram src now env =
     (case request_id_of datagram of
        Inl err \<Rightarrow> (ep, [], [], None)
      | Inr rid \<Rightarrow>
          (case ep rid of
             None \<Rightarrow> (ep, [], [], None)
           | Some entry \<Rightarrow>
               (case entry_datagram A rid entry datagram src now env of
                  None \<Rightarrow> (ep, [], [], None)
                | Some (e, effects) \<Rightarrow>
                    (ep(rid \<mapsto> e), [(rid, effects)],
                     case en_peer e of None \<Rightarrow> [] | Some peer \<Rightarrow> map (\<lambda>d. (d, peer)) (replies effects),
                     if rx_closed (en_state e) then Some rid else None))))"

text \<open>All of \<open>on_datagram\<close>: the transfer that is over is disarmed once the lock was given up.\<close>

definition on_datagram ::
  "aead \<Rightarrow> Endpoint \<Rightarrow> bytes \<Rightarrow> SocketAddr \<Rightarrow> instant \<Rightarrow> env
    \<Rightarrow> Endpoint \<times> (RequestId \<times> Effect list) list \<times> (bytes \<times> SocketAddr) list" where
  "on_datagram A ep datagram src now env =
     (let (ep1, effs, outs, finished) = on_datagram_locked A ep datagram src now env
      in (case finished of None \<Rightarrow> ep1 | Some rid \<Rightarrow> disarm ep1 rid, effs, outs))"

lemma on_datagram_eq:
  "on_datagram A ep datagram src now env =
     (case request_id_of datagram of
        Inl err \<Rightarrow> (ep, [], [])
      | Inr rid \<Rightarrow>
          (case ep rid of
             None \<Rightarrow> (ep, [], [])
           | Some entry \<Rightarrow>
               (case entry_datagram A rid entry datagram src now env of
                  None \<Rightarrow> (ep, [], [])
                | Some (e, effects) \<Rightarrow>
                    let ep1 = ep(rid \<mapsto> e);
                        outbound = (case en_peer e of
                          None \<Rightarrow> [] | Some peer \<Rightarrow> map (\<lambda>d. (d, peer)) (replies effects))
                    in (if rx_closed (en_state e) then disarm ep1 rid else ep1,
                        [(rid, effects)], outbound))))"
  by (auto simp: on_datagram_def on_datagram_locked_def Let_def split: sum.splits option.splits)

definition entry_tick :: "aead \<Rightarrow> RequestId \<Rightarrow> Entry \<Rightarrow> instant \<Rightarrow> env \<Rightarrow> Entry \<times> Effect list" where
  "entry_tick A rid e now env =
     (let (st, events) = recv_tick (en_state e) now
      in apply_events A rid env (e\<lparr>en_state := st\<rparr>) events)"

text \<open>
  The loop of \<open>tick\<close> over the keys \<open>ids\<close> of the table, in the order its iterator yields them:
  the table, the effects per request, the datagrams to send, and the requests that are over.
\<close>

fun tick_loop ::
  "aead \<Rightarrow> instant \<Rightarrow> (RequestId \<Rightarrow> env) \<Rightarrow> RequestId list \<Rightarrow> Endpoint
    \<Rightarrow> Endpoint \<times> (RequestId \<times> Effect list) list \<times> (bytes \<times> SocketAddr) list \<times> RequestId list" where
  "tick_loop A now env [] ep = (ep, [], [], [])"
| "tick_loop A now env (rid # ids) ep =
     (case ep rid of
        None \<Rightarrow> tick_loop A now env ids ep
      | Some entry \<Rightarrow>
          let (e, effects) = entry_tick A rid entry now (env rid);
              outbound = (case en_peer e of None \<Rightarrow> [] | Some peer \<Rightarrow> map (\<lambda>d. (d, peer)) (replies effects));
              finished = (if rx_closed (en_state e) then [rid] else []);
              (ep', effs, outs, ds) = tick_loop A now env ids (ep(rid \<mapsto> e))
          in (ep', (rid, effects) # effs, outbound @ outs, finished @ ds))"

definition endpoint_tick ::
  "aead \<Rightarrow> instant \<Rightarrow> (RequestId \<Rightarrow> env) \<Rightarrow> RequestId list \<Rightarrow> Endpoint
    \<Rightarrow> Endpoint \<times> (RequestId \<times> Effect list) list \<times> (bytes \<times> SocketAddr) list" where
  "endpoint_tick A now env ids ep =
     (let (ep1, effs, outs, finished) = tick_loop A now env ids ep
      in (fold (\<lambda>rid t. disarm t rid) finished ep1, effs, outs))"

section \<open>Reading effects\<close>

fun to_rel :: "Effect list \<Rightarrow> Frame list" where
  "to_rel [] = []"
| "to_rel (ToRel f # es) = f # to_rel es"
| "to_rel (_ # es) = to_rel es"

text \<open>Every frame offered to a channel, accepted or not, and how many were refused.\<close>

fun offered_rel :: "Effect list \<Rightarrow> Frame list" where
  "offered_rel [] = []"
| "offered_rel (ToRel f # es) = f # offered_rel es"
| "offered_rel (RelRefused f # es) = f # offered_rel es"
| "offered_rel (_ # es) = offered_rel es"

fun offered_unrel :: "Effect list \<Rightarrow> Frame list" where
  "offered_unrel [] = []"
| "offered_unrel (ToUnrel f # es) = f # offered_unrel es"
| "offered_unrel (UnrelRefused f # es) = f # offered_unrel es"
| "offered_unrel (_ # es) = offered_unrel es"

fun refused_unrel :: "Effect list \<Rightarrow> nat" where
  "refused_unrel [] = 0"
| "refused_unrel (UnrelRefused f # es) = Suc (refused_unrel es)"
| "refused_unrel (_ # es) = refused_unrel es"

text \<open>
  What the endpoint relies on of the reliable channel: \<open>send\<close> fails only once the receiving half is
  gone, and then always.
\<close>

fun stays_closed :: "Effect list \<Rightarrow> bool" where
  "stays_closed [] = True"
| "stays_closed (RelRefused f # es) \<longleftrightarrow> to_rel es = []"
| "stays_closed (_ # es) \<longleftrightarrow> stays_closed es"

fun reported :: "Effect list \<Rightarrow> RelOutcome list" where
  "reported [] = []"
| "reported (Outcome o' # es) = o' # reported es"
| "reported (_ # es) = reported es"

lemma to_rel_append [simp]: "to_rel (es @ fs) = to_rel es @ to_rel fs"
  by (induction es rule: to_rel.induct) simp_all

lemma offered_rel_append [simp]: "offered_rel (es @ fs) = offered_rel es @ offered_rel fs"
  by (induction es rule: offered_rel.induct) simp_all

lemma offered_unrel_append [simp]: "offered_unrel (es @ fs) = offered_unrel es @ offered_unrel fs"
  by (induction es rule: offered_unrel.induct) simp_all

lemma refused_unrel_append [simp]: "refused_unrel (es @ fs) = refused_unrel es + refused_unrel fs"
  by (induction es rule: refused_unrel.induct) simp_all

lemma to_rel_prefix: "stays_closed effs \<Longrightarrow> prefix (to_rel effs) (offered_rel effs)"
  by (induction effs rule: stays_closed.induct) simp_all

lemma to_rel_all: "(\<forall>f. RelRefused f \<notin> set effs) \<Longrightarrow> to_rel effs = offered_rel effs"
  by (induction effs rule: offered_rel.induct) auto

lemma reported_append [simp]: "reported (es @ fs) = reported es @ reported fs"
  by (induction es rule: reported.induct) simp_all

lemma replies_append [simp]: "replies (es @ fs) = replies es @ replies fs"
  by (induction es rule: replies.induct) simp_all

text \<open>Which packet answers which event; every such event uses up one control number.\<close>

fun answers :: "RecvEvent \<Rightarrow> Body \<Rightarrow> bool" where
  "answers (SendNack m) b \<longleftrightarrow> b = B_Nack m"
| "answers (SendAck c h ms) b \<longleftrightarrow> (\<exists>ms'. b = B_Ack c h ms')"
| "answers SendEndAck b \<longleftrightarrow> b = B_EndAck"
| "answers _ b \<longleftrightarrow> False"

fun wants_reply :: "RecvEvent \<Rightarrow> bool" where
  "wants_reply (SendNack m) = True"
| "wants_reply (SendAck c h ms) = True"
| "wants_reply SendEndAck = True"
| "wants_reply _ = False"

definition reply_count :: "RecvEvent list \<Rightarrow> nat" where
  "reply_count es = length (filter wants_reply es)"

definition sink_sealed :: "aead \<Rightarrow> SessionKey \<Rightarrow> RequestId \<Rightarrow> nat \<times> Body \<Rightarrow> bytes \<Rightarrow> bool" where
  "sink_sealed A key rid kb d \<longleftrightarrow> (\<exists>p. encode_body (snd kb) = Inr p
     \<and> crypto_seal A key (Header_new (Body_kind (snd kb)) rid (of_nat (fst kb))) Dir_Recv p = Inr d)"

text \<open>The replies so far: sealed under increasing control numbers, each answering an event.\<close>

definition replies_ok ::
  "aead \<Rightarrow> SessionKey \<Rightarrow> RequestId \<Rightarrow> RecvEvent list \<Rightarrow> bytes list \<Rightarrow> bool" where
  "replies_ok A key rid es ds \<longleftrightarrow> (\<exists>ps. list_all2 (sink_sealed A key rid) ps ds
     \<and> sorted_wrt (<) (map fst ps) \<and> (\<forall>k \<in> fst ` set ps. k < reply_count es)
     \<and> (\<forall>b \<in> snd ` set ps. \<exists>ev \<in> set es. answers ev b))"

text \<open>
  What an entry has done with the events \<open>es\<close> its state machine returned, given the effects.
\<close>

definition applied ::
  "aead \<Rightarrow> SessionKey \<Rightarrow> RequestId \<Rightarrow> RecvEvent list \<Rightarrow> Effect list \<Rightarrow> Entry \<Rightarrow> bool" where
  "applied A key rid es effs e \<longleftrightarrow>
     en_key e = key
     \<and> offered_rel effs = reliable_frames es
     \<and> reported effs = take 1 (outcomes es) \<and> (en_outcome_tx e \<longleftrightarrow> outcomes es = [])
     \<and> offered_unrel effs = played es \<and> en_dropped_unrel e = of_nat (refused_unrel effs)
     \<and> en_control_seq e = of_nat (reply_count es)
     \<and> replies_ok A key rid es (replies effs)"

lemma replies_ok_silent: "replies_ok A key rid es ds \<Longrightarrow> \<not> wants_reply ev \<Longrightarrow> replies_ok A key rid (es @ [ev]) ds"
  unfolding replies_ok_def reply_count_def by auto

lemma replies_ok_dropped: "replies_ok A key rid es ds \<Longrightarrow> replies_ok A key rid (es @ [ev]) ds"
  unfolding replies_ok_def reply_count_def by (auto simp: less_Suc_eq)

lemma replies_ok_reply:
  assumes "replies_ok A key rid es ds" and "answers ev b" and "wants_reply ev"
    and "sink_sealed A key rid (reply_count es, b) d"
  shows "replies_ok A key rid (es @ [ev]) (ds @ [d])"
proof -
  obtain ps where ps: "list_all2 (sink_sealed A key rid) ps ds" "sorted_wrt (<) (map fst ps)"
    "\<forall>k \<in> fst ` set ps. k < reply_count es" "\<forall>b \<in> snd ` set ps. \<exists>ev \<in> set es. answers ev b"
    using assms(1) unfolding replies_ok_def by blast
  have "list_all2 (sink_sealed A key rid) (ps @ [(reply_count es, b)]) (ds @ [d])"
    using ps(1) assms(4) by (simp add: list_all2_appendI)
  moreover have "reply_count (es @ [ev]) = Suc (reply_count es)"
    using assms(3) by (simp add: reply_count_def)
  ultimately show ?thesis
    unfolding replies_ok_def using ps(2-4) assms(2)
    by (intro exI [of _ "ps @ [(reply_count es, b)]"]) (auto simp: sorted_wrt_append less_SucI)
qed

text \<open>One event.\<close>

lemma reliable_frames_snoc [simp]: "reliable_frames (es @ fs) = reliable_frames es @ reliable_frames fs"
  by (simp add: reliable_frames_def)

lemma outcomes_snoc [simp]: "outcomes (es @ fs) = outcomes es @ outcomes fs"
  by (simp add: outcomes_def)

lemma single_event [simp]:
  "reliable_frames [ev] = event_released ev" "outcomes [ev] = event_outcome ev"
  "reply_count (es @ [ev]) = (if wants_reply ev then Suc (reply_count es) else reply_count es)"
  by (simp_all add: reliable_frames_def outcomes_def reply_count_def)

lemma applied_reply:
  assumes inv: "applied A key rid es effs e" and ans: "answers ev b" and wants: "wants_reply ev"
  shows "applied A key rid (es @ [ev]) (effs @ snd (reply_with A e rid b)) (fst (reply_with A e rid b))"
proof -
  have ev: "event_released ev = []" "event_outcome ev = []" "event_played ev = []"
    using wants by (cases ev; simp)+
  have key: "en_key e = key" and seq: "en_control_seq e = of_nat (reply_count es)"
    and ok: "replies_ok A key rid es (replies effs)" using inv by (simp_all add: applied_def)
  let ?d = "snd (Entry_seal A e rid b)"
  have "replies_ok A key rid (es @ [ev]) (replies (effs @ snd (reply_with A e rid b)))"
  proof (cases ?d)
    case None
    then show ?thesis using replies_ok_dropped [OF ok]
      by (simp add: reply_with_def split_beta Let_def)
  next
    case (Some d)
    then have "sink_sealed A key rid (reply_count es, b) d"
      using key seq by (auto simp: Entry_seal_def sink_sealed_def Let_def split: sum.splits)
    then show ?thesis using replies_ok_reply [OF ok ans wants] Some
      by (simp add: reply_with_def split_beta Let_def)
  qed
  moreover have "fst (reply_with A e rid b) = e\<lparr>en_control_seq := en_control_seq e + 1\<rparr>"
    by (simp add: reply_with_def Entry_seal_def ControlSeq_next_def Let_def)
  moreover have "offered_rel (snd (reply_with A e rid b)) = []" "offered_unrel (snd (reply_with A e rid b)) = []"
    "refused_unrel (snd (reply_with A e rid b)) = 0" "reported (snd (reply_with A e rid b)) = []"
    by (simp_all add: reply_with_def split_beta Let_def split: option.splits)
  ultimately show ?thesis using inv ev wants by (simp add: applied_def add.commute)
qed

lemma applied_one:
  assumes inv: "applied A key rid es effs e"
  shows "applied A key rid (es @ [ev]) (effs @ snd (apply_one A rid a e ev)) (fst (apply_one A rid a e ev))"
proof (cases "wants_reply ev")
  case True
  then show ?thesis
    using applied_reply [OF inv, of ev] by (cases ev) (auto simp: apply_one_def split: prod.splits)
next
  case False
  note silent = replies_ok_silent [OF _ False, of A key rid es "replies effs"]
  show ?thesis
  proof (cases ev)
    case (Unreliable f)
    then show ?thesis using inv silent
      by (auto simp: applied_def apply_one_def Let_def add.commute split: prod.splits)
  next
    case (Reliable f)
    then show ?thesis using inv silent by (auto simp: applied_def apply_one_def split: prod.splits)
  next
    case (RelFinished o')
    then show ?thesis using inv silent by (auto simp: applied_def apply_one_def Suc_le_eq split: prod.splits)
  next
    case Closed
    then show ?thesis using inv silent by (auto simp: applied_def apply_one_def split: prod.splits)
  qed (use False in simp_all)
qed

lemma applied_events:
  "applied A key rid es effs e \<Longrightarrow>
     applied A key rid (es @ evs) (effs @ snd (apply_events A rid env e evs)) (fst (apply_events A rid env e evs))"
proof (induction evs arbitrary: env e es effs)
  case Nil
  then show ?case by simp
next
  case (Cons ev evs)
  from Cons.IH [OF applied_one [OF Cons.prems], of ev "env 0" "env \<circ> Suc"] show ?case by (simp add: comp_def)
qed

section \<open>One entry as a machine\<close>

text \<open>
  Everything that can happen to an entry while it is armed: a datagram routed to it, a tick, and a
  play head report of the application.
\<close>

datatype EntryInput =
  EDatagram bytes SocketAddr instant env
| ETick instant env
| EPlayhead u64 instant

fun entry_step :: "aead \<Rightarrow> RequestId \<Rightarrow> Entry \<Rightarrow> EntryInput \<Rightarrow> Entry \<times> Effect list" where
  "entry_step A rid e (EDatagram d src now env) =
     (case entry_datagram A rid e d src now env of None \<Rightarrow> (e, []) | Some r \<Rightarrow> r)"
| "entry_step A rid e (ETick now env) = entry_tick A rid e now env"
| "entry_step A rid e (EPlayhead ms now) =
     (e\<lparr>en_feedback := set_playhead_ms (en_feedback e) ms now\<rparr>, [])"

lemma entry_datagram_eq:
  "entry_datagram A rid e d src now env =
     (case open_body A (en_key e) Dir_Send d of
        Inl err \<Rightarrow> None
      | Inr (h, b) \<Rightarrow>
          let e1 = (if en_peer e = None then e\<lparr>en_peer := Some src\<rparr> else e);
              (st, events) = recv_handle (en_state e1) (hdr_seq h) b now
          in Some (apply_events A rid env (e1\<lparr>en_state := st\<rparr>) events))"
  by (auto simp: entry_datagram_def open_body_def Let_def split: sum.splits)

text \<open>The state machine of an entry has seen only packets opened from datagrams of the inputs.\<close>

definition arrived_from :: "aead \<Rightarrow> SessionKey \<Rightarrow> EntryInput list \<Rightarrow> XferSeq \<Rightarrow> Body \<Rightarrow> bool" where
  "arrived_from A key ins s b \<longleftrightarrow> (\<exists>d src now env h. EDatagram d src now env \<in> set ins
     \<and> open_body A key Dir_Send d = Inr (h, b) \<and> hdr_seq h = s)"

definition fed ::
  "aead \<Rightarrow> SessionKey \<Rightarrow> RequestId \<Rightarrow> ReceiverConfig \<Rightarrow> instant \<Rightarrow> EntryInput list \<Rightarrow> RecvInput list
    \<Rightarrow> Effect list \<Rightarrow> Entry \<Rightarrow> bool" where
  "fed A key rid cfg t0 ins ris effs e \<longleftrightarrow>
     en_state e = final recv_step (XferReceiver_new cfg t0) ris
     \<and> (\<forall>s b now. Packet s b now \<in> set ris \<longrightarrow> arrived_from A key ins s b)
     \<and> applied A key rid (trace recv_step (XferReceiver_new cfg t0) ris) effs e"

text \<open>And it has seen all of them.\<close>

definition heard :: "aead \<Rightarrow> SessionKey \<Rightarrow> EntryInput list \<Rightarrow> RecvInput list \<Rightarrow> bool" where
  "heard A key ins ris \<longleftrightarrow> (\<forall>s b. arrived_from A key ins s b \<longrightarrow> (\<exists>now. Packet s b now \<in> set ris))"

definition entry_inv ::
  "aead \<Rightarrow> SessionKey \<Rightarrow> RequestId \<Rightarrow> ReceiverConfig \<Rightarrow> instant \<Rightarrow> EntryInput list
    \<Rightarrow> Effect list \<Rightarrow> Entry \<Rightarrow> bool" where
  "entry_inv A key rid cfg t0 ins effs e \<longleftrightarrow>
     (\<exists>ris. fed A key rid cfg t0 ins ris effs e \<and> heard A key ins ris)"

lemma applied_update:
  "applied A key rid es effs (e\<lparr>en_state := st\<rparr>) = applied A key rid es effs e"
  "applied A key rid es effs (e\<lparr>en_peer := pr\<rparr>) = applied A key rid es effs e"
  "applied A key rid es effs (e\<lparr>en_feedback := fb\<rparr>) = applied A key rid es effs e"
  by (simp_all add: applied_def)

lemma apply_events_state [simp]: "en_state (fst (apply_events A rid env e evs)) = en_state e"
proof (induction evs arbitrary: env e)
  case Nil
  then show ?case by simp
next
  case (Cons ev evs)
  have "en_state (fst (apply_one A rid a e ev)) = en_state e" for a
    by (cases ev) (simp_all add: apply_one_def reply_with_def Entry_seal_def Let_def split_beta)
  then show ?case using Cons by simp
qed

lemma arrived_from_mono: "arrived_from A key ins s b \<Longrightarrow> arrived_from A key (ins @ js) s b"
  unfolding arrived_from_def by auto

lemma fed_inputs: "fed A key rid cfg t0 ins ris effs e \<Longrightarrow> fed A key rid cfg t0 (ins @ js) ris effs e"
  unfolding fed_def using arrived_from_mono by blast

text \<open>A step of the state machine followed by the application of its events.\<close>

lemma fed_call:
  assumes fed: "fed A key rid cfg t0 ins ris effs e"
    and src: "\<And>s b now. i = Packet s b now \<Longrightarrow> arrived_from A key ins s b"
    and step: "recv_step (en_state e) i = (st, evs)"
    and e': "en_state e' = en_state e" "\<And>es. applied A key rid es effs e \<Longrightarrow> applied A key rid es effs e'"
  shows "fed A key rid cfg t0 ins (ris @ [i])
    (effs @ snd (apply_events A rid env (e'\<lparr>en_state := st\<rparr>) evs))
    (fst (apply_events A rid env (e'\<lparr>en_state := st\<rparr>) evs))"
proof -
  have state: "en_state e = final recv_step (XferReceiver_new cfg t0) ris" using fed by (simp add: fed_def)
  then have st: "st = final recv_step (XferReceiver_new cfg t0) (ris @ [i])"
    and evs: "trace recv_step (XferReceiver_new cfg t0) (ris @ [i])
      = trace recv_step (XferReceiver_new cfg t0) ris @ evs"
    using step by (simp_all add: final_snoc trace_snoc)
  have "applied A key rid (trace recv_step (XferReceiver_new cfg t0) ris) effs (e'\<lparr>en_state := st\<rparr>)"
    using fed e'(2) by (simp add: fed_def applied_update)
  note app = applied_events [OF this, of evs env]
  have old: "\<forall>s b now. Packet s b now \<in> set ris \<longrightarrow> arrived_from A key ins s b"
    using fed unfolding fed_def by blast
  have new: "arrived_from A key ins s b" if "Packet s b now \<in> set (ris @ [i])" for s b now
    using that old src [of s b now] by (simp only: set_append list.set Un_iff insert_iff empty_iff) blast
  show ?thesis unfolding fed_def evs using app new by (simp add: st)
qed

lemma heard_other:
  assumes "heard A key ins ris"
    and "\<And>d src now env. i = EDatagram d src now env \<Longrightarrow> \<not> is_ok (open_body A key Dir_Send d)"
  shows "heard A key (ins @ [i]) (ris @ ks)"
proof -
  have "arrived_from A key ins s b" if "arrived_from A key (ins @ [i]) s b" for s b
    using that assms(2) unfolding arrived_from_def by force
  then show ?thesis using assms(1) unfolding heard_def by fastforce
qed

lemma heard_packet:
  assumes "heard A key ins ris" and "open_body A key Dir_Send d = Inr (h, b)"
  shows "heard A key (ins @ [EDatagram d src now env]) (ris @ [Packet (hdr_seq h) b now])"
proof -
  have "arrived_from A key ins s b' \<or> s = hdr_seq h \<and> b' = b"
    if "arrived_from A key (ins @ [EDatagram d src now env]) s b'" for s b'
    using that assms(2) unfolding arrived_from_def by force
  then show ?thesis using assms(1) unfolding heard_def by fastforce
qed

lemma entry_inv_datagram:
  assumes fed: "fed A key rid cfg t0 ins ris effs e" and heard: "heard A key ins ris"
    and opens: "open_body A key Dir_Send d = Inr (h, b)"
  shows "entry_inv A key rid cfg t0 (ins @ [EDatagram d src now env])
    (effs @ snd (entry_step A rid e (EDatagram d src now env))) (fst (entry_step A rid e (EDatagram d src now env)))"
proof -
  let ?i = "EDatagram d src now env" and ?k = "Packet (hdr_seq h) b now"
  let ?e1 = "if en_peer e = None then e\<lparr>en_peer := Some src\<rparr> else e"
  obtain st evs where step: "recv_step (en_state e) ?k = (st, evs)" by force
  have "arrived_from A key (ins @ [?i]) (hdr_seq h) b" using opens by (auto simp: arrived_from_def)
  then have "fed A key rid cfg t0 (ins @ [?i]) (ris @ [?k])
    (effs @ snd (apply_events A rid env (?e1\<lparr>en_state := st\<rparr>) evs)) (fst (apply_events A rid env (?e1\<lparr>en_state := st\<rparr>) evs))"
    by (intro fed_call [OF fed_inputs [OF fed] _ step]) (auto simp: applied_update)
  moreover have "entry_step A rid e ?i = apply_events A rid env (?e1\<lparr>en_state := st\<rparr>) evs"
    using opens fed step by (auto simp: entry_datagram_eq fed_def applied_def Let_def)
  moreover have "heard A key (ins @ [?i]) (ris @ [?k])" using heard_packet [OF heard] opens by simp
  ultimately show ?thesis by (auto simp: entry_inv_def)
qed

lemma entry_step_inv:
  assumes "entry_inv A key rid cfg t0 ins effs e"
  shows "entry_inv A key rid cfg t0 (ins @ [i]) (effs @ snd (entry_step A rid e i)) (fst (entry_step A rid e i))"
proof -
  obtain ris where fed0: "fed A key rid cfg t0 ins ris effs e" and heard0: "heard A key ins ris"
    using assms by (auto simp: entry_inv_def)
  note fed = fed_inputs [OF fed0, of "[i]"]
  have key: "en_key e = key" using fed0 by (simp add: fed_def applied_def)
  have other: "heard A key (ins @ [i]) (ris @ ks)"
    if "\<And>d src now env. i = EDatagram d src now env \<Longrightarrow> \<not> is_ok (open_body A key Dir_Send d)" for ks
    using heard_other [OF heard0 that] by simp
  have app: ?thesis
    if "entry_step A rid e i = (e', [])" "en_state e' = en_state e"
      "\<And>es. applied A key rid es effs e \<Longrightarrow> applied A key rid es effs e'" "\<And>d src now env. i \<noteq> EDatagram d src now env" for e'
    using fed that other [of "[]"] by (auto simp: fed_def entry_inv_def)
  have done': "?thesis" if "fed A key rid cfg t0 (ins @ [i]) (ris @ ks)
      (effs @ snd (entry_step A rid e i)) (fst (entry_step A rid e i))" "heard A key (ins @ [i]) (ris @ ks)" for ks
    using that by (auto simp: entry_inv_def)
  show ?thesis
  proof (cases i)
    case (EDatagram d src now env)
    show ?thesis
    proof (cases "open_body A key Dir_Send d")
      case (Inl err)
      then show ?thesis using fed key EDatagram other [of "[]"] by (intro done' [of "[]"]) (auto simp: entry_datagram_eq)
    next
      case (Inr hb)
      then show ?thesis using EDatagram entry_inv_datagram [OF fed0 heard0] by (cases hb) simp
    qed
  next
    case (ETick now env)
    obtain st evs where step: "recv_step (en_state e) (RTick now) = (st, evs)" by force
    have "fed A key rid cfg t0 (ins @ [i]) (ris @ [RTick now])
        (effs @ snd (apply_events A rid env (e\<lparr>en_state := st\<rparr>) evs))
        (fst (apply_events A rid env (e\<lparr>en_state := st\<rparr>) evs))"
      by (rule fed_call [OF fed _ step]) auto
    then show ?thesis using ETick step other [of "[RTick now]"]
      by (intro done' [of "[RTick now]"]) (auto simp: entry_tick_def)
  qed (rule app, simp, simp, simp add: applied_update, simp)+
qed

lemma entry_inv_new: "entry_inv A key rid cfg t0 [] [] (Entry_new key cfg t1 t0)"
proof -
  have "fed A key rid cfg t0 [] [] [] (Entry_new key cfg t1 t0)"
    by (simp add: fed_def applied_def Entry_new_def reliable_frames_def outcomes_def replies_ok_def
        reply_count_def ControlSeq_FIRST_def)
  moreover have "heard A key [] []" by (simp add: heard_def arrived_from_def)
  ultimately show ?thesis by (auto simp: entry_inv_def)
qed

interpretation entry: history_invariant "entry_step A rid" "Entry_new key cfg t1 t0"
  "entry_inv A key rid cfg t0" for A rid key cfg t1 t0
  by unfold_locales (rule entry_inv_new, rule entry_step_inv)

section \<open>The table\<close>

lemma entry_tick_state: "en_state (fst (entry_tick A rid e now env)) = fst (recv_tick (en_state e) now)"
  by (simp add: entry_tick_def split_beta Let_def)

lemma entry_datagram_None_iff:
  "entry_datagram A rid e d src now env = None \<longleftrightarrow> \<not> is_ok (open_body A (en_key e) Dir_Send d)"
  by (cases "open_body A (en_key e) Dir_Send d") (auto simp: entry_datagram_eq Let_def split_beta)

lemma on_datagram_other:
  "request_id_of d \<noteq> Inr rid \<Longrightarrow> fst (on_datagram A ep d src now env) rid = ep rid"
  by (auto simp: on_datagram_eq disarm_def Let_def split: sum.splits option.splits)

lemma apply_events_peer: "en_peer (fst (apply_events A rid env e evs)) = en_peer e"
proof (induction evs arbitrary: env e)
  case Nil
  then show ?case by simp
next
  case (Cons ev evs)
  have "en_peer (fst (apply_one A rid a e ev)) = en_peer e" for a
    by (cases ev) (simp_all add: apply_one_def reply_with_def Entry_seal_def Let_def split_beta)
  then show ?case using Cons by simp
qed

lemma entry_step_peer: "en_peer e = Some p \<Longrightarrow> en_peer (fst (entry_step A rid e i)) = Some p"
  by (cases i)
    (auto simp: entry_datagram_eq entry_tick_def apply_events_peer Let_def split_beta split: sum.splits option.splits)

text \<open>The loop of \<open>tick\<close> treats every entry once, independently of the order.\<close>

lemma tick_loop_spec:
  assumes "distinct ids" and "tick_loop A now env ids ep = (ep', effs, outs, finished)"
  shows "ep' rid = (if rid \<in> set ids then map_option (\<lambda>e. fst (entry_tick A rid e now (env rid))) (ep rid) else ep rid)
    \<and> (rid \<in> set finished \<longleftrightarrow> rid \<in> set ids \<and> (\<exists>e. ep' rid = Some e \<and> rx_closed (en_state e)))"
  using assms
proof (induction ids arbitrary: ep ep' effs outs finished)
  case Nil
  then show ?case by simp
next
  case (Cons i ids)
  show ?case
  proof (cases "ep i")
    case None
    then have rest: "tick_loop A now env ids ep = (ep', effs, outs, finished)" using Cons.prems(2) by simp
    show ?thesis using Cons.IH [OF _ rest] Cons.prems(1) None by auto
  next
    case (Some e)
    let ?e = "fst (entry_tick A i e now (env i))"
    obtain ep1 effs1 outs1 fin1 where rest: "tick_loop A now env ids (ep(i \<mapsto> ?e)) = (ep1, effs1, outs1, fin1)"
      by (metis prod_cases4)
    have eqs: "ep' = ep1" "finished = (if rx_closed (en_state ?e) then [i] else []) @ fin1"
      using Cons.prems(2) Some rest by (auto simp: Let_def split_beta)
    have "i \<notin> set ids" using Cons.prems(1) by simp
    then show ?thesis using Cons.IH [OF _ rest] Cons.prems(1) Some unfolding eqs by auto
  qed
qed

lemma fold_disarm: "fold (\<lambda>i t. disarm t i) xs ep rid = (if rid \<in> set xs then None else ep rid)"
  by (induction xs arbitrary: ep) (auto simp: disarm_def)

text \<open>The occupancy field, over natural numbers.\<close>

lemma occupancy_value:
  "unat (ack_buffered_ms fb st newest now) =
     (if duration_since now (bf_epoch fb + int (from_millis (unat (bf_written_at_ms fb)))) \<le> from_secs 2
      then min (unat newest - unat (bf_playhead_ms fb)) 65535 else unat st)"
proof -
  have "unat (ucast (min x (ucast (-1 :: u16))) :: u16) = min (unat x) 65535" for x :: u64
  proof -
    have m: "(ucast (-1 :: u16) :: u64) = 65535"
      by (simp add: unsigned_minus_1_eq_mask mask_eq_exp_minus_1)
    have "unat (min x 65535) = min (unat x) 65535" by (simp add: min_def word_le_nat_alt)
    moreover have "unat (ucast (min x 65535) :: u16) = unat (min x 65535) mod 2 ^ 16"
      by (simp add: unsigned_ucast_eq take_bit_eq_mod)
    ultimately show ?thesis unfolding m by simp
  qed
  then show ?thesis
    by (auto simp: ack_buffered_ms_def fresh_playhead_ms_def BUFFER_REPORT_TTL_def Let_def unat_simps)
qed

section \<open>Properties\<close>

text \<open>
  C30: a datagram that does not carry the id of an armed request, or does not open and decode under
  that request's key, changes nothing and provokes no reply: no entry, no peer address, no timer.
\<close>

theorem unauthentic_datagram_ignored:
  "(\<exists>rid e. request_id_of d = Inr rid \<and> ep rid = Some e \<and> is_ok (open_body A (en_key e) Dir_Send d))
   \<or> on_datagram A ep d src now env = (ep, [], [])"
proof (cases "request_id_of d")
  case (Inl err)
  then show ?thesis by (simp add: on_datagram_eq)
next
  case (Inr rid)
  show ?thesis
  proof (cases "\<exists>e. ep rid = Some e \<and> is_ok (open_body A (en_key e) Dir_Send d)")
    case True
    then show ?thesis using Inr by blast
  next
    case False
    then show ?thesis using Inr entry_datagram_None_iff [of A rid "the (ep rid)" d src now env]
      by (cases "ep rid") (simp_all add: on_datagram_eq)
  qed
qed

text \<open>
  Transfers do not interfere: a datagram changes at most the entry of the request id it names,
  and that entry moves by one step of its own, leaving the table once its transfer is closed.
\<close>

lemma datagram_moves_one_entry:
  "fst (on_datagram A ep d src now env) rid =
     (if request_id_of d = Inr rid
      then (case ep rid of
              None \<Rightarrow> None
            | Some e \<Rightarrow>
                if is_ok (open_body A (en_key e) Dir_Send d)
                   \<and> rx_closed (en_state (fst (entry_step A rid e (EDatagram d src now env))))
                then None
                else Some (fst (entry_step A rid e (EDatagram d src now env))))
      else ep rid)"
proof (cases "request_id_of d = Inr rid")
  case False
  then show ?thesis by (simp add: on_datagram_other)
next
  case True
  show ?thesis
  proof (cases "ep rid")
    case None
    then show ?thesis using True by (simp add: on_datagram_eq)
  next
    case (Some e)
    then show ?thesis using True entry_datagram_None_iff [of A rid e d src now env]
      by (cases "entry_datagram A rid e d src now env")
        (auto simp: on_datagram_eq disarm_def Let_def)
  qed
qed

text \<open>
  A tick gives every armed entry exactly one step, in whatever order the table yields them,
  and removes exactly those whose transfer is closed by it.
\<close>

lemma tick_serves_every_entry:
  assumes "distinct ids" and "set ids = dom ep"
  shows "fst (endpoint_tick A now env ids ep) rid =
     (case ep rid of
        None \<Rightarrow> None
      | Some e \<Rightarrow>
          let e' = fst (entry_tick A rid e now (env rid)) in if rx_closed (en_state e') then None else Some e')"
proof -
  obtain ep' effs outs fin where t: "tick_loop A now env ids ep = (ep', effs, outs, fin)"
    by (metis prod_cases4)
  from tick_loop_spec [OF assms(1) t, of rid] show ?thesis
    using assms(2) by (cases "ep rid") (auto simp: endpoint_tick_def t fold_disarm Let_def dom_def)
qed

text \<open>
  Once an entry has learned its peer from an authenticated datagram, nothing changes it: a
  later datagram from another address cannot redirect the replies.
\<close>

lemma peer_is_pinned:
  assumes "en_peer e = Some p"
  shows "en_peer (final (entry_step A rid) e ins) = Some p"
  using assms by (induction ins arbitrary: e) (simp_all add: split_beta entry_step_peer)

text \<open>
  The replies of an entry are sealed under strictly increasing control numbers, each of them
  answers an event of the state machine, and none is sealed twice.
\<close>

lemma replies_use_increasing_numbers:
  "\<exists>ps. list_all2 (sink_sealed A key rid) ps (replies (trace (entry_step A rid) (Entry_new key cfg t1 t0) ins))
     \<and> sorted_wrt (<) (map fst ps)"
  using entry.holds [of A key rid cfg t0 ins t1]
  unfolding entry_inv_def fed_def applied_def replies_ok_def by blast

text \<open>
  An entry whose sink has never reported anything acts, for its first two seconds, as if the
  sink had reported a play head of zero: everything received counts as unplayed.
\<close>

lemma unreported_playhead_counts_as_zero:
  assumes "duration_since now t \<le> from_secs 2"
  shows "unat (ack_buffered_ms (BufferFeedback_default t) st newest now) = min (unat newest) 65535"
  using assms by (simp add: occupancy_value BufferFeedback_default_def from_millis_def)

end
