(* ===== verification/Pf4_Endpoint_Run.thy ===== *)
theory Pf4_Endpoint_Run
  imports Pf4_Endpoint "HOL-Library.Multiset"
begin

text \<open>
  The endpoint of \<open>protofish4/src/receiver.rs\<close> as a whole: binding, the read loop, the guard that
  disarms when dropped, and all tasks interleaved.  Every critical section under the table's lock is one step, so that a handler
  that gives the lock up in the middle (\<open>on_datagram\<close>, which sends its replies and disarms
  afterwards) and the task a dropped \<open>ArmedRequest\<close> spawns may be interleaved with everything else.
  The endpoint is shown to be the product of independent slots, one per request id: what happens
  to a transfer is a function of the inputs that name it.
\<close>

section \<open>Binding and reading\<close>

definition Endpoint_bind :: "net \<Rightarrow> SocketAddr \<Rightarrow> Endpoint net_result" where
  "Endpoint_bind N addr = (case from_io (net_bind N addr) of Inl e \<Rightarrow> Inl e | Inr u \<Rightarrow> Inr Map.empty)"

text \<open>The read buffer: a longer datagram is cut off by the socket.\<close>

definition READ_BUF :: usize where
  "READ_BUF = 2048"

definition read_from :: "bytes \<Rightarrow> bytes" where
  "read_from datagram = take READ_BUF datagram"

datatype ReadAnswer = Read_ok bytes SocketAddr instant env | Read_failed io_error

text \<open>The loop of \<open>run\<close>; it ends with the first read error and otherwise waits for more.\<close>

fun run_endpoint ::
  "aead \<Rightarrow> Endpoint \<Rightarrow> ReadAnswer list
    \<Rightarrow> Endpoint \<times> (RequestId \<times> Effect list) list \<times> (bytes \<times> SocketAddr) list \<times> NetError option" where
  "run_endpoint A ep [] = (ep, [], [], None)"
| "run_endpoint A ep (Read_failed e # reads) = (ep, [], [], Some (E_Io e))"
| "run_endpoint A ep (Read_ok d src now env # reads) =
     (let (ep1, effs1, outs1) = on_datagram A ep (read_from d) src now env;
          (ep2, effs2, outs2, r) = run_endpoint A ep1 reads
      in (ep2, effs1 @ effs2, outs1 @ outs2, r))"

text \<open>The guard returned by \<open>arm\<close>; dropping it spawns a task that disarms.\<close>

record ArmedRequest =
  ar_request_id :: RequestId

definition ArmedRequest_drop :: "Endpoint \<Rightarrow> ArmedRequest \<Rightarrow> Endpoint" where
  "ArmedRequest_drop ep a = (let rid = ar_request_id a in disarm ep rid)"

section \<open>All tasks interleaved\<close>

text \<open>
  A tick visits the keys in an order of the hash map's choosing: some permutation of them.
\<close>

definition table_keys :: "(RequestId list \<Rightarrow> RequestId list) \<Rightarrow> Endpoint \<Rightarrow> RequestId list" where
  "table_keys order ep =
     (let ks = sorted_list_of_set (dom ep) in if mset (order ks) = mset ks then order ks else ks)"

datatype EpInput =
  EpArm RequestId SessionKey ReceiverConfig instant instant
| EpDrop ArmedRequest
| EpDisarm RequestId
| EpRead bytes SocketAddr instant env
| EpTick instant "RequestId \<Rightarrow> env" "RequestId list \<Rightarrow> RequestId list"
| EpPlayhead RequestId u64 instant

datatype EpEvent =
  EpArmed ArmedRequest
| EpRefused NetError
| EpEffect RequestId Effect
| EpSent bytes SocketAddr

definition ep_events :: "(RequestId \<times> Effect list) list \<Rightarrow> (bytes \<times> SocketAddr) list \<Rightarrow> EpEvent list" where
  "ep_events effs outs =
     concat (map (\<lambda>(rid, es). map (EpEffect rid) es) effs) @ map (\<lambda>(d, peer). EpSent d peer) outs"

fun endpoint_step :: "aead \<Rightarrow> Endpoint \<Rightarrow> EpInput \<Rightarrow> Endpoint \<times> EpEvent list" where
  "endpoint_step A ep (EpArm rid key cfg feedback_at now) =
     (case arm ep rid key cfg feedback_at now of
        Inl err \<Rightarrow> (ep, [EpRefused err]) | Inr ep' \<Rightarrow> (ep', [EpArmed \<lparr>ar_request_id = rid\<rparr>]))"
| "endpoint_step A ep (EpDrop a) = (ArmedRequest_drop ep a, [])"
| "endpoint_step A ep (EpDisarm rid) = (disarm ep rid, [])"
| "endpoint_step A ep (EpRead d src now env) =
     (let (ep1, effs, outs, finished) = on_datagram_locked A ep (read_from d) src now env
      in (ep1, ep_events effs outs))"
| "endpoint_step A ep (EpTick now env order) =
     (let (ep1, effs, outs) = endpoint_tick A now env (table_keys order ep) ep
      in (ep1, ep_events effs outs))"
| "endpoint_step A ep (EpPlayhead rid ms now) =
     (case ep rid of
        None \<Rightarrow> (ep, [])
      | Some e \<Rightarrow> (ep(rid \<mapsto> e\<lparr>en_feedback := set_playhead_ms (en_feedback e) ms now\<rparr>), []))"

text \<open>The effects on one transfer, and what was sent.\<close>

fun effects_of :: "RequestId \<Rightarrow> EpEvent list \<Rightarrow> Effect list" where
  "effects_of rid [] = []"
| "effects_of rid (EpEffect r f # es) = (if r = rid then f # effects_of rid es else effects_of rid es)"
| "effects_of rid (_ # es) = effects_of rid es"

lemma effects_of_append [simp]: "effects_of rid (es @ fs) = effects_of rid es @ effects_of rid fs"
  by (induction es rule: effects_of.induct) simp_all

section \<open>One slot\<close>

text \<open>What an input means for the slot of one request id.\<close>

fun slot_step :: "aead \<Rightarrow> RequestId \<Rightarrow> Entry option \<Rightarrow> EpInput \<Rightarrow> Entry option \<times> Effect list" where
  "slot_step A rid s (EpArm r key cfg feedback_at now) =
     (if r = rid \<and> s = None then Some (Entry_new key cfg feedback_at now) else s, [])"
| "slot_step A rid s (EpDrop a) = (if ar_request_id a = rid then None else s, [])"
| "slot_step A rid s (EpDisarm r) = (if r = rid then None else s, [])"
| "slot_step A rid s (EpRead d src now env) =
     (case s of
        None \<Rightarrow> (None, [])
      | Some e \<Rightarrow>
          if request_id_of (read_from d) = Inr rid
          then let (e', effs) = entry_step A rid e (EDatagram (read_from d) src now env) in (Some e', effs)
          else (Some e, []))"
| "slot_step A rid s (EpTick now env order) =
     (case s of
        None \<Rightarrow> (None, [])
      | Some e \<Rightarrow> let (e', effs) = entry_step A rid e (ETick now (env rid))
                  in (if rx_closed (en_state e') then None else Some e', effs))"
| "slot_step A rid s (EpPlayhead r ms now) =
     (case s of
        None \<Rightarrow> (None, [])
      | Some e \<Rightarrow> (Some (if r = rid then fst (entry_step A rid e (EPlayhead ms now)) else e), []))"

text \<open>No sealed datagram is too long for the read buffer.\<close>

lemma sealed_read_whole:
  assumes "aead_correct A" and "request_id_wf r" and "encode_body b = Inr p"
    and "crypto_seal A key (Header_new k r s) dir p = Inr d"
  shows "read_from d = d"
  using datagram_fits_mtu [OF assms] by (simp add: read_from_def READ_BUF_def)

section \<open>The endpoint is a product of slots\<close>

lemma effects_of_ep_events:
  "effects_of rid (ep_events effs outs) = concat (map (\<lambda>(r, es). if r = rid then es else []) effs)"
proof -
  have one: "effects_of rid (map (EpEffect r) es) = (if r = rid then es else [])" for r es
    by (induction es) auto
  have out: "effects_of rid (map (\<lambda>(d, peer). EpSent d peer) outs) = []"
    by (induction outs) auto
  have "effects_of rid (concat (map (\<lambda>(rid, es). map (EpEffect rid) es) effs))
      = concat (map (\<lambda>(r, es). if r = rid then es else []) effs)"
    by (induction effs) (auto simp: one)
  then show ?thesis by (simp add: ep_events_def out)
qed

lemma tick_loop_effects:
  assumes "distinct ids" and "tick_loop A now env ids ep = (ep', effs, outs, finished)"
  shows "concat (map (\<lambda>(r, es). if r = rid then es else []) effs) =
     (case ep rid of
        None \<Rightarrow> []
      | Some e \<Rightarrow> if rid \<in> set ids then snd (entry_tick A rid e now (env rid)) else [])"
  using assms
proof (induction ids arbitrary: ep ep' effs outs finished)
  case Nil
  then show ?case by (simp split: option.splits)
next
  case (Cons i ids)
  show ?case
  proof (cases "ep i")
    case None
    then have rest: "tick_loop A now env ids ep = (ep', effs, outs, finished)" using Cons.prems(2) by simp
    show ?thesis using Cons.IH [OF _ rest] Cons.prems(1) None by (auto split: option.splits)
  next
    case (Some e)
    let ?r = "entry_tick A i e now (env i)"
    obtain ep1 effs1 outs1 fin1 where rest: "tick_loop A now env ids (ep(i \<mapsto> fst ?r)) = (ep1, effs1, outs1, fin1)"
      by (metis prod_cases4)
    have eqs: "effs = (i, snd ?r) # effs1" using Cons.prems(2) Some rest by (auto simp: Let_def split_beta)
    have "i \<notin> set ids" using Cons.prems(1) by simp
    then show ?thesis using Cons.IH [OF _ rest] Cons.prems(1) Some unfolding eqs by (auto split: option.splits)
  qed
qed

lemma table_keys_ok: "finite (dom ep) \<Longrightarrow> distinct (table_keys order ep) \<and> set (table_keys order ep) = dom ep"
proof -
  assume fin: "finite (dom ep)"
  have "distinct xs \<and> set xs = dom ep" if "mset xs = mset (sorted_list_of_set (dom ep))" for xs
    using that fin mset_eq_setD [OF that] mset_eq_imp_distinct_iff [OF that] by simp
  then show ?thesis by (simp add: table_keys_def Let_def)
qed

lemma endpoint_tick_slot:
  assumes "finite (dom ep)"
  shows "fst (endpoint_tick A now env (table_keys order ep) ep) rid = fst (slot_step A rid (ep rid) (EpTick now env order))"
    and "concat (map (\<lambda>(r, es). if r = rid then es else []) (fst (snd (endpoint_tick A now env (table_keys order ep) ep))))
      = snd (slot_step A rid (ep rid) (EpTick now env order))"
proof -
  let ?ids = "table_keys order ep"
  obtain ep' effs outs fin where t: "tick_loop A now env ?ids ep = (ep', effs, outs, fin)"
    by (metis prod_cases4)
  have ids: "distinct ?ids" "set ?ids = dom ep" using table_keys_ok [OF assms] by simp_all
  from tick_loop_spec [OF ids(1) t, of rid]
  show "fst (endpoint_tick A now env ?ids ep) rid = fst (slot_step A rid (ep rid) (EpTick now env order))"
    using ids(2) by (cases "ep rid") (auto simp: endpoint_tick_def t fold_disarm Let_def split_beta)
  from tick_loop_effects [OF ids(1) t, of rid] ids(2)
  show "concat (map (\<lambda>(r, es). if r = rid then es else []) (fst (snd (endpoint_tick A now env ?ids ep))))
      = snd (slot_step A rid (ep rid) (EpTick now env order))"
    by (cases "ep rid") (auto simp: endpoint_tick_def t Let_def split_beta)
qed

lemma endpoint_step_slot:
  assumes "finite (dom ep)"
  shows "slot_step A rid (ep rid) i =
    (fst (endpoint_step A ep i) rid, effects_of rid (snd (endpoint_step A ep i)))"
proof (cases i)
  case (EpTick now env order)
  then show ?thesis using endpoint_tick_slot [OF assms, where A = A and now = now and env = env and order = order and rid = rid]
    by (simp add: split_beta Let_def effects_of_ep_events prod_eq_iff del: slot_step.simps)
next
  case (EpRead d src now env)
  show ?thesis
  proof (cases "\<exists>e. request_id_of (read_from d) = Inr rid \<and> ep rid = Some e")
    case True
    then obtain e where "request_id_of (read_from d) = Inr rid" "ep rid = Some e" by blast
    then show ?thesis using EpRead
      by (cases "entry_datagram A rid e (read_from d) src now env")
        (auto simp: on_datagram_locked_def effects_of_ep_events)
  next
    case False
    then show ?thesis using EpRead
      by (auto simp: on_datagram_locked_def effects_of_ep_events Let_def split: sum.splits option.splits prod.splits)
  qed
qed (auto simp: arm_def disarm_def ArmedRequest_drop_def Let_def split: option.splits)

lemma finite_step: "finite (dom ep) \<Longrightarrow> finite (dom (fst (endpoint_step A ep i)))"
proof -
  assume fin: "finite (dom ep)"
  have dom: "dom (fst (endpoint_step A ep i)) \<subseteq> dom ep \<union> (case i of EpArm r k c t1 t0 \<Rightarrow> {r} | _ \<Rightarrow> {})"
  proof
    fix rid assume "rid \<in> dom (fst (endpoint_step A ep i))"
    then have "fst (slot_step A rid (ep rid) i) \<noteq> None" using endpoint_step_slot [OF fin, where A = A and i = i] by auto
    then show "rid \<in> dom ep \<union> (case i of EpArm r k c t1 t0 \<Rightarrow> {r} | _ \<Rightarrow> {})"
      by (cases i; cases "ep rid") (auto split: if_splits)
  qed
  show ?thesis by (rule finite_subset [OF dom]) (use fin in \<open>auto split: EpInput.splits\<close>)
qed

interpretation table: state_invariant "endpoint_step A" Map.empty "\<lambda>ep. finite (dom ep)" for A
  by unfold_locales (simp_all add: finite_step)

interpretation slots: simulation "endpoint_step A" Map.empty "\<lambda>s i es s'. slot_step A rid s i = (s', es)"
  "\<lambda>ep. ep rid" "effects_of rid" for A rid
  by unfold_locales (simp_all add: endpoint_step_slot [OF table.holds])

lemma slot_run:
  "run (slot_step A rid) None ins =
     (final (endpoint_step A) Map.empty ins rid, effects_of rid (trace (endpoint_step A) Map.empty ins))"
  using slots.refines [of A rid ins] by (rule runs_deterministic)

text \<open>From any table the endpoint can be in, not only the empty one.\<close>

lemma slot_run_from:
  assumes "ep = final (endpoint_step A) Map.empty pre"
  shows "final (endpoint_step A) ep ins rid = final (slot_step A rid) (ep rid) ins"
    and "effects_of rid (trace (endpoint_step A) ep ins) = trace (slot_step A rid) (ep rid) ins"
proof -
  have ep: "ep rid = final (slot_step A rid) None pre" using slot_run [of A rid pre] assms by simp
  from slot_run [of A rid "pre @ ins"] slot_run [of A rid pre]
  show "final (endpoint_step A) ep ins rid = final (slot_step A rid) (ep rid) ins"
    and "effects_of rid (trace (endpoint_step A) ep ins) = trace (slot_step A rid) (ep rid) ins"
    using assms unfolding ep by (simp_all add: run_append prod_eq_iff)
qed

section \<open>One session\<close>

text \<open>
  From the moment it is armed until it leaves the table, and as long as its id is not armed anew,
  an entry makes a run of its own machine on the datagrams addressed to it.
\<close>

definition read_by :: "EpInput list \<Rightarrow> EntryInput list \<Rightarrow> bool" where
  "read_by ins js \<longleftrightarrow> (\<forall>d src now env. EDatagram d src now env \<in> set js
     \<longrightarrow> (\<exists>d'. EpRead d' src now env \<in> set ins \<and> d = read_from d'))"

definition rearmed :: "RequestId \<Rightarrow> EpInput list \<Rightarrow> bool" where
  "rearmed rid ins \<longleftrightarrow> (\<exists>key cfg t1 t0. EpArm rid key cfg t1 t0 \<in> set ins)"

lemma slot_empty: "\<not> rearmed rid ins \<Longrightarrow> run (slot_step A rid) None ins = (None, [])"
proof (induction ins)
  case (Cons i ins)
  have "slot_step A rid None i = (None, [])"
    using Cons.prems by (cases i) (auto simp: rearmed_def)
  then show ?case using Cons by (auto simp: rearmed_def)
qed simp

text \<open>The inputs of an entry among those of the endpoint.\<close>

fun addressed :: "RequestId \<Rightarrow> EpInput \<Rightarrow> EntryInput list" where
  "addressed rid (EpRead d src now env) =
     (if request_id_of (read_from d) = Inr rid then [EDatagram (read_from d) src now env] else [])"
| "addressed rid (EpTick now env order) = [ETick now (env rid)]"
| "addressed rid (EpPlayhead r ms now) = (if r = rid then [EPlayhead ms now] else [])"
| "addressed rid _ = []"

fun gives_up :: "RequestId \<Rightarrow> EpInput \<Rightarrow> bool" where
  "gives_up rid (EpDrop a) \<longleftrightarrow> ar_request_id a = rid"
| "gives_up rid (EpDisarm r) \<longleftrightarrow> r = rid"
| "gives_up rid _ \<longleftrightarrow> False"

lemma read_by_addressed: "read_by [i] (addressed rid i)"
  by (cases i) (auto simp: read_by_def)

text \<open>A step of an occupied slot is the entry's own, and ends the session only for a reason.\<close>

lemma slot_step_occupied:
  assumes "\<And>key cfg t1 t0. i \<noteq> EpArm rid key cfg t1 t0"
  obtains (stays) "slot_step A rid (Some e) i =
      (Some (final (entry_step A rid) e (addressed rid i)), trace (entry_step A rid) e (addressed rid i))"
    | (leaves) "slot_step A rid (Some e) i = (None, trace (entry_step A rid) e (addressed rid i))"
      "gives_up rid i \<or> rx_closed (en_state (final (entry_step A rid) e (addressed rid i)))"
proof -
  have "slot_step A rid (Some e) i = (Some (final (entry_step A rid) e (addressed rid i)), trace (entry_step A rid) e (addressed rid i))
      \<or> slot_step A rid (Some e) i = (None, trace (entry_step A rid) e (addressed rid i))
        \<and> (gives_up rid i \<or> rx_closed (en_state (final (entry_step A rid) e (addressed rid i))))"
    by (cases i) (auto simp: split_beta)
  then show thesis using that by blast
qed

definition session_of :: "aead \<Rightarrow> RequestId \<Rightarrow> EpInput list \<Rightarrow> Entry \<Rightarrow> EntryInput list \<Rightarrow> bool" where
  "session_of A rid ins e js \<longleftrightarrow> read_by ins js \<and> set js \<subseteq> (\<Union>i \<in> set ins. set (addressed rid i))
     \<and> trace (slot_step A rid) (Some e) ins = trace (entry_step A rid) e js
     \<and> (case final (slot_step A rid) (Some e) ins of
          Some e' \<Rightarrow> e' = final (entry_step A rid) e js \<and> js = concat (map (addressed rid) ins)
        | None \<Rightarrow> (\<exists>i \<in> set ins. gives_up rid i) \<or> rx_closed (en_state (final (entry_step A rid) e js)))"

lemma read_by_append: "read_by ins js \<Longrightarrow> read_by ins' js' \<Longrightarrow> set ins \<union> set ins' \<subseteq> set ins'' \<Longrightarrow> read_by ins'' (js @ js')"
  unfolding read_by_def by fastforce

lemma slot_session:
  assumes "\<not> rearmed rid ins"
  shows "\<exists>js. session_of A rid ins e js"
  using assms
proof (induction ins arbitrary: e)
  case Nil
  then show ?case by (intro exI [of _ "[]"]) (simp add: session_of_def read_by_def)
next
  case (Cons i ins)
  have rest: "\<not> rearmed rid ins" and i: "\<And>key cfg t1 t0. i \<noteq> EpArm rid key cfg t1 t0"
    using Cons.prems by (auto simp: rearmed_def)
  let ?js = "addressed rid i"
  consider (stays) "slot_step A rid (Some e) i = (Some (final (entry_step A rid) e ?js), trace (entry_step A rid) e ?js)"
    | (leaves) "slot_step A rid (Some e) i = (None, trace (entry_step A rid) e ?js)"
        "gives_up rid i \<or> rx_closed (en_state (final (entry_step A rid) e ?js))"
    by (rule slot_step_occupied [OF i, of A e])
  then show ?case
  proof cases
    case stays
    obtain ks where ks: "session_of A rid ins (final (entry_step A rid) e ?js) ks" using Cons.IH [OF rest] by blast
    have rd: "read_by (i # ins) (?js @ ks)"
      by (rule read_by_append [OF read_by_addressed [of i rid]]) (use ks in \<open>auto simp: session_of_def\<close>)
    show ?thesis
      by (rule exI [of _ "?js @ ks"])
        (use stays ks rd in \<open>auto simp: session_of_def run_append split_beta split: option.splits\<close>)
  next
    case leaves
    have rd: "read_by (i # ins) ?js"
      using read_by_addressed [of i rid] unfolding read_by_def by fastforce
    show ?thesis
      by (rule exI [of _ ?js])
        (use leaves rd slot_empty [OF rest, of A] in \<open>auto simp: session_of_def split_beta\<close>)
  qed
qed

lemma endpoint_session:
  assumes "ep = final (endpoint_step A) Map.empty pre" and "ep rid = None" and "\<not> rearmed rid post"
  obtains js where "session_of A rid post (Entry_new key cfg t1 t0) js"
    and "effects_of rid (trace (endpoint_step A) ep (EpArm rid key cfg t1 t0 # post))
      = trace (entry_step A rid) (Entry_new key cfg t1 t0) js"
proof -
  have eff: "effects_of rid (trace (endpoint_step A) ep (EpArm rid key cfg t1 t0 # post))
      = trace (slot_step A rid) (Some (Entry_new key cfg t1 t0)) post"
    unfolding slot_run_from(2) [OF assms(1)] using assms(2) by (simp add: split_beta)
  obtain js where "session_of A rid post (Entry_new key cfg t1 t0) js"
    using slot_session [OF assms(3)] by blast
  then show thesis using that [of js] unfolding eff session_of_def by blast
qed

section \<open>The read loop\<close>

text \<open>The read loop is one of the interleaved tasks: it makes steps of the machine above.\<close>

lemma on_datagram_drives:
  "\<exists>ins. fst (on_datagram A ep (read_from d) src now env) = final (endpoint_step A) ep ins
    \<and> trace (endpoint_step A) ep ins = (case on_datagram A ep (read_from d) src now env of (ep', effs, outs) \<Rightarrow> ep_events effs outs)"
proof -
  obtain ep1 effs outs fin where l: "on_datagram_locked A ep (read_from d) src now env = (ep1, effs, outs, fin)"
    by (metis prod_cases4)
  let ?ins = "EpRead d src now env # (case fin of None \<Rightarrow> [] | Some rid \<Rightarrow> [EpDisarm rid])"
  show ?thesis
    by (rule exI [of _ ?ins]) (simp add: on_datagram_def l split: option.splits)
qed

lemma run_endpoint_drives:
  "\<exists>ins. fst (run_endpoint A ep reads) = final (endpoint_step A) ep ins
    \<and> (\<forall>rid. effects_of rid (trace (endpoint_step A) ep ins)
          = effects_of rid (ep_events (fst (snd (run_endpoint A ep reads))) (fst (snd (snd (run_endpoint A ep reads))))))"
proof (induction A ep reads rule: run_endpoint.induct)
  case (3 A ep d src now env reads)
  obtain ep1 effs1 outs1 where dg: "on_datagram A ep (read_from d) src now env = (ep1, effs1, outs1)"
    by (metis prod_cases3)
  obtain ep2 effs2 outs2 r where rn: "run_endpoint A ep1 reads = (ep2, effs2, outs2, r)" by (metis prod_cases4)
  obtain ins1 where "ep1 = final (endpoint_step A) ep ins1" "trace (endpoint_step A) ep ins1 = ep_events effs1 outs1"
    using on_datagram_drives [of A ep d src now env] dg by auto
  moreover obtain ins2 where "ep2 = final (endpoint_step A) ep1 ins2"
    "\<And>rid. effects_of rid (trace (endpoint_step A) ep1 ins2) = effects_of rid (ep_events effs2 outs2)"
    using "3.IH" [OF dg [symmetric] refl refl] rn by auto
  ultimately show ?case using dg rn
    by (intro exI [of _ "ins1 @ ins2"]) (simp add: run_append effects_of_ep_events)
qed (auto simp: effects_of_ep_events intro!: exI [of _ "[]"])

section \<open>Where replies go\<close>

text \<open>
  An address is believed when a datagram from it opened under the key of an armed request.
\<close>

definition vouched :: "aead \<Rightarrow> EpInput list \<Rightarrow> RequestId \<Rightarrow> SessionKey \<Rightarrow> SocketAddr \<Rightarrow> bool" where
  "vouched A ins rid key peer \<longleftrightarrow> (\<exists>d now env. EpRead d peer now env \<in> set ins
     \<and> request_id_of (read_from d) = Inr rid \<and> is_ok (open_body A key Dir_Send (read_from d)))"

definition armed_with :: "EpInput list \<Rightarrow> RequestId \<Rightarrow> SessionKey \<Rightarrow> bool" where
  "armed_with ins rid key \<longleftrightarrow> (\<exists>cfg t1 t0. EpArm rid key cfg t1 t0 \<in> set ins)"

definition peers_ok :: "aead \<Rightarrow> EpInput list \<Rightarrow> Endpoint \<Rightarrow> bool" where
  "peers_ok A ins ep \<longleftrightarrow> (\<forall>rid e. ep rid = Some e \<longrightarrow> armed_with ins rid (en_key e)
     \<and> (\<forall>p. en_peer e = Some p \<longrightarrow> vouched A ins rid (en_key e) p))"

definition sealed_by :: "aead \<Rightarrow> SessionKey \<Rightarrow> RequestId \<Rightarrow> bytes \<Rightarrow> bool" where
  "sealed_by A key rid d \<longleftrightarrow>
     (\<exists>kb. sink_sealed A key rid kb d \<and> PacketKind_direction (Body_kind (snd kb)) = Dir_Recv)"

definition sent_ok :: "aead \<Rightarrow> EpInput list \<Rightarrow> EpEvent list \<Rightarrow> bool" where
  "sent_ok A ins es \<longleftrightarrow> (\<forall>d p. EpSent d p \<in> set es \<longrightarrow>
     (\<exists>rid key. armed_with ins rid key \<and> vouched A ins rid key p \<and> sealed_by A key rid d))"

lemma vouched_mono: "vouched A ins rid key p \<Longrightarrow> vouched A (ins @ js) rid key p"
  by (auto simp: vouched_def)

lemma armed_with_mono: "armed_with ins rid key \<Longrightarrow> armed_with (ins @ js) rid key"
  by (auto simp: armed_with_def)

lemma peers_ok_mono: "peers_ok A ins ep \<Longrightarrow> peers_ok A (ins @ js) ep"
  using vouched_mono armed_with_mono unfolding peers_ok_def by blast

lemma sent_ok_mono: "sent_ok A ins es \<Longrightarrow> sent_ok A (ins @ js) es"
  using vouched_mono armed_with_mono unfolding sent_ok_def by blast

lemma sent_ok_append: "sent_ok A ins (es @ fs) \<longleftrightarrow> sent_ok A ins es \<and> sent_ok A ins fs"
  by (auto simp: sent_ok_def)

lemma apply_one_key: "en_key (fst (apply_one A rid a e ev)) = en_key e"
  by (cases ev) (simp_all add: apply_one_def reply_with_def Entry_seal_def Let_def split_beta)

lemma apply_one_sealed: "d \<in> set (replies (snd (apply_one A rid a e ev))) \<Longrightarrow> sealed_by A (en_key e) rid d"
proof -
  assume d: "d \<in> set (replies (snd (apply_one A rid a e ev)))"
  have seal: "sealed_by A (en_key e) rid d"
    if "d \<in> set (replies (snd (reply_with A e rid b)))" "PacketKind_direction (Body_kind b) = Dir_Recv" for b
    using that unfolding sealed_by_def
    by (intro exI [of _ "(unat (en_control_seq e), b)"])
      (auto simp: reply_with_def Entry_seal_def sink_sealed_def Let_def split: sum.splits option.splits)
  from d show ?thesis
    by (cases ev) (auto simp: apply_one_def Let_def dest: seal split: prod.splits if_splits)
qed

lemma apply_events_key: "en_key (fst (apply_events A rid env e evs)) = en_key e"
  by (induction evs arbitrary: env e) (simp_all add: apply_one_key)

lemma apply_events_sealed:
  "d \<in> set (replies (snd (apply_events A rid env e evs))) \<Longrightarrow> sealed_by A (en_key e) rid d"
proof (induction evs arbitrary: env e)
  case (Cons ev evs)
  from Cons.IH [of "env \<circ> Suc" "fst (apply_one A rid (env 0) e ev)"] Cons.prems show ?case
    using apply_one_sealed [of d A rid "env 0" e ev] by (auto simp: apply_one_key comp_def)
qed simp

lemma entry_step_key: "en_key (fst (entry_step A rid e i)) = en_key e"
  by (cases i)
    (auto simp: entry_datagram_eq entry_tick_def apply_events_key Let_def split_beta split: sum.splits option.splits)

lemma entry_step_sealed:
  "d \<in> set (replies (snd (entry_step A rid e i))) \<Longrightarrow> sealed_by A (en_key e) rid d"
  by (cases i)
    (auto simp: entry_datagram_eq entry_tick_def Let_def split_beta split: sum.splits option.splits if_splits
      dest: apply_events_sealed)

lemma entry_step_new_peer:
  assumes "en_peer (fst (entry_step A rid e i)) = Some p"
  shows "en_peer e = Some p \<or> (\<exists>d now env. i = EDatagram d p now env \<and> is_ok (open_body A (en_key e) Dir_Send d))"
  using assms
  by (cases i)
    (auto simp: entry_datagram_eq entry_tick_def apply_events_peer Let_def split_beta split: sum.splits option.splits if_splits)

text \<open>Every slot keeps to its key and to vouched peers.\<close>

lemma slot_peer:
  assumes "\<And>e. s = Some e \<Longrightarrow> armed_with ins rid (en_key e) \<and> (\<forall>p. en_peer e = Some p \<longrightarrow> vouched A ins rid (en_key e) p)"
    and "fst (slot_step A rid s i) = Some e'"
  shows "armed_with (ins @ [i]) rid (en_key e')
    \<and> (\<forall>p. en_peer e' = Some p \<longrightarrow> vouched A (ins @ [i]) rid (en_key e') p)"
proof -
  have kept: ?thesis if s: "s = Some e" and e': "e' = fst (entry_step A rid e j)"
    and j: "\<And>d p now env. j = EDatagram d p now env \<Longrightarrow>
      \<exists>d'. i = EpRead d' p now env \<and> d = read_from d' \<and> request_id_of d = Inr rid" for e j
  proof -
    have key: "en_key e' = en_key e" by (simp add: e' entry_step_key)
    have "vouched A (ins @ [i]) rid (en_key e) p" if "en_peer e' = Some p" for p
      using entry_step_new_peer [OF that [unfolded e']]
    proof
      assume "en_peer e = Some p"
      then show ?thesis using assms(1) [OF s] vouched_mono by blast
    next
      assume "\<exists>d now env. j = EDatagram d p now env \<and> is_ok (open_body A (en_key e) Dir_Send d)"
      then show ?thesis using j by (force simp: vouched_def)
    qed
    then show ?thesis using assms(1) [OF s] armed_with_mono key by simp
  qed
  have same: ?thesis if "s = Some e'"
    using assms(1) [OF that] vouched_mono armed_with_mono by blast
  show ?thesis
  proof (cases i)
    case (EpRead d src now env)
    then show ?thesis using assms(2) same kept [of _ "EDatagram (read_from d) src now env"]
      by (auto simp: split_beta split: option.splits if_splits)
  next
    case (EpTick now env order)
    then show ?thesis using assms(2) kept [of _ "ETick now (env rid)"]
      by (auto simp: split_beta split: option.splits if_splits)
  next
    case (EpPlayhead r ms now)
    then show ?thesis using assms(2) same kept [of _ "EPlayhead ms now"]
      by (auto split: option.splits if_splits)
  next
    case (EpArm r key cfg t1 t0)
    have "armed_with (ins @ [i]) r key" using EpArm by (auto simp: armed_with_def)
    then show ?thesis using EpArm assms(2) same by (auto simp: Entry_new_def split: if_splits)
  qed (use assms(2) same in \<open>auto split: if_splits\<close>)
qed

lemma peers_ok_step:
  assumes "peers_ok A ins ep" and "finite (dom ep)"
  shows "peers_ok A (ins @ [i]) (fst (endpoint_step A ep i))"
  unfolding peers_ok_def
proof (intro allI impI)
  fix rid e' assume "fst (endpoint_step A ep i) rid = Some e'"
  then have "fst (slot_step A rid (ep rid) i) = Some e'" using endpoint_step_slot [OF assms(2), of A rid i] by simp
  then show "armed_with (ins @ [i]) rid (en_key e')
      \<and> (\<forall>p. en_peer e' = Some p \<longrightarrow> vouched A (ins @ [i]) rid (en_key e') p)"
    using assms(1) slot_peer [of "ep rid" ins rid A i e'] unfolding peers_ok_def by blast
qed

text \<open>What a critical section sends comes from an entry it has just stepped.\<close>

lemma tick_loop_outs:
  assumes "distinct ids" and "tick_loop A now env ids ep = (ep', effs, outs, finished)" and "(d, p) \<in> set outs"
  shows "\<exists>rid e. rid \<in> set ids \<and> ep rid = Some e \<and> en_peer (fst (entry_tick A rid e now (env rid))) = Some p
    \<and> d \<in> set (replies (snd (entry_tick A rid e now (env rid))))"
  using assms
proof (induction ids arbitrary: ep ep' effs outs finished)
  case (Cons i ids)
  show ?case
  proof (cases "ep i")
    case None
    then have "tick_loop A now env ids ep = (ep', effs, outs, finished)" using Cons.prems(2) by simp
    from Cons.IH [OF _ this Cons.prems(3)] show ?thesis using Cons.prems(1) by auto
  next
    case (Some e)
    let ?r = "entry_tick A i e now (env i)"
    obtain ep1 effs1 outs1 fin1 where rest: "tick_loop A now env ids (ep(i \<mapsto> fst ?r)) = (ep1, effs1, outs1, fin1)"
      by (metis prod_cases4)
    have "outs = (case en_peer (fst ?r) of None \<Rightarrow> [] | Some peer \<Rightarrow> map (\<lambda>d. (d, peer)) (replies (snd ?r))) @ outs1"
      using Cons.prems(2) Some rest by (auto simp: Let_def split_beta)
    then consider "en_peer (fst ?r) = Some p" "d \<in> set (replies (snd ?r))" | "(d, p) \<in> set outs1"
      using Cons.prems(3) by (auto split: option.splits)
    then show ?thesis
    proof cases
      case 2
      from Cons.IH [OF _ rest this] Cons.prems(1) show ?thesis by (auto simp: fun_upd_apply split: if_splits)
    qed (use Some in auto)
  qed
qed simp

lemma sent_from_entry:
  assumes "finite (dom ep)" and "EpSent d p \<in> set (snd (endpoint_step A ep i))"
  shows "\<exists>rid e j. ep rid = Some e \<and> en_peer (fst (entry_step A rid e j)) = Some p
    \<and> d \<in> set (replies (snd (entry_step A rid e j))) \<and> addressed rid i = [j]"
proof -
  have outs: "(d, p) \<in> set outs" if "EpSent d p \<in> set (ep_events effs outs)" for effs outs
    using that by (auto simp: ep_events_def)
  show ?thesis
  proof (cases i)
    case (EpTick now env order)
    obtain ep' effs outs' fin where t: "tick_loop A now env (table_keys order ep) ep = (ep', effs, outs', fin)"
      by (metis prod_cases4)
    have "(d, p) \<in> set outs'" using assms(2) EpTick t by (auto simp: endpoint_tick_def dest!: outs)
    from tick_loop_outs [OF _ t this] table_keys_ok [OF assms(1)]
    obtain rid e where "ep rid = Some e" "en_peer (fst (entry_step A rid e (ETick now (env rid)))) = Some p"
      "d \<in> set (replies (snd (entry_step A rid e (ETick now (env rid)))))" by auto
    then show ?thesis using EpTick by (intro exI [of _ rid] exI [of _ e] exI [of _ "ETick now (env rid)"]) simp
  next
    case (EpRead d0 src now env)
    then obtain rid e e' effs where e: "request_id_of (read_from d0) = Inr rid" "ep rid = Some e"
      "entry_datagram A rid e (read_from d0) src now env = Some (e', effs)"
      "en_peer e' = Some p" "d \<in> set (replies effs)"
      using assms(2)
      by (auto simp: on_datagram_locked_def split_beta dest!: outs split: sum.splits option.splits)
    then show ?thesis using EpRead
      by (intro exI [of _ rid] exI [of _ e] exI [of _ "EDatagram (read_from d0) src now env"]) simp
  qed (use assms(2) in \<open>auto split: sum.splits option.splits\<close>)
qed

lemma sent_ok_step:
  assumes peers: "peers_ok A ins ep" and fin: "finite (dom ep)"
  shows "sent_ok A (ins @ [i]) (snd (endpoint_step A ep i))"
  unfolding sent_ok_def
proof (intro allI impI)
  fix d p assume "EpSent d p \<in> set (snd (endpoint_step A ep i))"
  from sent_from_entry [OF fin this] obtain rid e j where e: "ep rid = Some e"
    "en_peer (fst (entry_step A rid e j)) = Some p" "d \<in> set (replies (snd (entry_step A rid e j)))"
    and "addressed rid i = [j]" by blast
  then have j: "\<exists>d0. i = EpRead d0 src now env \<and> d' = read_from d0 \<and> request_id_of d' = Inr rid"
    if "j = EDatagram d' src now env" for d' src now env
    using that by (cases i) (auto split: if_splits)
  have "armed_with ins rid (en_key e)" and known: "en_peer e = Some p \<Longrightarrow> vouched A ins rid (en_key e) p"
    using peers e(1) unfolding peers_ok_def by blast+
  moreover have "vouched A (ins @ [i]) rid (en_key e) p"
    using entry_step_new_peer [OF e(2)]
  proof
    assume "\<exists>d now env. j = EDatagram d p now env \<and> is_ok (open_body A (en_key e) Dir_Send d)"
    then show ?thesis using j by (force simp: vouched_def)
  qed (use known vouched_mono in blast)
  ultimately show "\<exists>rid key. armed_with (ins @ [i]) rid key \<and> vouched A (ins @ [i]) rid key p \<and> sealed_by A key rid d"
    using entry_step_sealed [OF e(3)] armed_with_mono by blast
qed

text \<open>And it is one of the replies of that entry.\<close>

lemma sent_is_reply:
  assumes "finite (dom ep)" and "EpSent d p \<in> set (snd (endpoint_step A ep i))"
  shows "\<exists>rid e. ep rid = Some e \<and> sealed_by A (en_key e) rid d
    \<and> d \<in> set (replies (effects_of rid (snd (endpoint_step A ep i))))"
proof -
  from sent_from_entry [OF assms] obtain rid e j where e: "ep rid = Some e"
    "d \<in> set (replies (snd (entry_step A rid e j)))" "addressed rid i = [j]" by blast
  have "\<And>key cfg t1 t0. i \<noteq> EpArm rid key cfg t1 t0" using e(3) by auto
  then have "snd (slot_step A rid (Some e) i) = trace (entry_step A rid) e [j]"
    by (rule slot_step_occupied [of i rid A e]) (simp_all only: e(3) snd_conv)
  then have "effects_of rid (snd (endpoint_step A ep i)) = snd (entry_step A rid e j)"
    using endpoint_step_slot [OF assms(1), of A rid i] e(1) by (simp add: split_beta)
  then show ?thesis using e entry_step_sealed [OF e(2)] by (intro exI [of _ rid] exI [of _ e]) simp
qed

interpretation peers: history_invariant "endpoint_step A" Map.empty
  "\<lambda>ins es ep. finite (dom ep) \<and> peers_ok A ins ep \<and> sent_ok A ins es" for A
proof
  show "finite (dom (Map.empty :: Endpoint)) \<and> peers_ok A [] Map.empty \<and> sent_ok A [] []"
    by (simp add: peers_ok_def sent_ok_def)
  show "finite (dom (fst (endpoint_step A ep i))) \<and> peers_ok A (ins @ [i]) (fst (endpoint_step A ep i))
      \<and> sent_ok A (ins @ [i]) (es @ snd (endpoint_step A ep i))"
    if "finite (dom ep) \<and> peers_ok A ins ep \<and> sent_ok A ins es" for ins es ep i
    using that finite_step peers_ok_step sent_ok_step sent_ok_mono by (simp add: sent_ok_append)
qed

section \<open>Guards\<close>

text \<open>
  A guard names its request by the id alone.  When its transfer is over (here after a silence) and
  the same id has been armed again, dropping the old guard removes the new request.
\<close>

lemma stale_guard_disarms_successor:
  assumes "idle_timeout cfg < duration_since late t0"
  shows "final (endpoint_step A) Map.empty
      [EpArm r k1 cfg t1 t0, EpTick late env order, EpArm r k2 cfg2 t2 t3] r = Some (Entry_new k2 cfg2 t2 t3)
    \<and> final (endpoint_step A) Map.empty
      [EpArm r k1 cfg t1 t0, EpTick late env order, EpArm r k2 cfg2 t2 t3, EpDrop \<lparr>ar_request_id = r\<rparr>] r = None"
proof -
  have slot: "final (endpoint_step A) Map.empty ins r = final (slot_step A r) None ins" for ins
    using slot_run [of A r ins] by simp
  have "rx_closed (en_state (fst (entry_tick A r (Entry_new k1 cfg t1 t0) late (env r))))"
    using assms by (simp add: entry_tick_state Entry_new_def XferReceiver_new_def recv_tick_def)
  then show ?thesis unfolding slot by (simp add: split_beta Let_def)
qed

section \<open>Properties\<close>

text \<open>
  C6: the endpoint, with arming, dropping, reading, ticking and feedback interleaved in any way,
  is the product of independent slots: the entry of a request id and the effects on its streams
  are those of a machine that sees only this one slot.  No transfer can disturb another.
\<close>

theorem endpoint_is_product_of_slots:
  "final (endpoint_step A) Map.empty ins rid = final (slot_step A rid) None ins
   \<and> effects_of rid (trace (endpoint_step A) Map.empty ins) = trace (slot_step A rid) None ins"
  using slot_run [of A rid ins] by simp

text \<open>
  C31: the endpoint answers nobody it has not authenticated: every datagram it sends, in any
  interleaving, is sealed under the key of a request that was armed, and goes to an address from
  which a datagram for that request opened under that key.
\<close>

theorem replies_only_to_vouched_peers:
  assumes "EpSent d peer \<in> set (trace (endpoint_step A) Map.empty ins)"
  shows "\<exists>rid key. armed_with ins rid key \<and> vouched A ins rid key peer \<and> sealed_by A key rid d"
  using peers.holds [of A ins] assms unfolding sent_ok_def by blast

end
