(* ===== verification/Pf4_Endpoint_Tasks.thy ===== *)
theory Pf4_Endpoint_Tasks
  imports Pf4_Endpoint_Run
begin

text \<open>
  The tasks of an endpoint (\<open>protofish4/src/receiver.rs\<close>) at the granularity of their await points.
  \<open>Pf4_Endpoint_Run\<close> takes every critical section of the table as one step.  Here a section can be
  suspended: \<open>apply\<close> awaits room in the reliable channel, and it does so with the table locked.  The
  only state other tasks can still write then is the play head, which is shared outside the lock.
  What the channel answers to a poll is an input.  The lock is \<open>tokio\<close>'s mutex, which admits one holder
  at a time.  The theory shows that the finer interleaving adds nothing to the atomic one, and that finitely many
  answers release the lock.  The datagrams of a section are counted to the step that leaves it;
  \<open>Pf4_Endpoint_Sends\<close> sends them afterwards, as the code does.
\<close>

section \<open>Await points\<close>

text \<open>What \<open>apply\<close> does with a reliable frame before it awaits the channel.\<close>

definition offer_rel :: "Entry \<Rightarrow> Frame \<Rightarrow> Entry" where
  "offer_rel e f = e\<lparr>en_newest_data_ms := max (en_newest_data_ms e) (fr_ts f)\<rparr>"

text \<open>
  \<open>apply\<close> up to its next await point: the entry, the effects, and the events that are left, the
  first of them a reliable frame that waits for room in its channel.
\<close>

fun apply_until ::
  "aead \<Rightarrow> RequestId \<Rightarrow> env \<Rightarrow> Entry \<Rightarrow> RecvEvent list \<Rightarrow> Entry \<times> Effect list \<times> RecvEvent list" where
  "apply_until A rid env e [] = (e, [], [])"
| "apply_until A rid env e (Reliable f # events) = (offer_rel e f, [], Reliable f # events)"
| "apply_until A rid env e (ev # events) =
     (let (e1, effs1) = apply_one A rid (env 0) e ev;
          (e2, effs2, rest) = apply_until A rid (env \<circ> Suc) e1 events
      in (e2, effs1 @ effs2, rest))"

text \<open>\<open>on_datagram\<close> up to \<open>apply\<close>: the entry with its new state, and the events.\<close>

definition datagram_events ::
  "aead \<Rightarrow> Endpoint \<Rightarrow> bytes \<Rightarrow> SocketAddr \<Rightarrow> instant \<Rightarrow> (RequestId \<times> Entry \<times> RecvEvent list) option" where
  "datagram_events A ep datagram src now =
     (case request_id_of datagram of
        Inl err \<Rightarrow> None
      | Inr rid \<Rightarrow>
          (case ep rid of
             None \<Rightarrow> None
           | Some entry \<Rightarrow>
               (case crypto_open A (en_key entry) datagram Dir_Send of
                  Inl err \<Rightarrow> None
                | Inr (header, plaintext) \<Rightarrow>
                    (case decode_body (hdr_kind header) plaintext of
                       Inl err \<Rightarrow> None
                     | Inr body \<Rightarrow>
                         let e1 = (if en_peer entry = None then entry\<lparr>en_peer := Some src\<rparr> else entry);
                             (st, events) = recv_handle (en_state e1) (hdr_seq header) body now
                         in Some (rid, e1\<lparr>en_state := st\<rparr>, events)))))"

section \<open>The tasks\<close>

text \<open>The task that holds the lock while it waits: its request, the events left, the effects so far.\<close>

record Suspended =
  su_request_id :: RequestId
  su_events :: "RecvEvent list"
  su_effects :: "Effect list"

record Tasks =
  tk_table :: Endpoint
  tk_lock :: "Suspended option"

definition Tasks_new :: Tasks where
  "Tasks_new = \<lparr>tk_table = Map.empty, tk_lock = None\<rparr>"

text \<open>The answer of the reliable channel to a poll: no room yet, or done, accepted or refused.\<close>

datatype poll = Pending | Ready bool

datatype TaskInput = Take EpInput | Poll poll env

text \<open>
  After a stretch of \<open>apply\<close>: the task is suspended again, or leaves the section with its replies
  (which \<open>Pf4_Endpoint_Sends\<close> sends one by one once the lock is free).
\<close>

definition pass ::
  "Endpoint \<Rightarrow> RequestId \<Rightarrow> Effect list \<Rightarrow> Effect list \<Rightarrow> Entry \<times> Effect list \<times> RecvEvent list
    \<Rightarrow> Tasks \<times> EpEvent list" where
  "pass t rid before new r =
     (let (e, effs, rest) = r; all = before @ new @ effs in
      if rest = []
      then (\<lparr>tk_table = t(rid \<mapsto> e), tk_lock = None\<rparr>,
            map (EpEffect rid) (new @ effs)
            @ (case en_peer e of None \<Rightarrow> [] | Some peer \<Rightarrow> map (\<lambda>d. EpSent d peer) (replies all)))
      else (\<lparr>tk_table = t(rid \<mapsto> e),
             tk_lock = Some \<lparr>su_request_id = rid, su_events = rest, su_effects = all\<rparr>\<rparr>,
            map (EpEffect rid) (new @ effs)))"

definition rel_answer :: "bool \<Rightarrow> Frame \<Rightarrow> Effect" where
  "rel_answer sent f = (if sent then ToRel f else RelRefused f)"

fun task_step :: "aead \<Rightarrow> Tasks \<Rightarrow> TaskInput \<Rightarrow> (Tasks \<times> EpEvent list) option" where
  "task_step A s (Take (EpPlayhead rid ms now)) =
     (let (t, es) = endpoint_step A (tk_table s) (EpPlayhead rid ms now) in Some (s\<lparr>tk_table := t\<rparr>, es))"
| "task_step A s (Take (EpRead d src now env)) =
     (case tk_lock s of
        Some su \<Rightarrow> None
      | None \<Rightarrow>
          Some (case datagram_events A (tk_table s) (read_from d) src now of
                  None \<Rightarrow> (s, [])
                | Some (rid, e, events) \<Rightarrow> pass (tk_table s) rid [] [] (apply_until A rid env e events)))"
| "task_step A s (Take i) =
     (case tk_lock s of
        Some su \<Rightarrow> None
      | None \<Rightarrow> let (t, es) = endpoint_step A (tk_table s) i in Some (s\<lparr>tk_table := t\<rparr>, es))"
| "task_step A s (Poll Pending env) = (case tk_lock s of None \<Rightarrow> None | Some su \<Rightarrow> Some (s, []))"
| "task_step A s (Poll (Ready sent) env) =
     (case tk_lock s of
        None \<Rightarrow> None
      | Some su \<Rightarrow>
          (case (su_events su, tk_table s (su_request_id su)) of
             (Reliable f # events, Some e) \<Rightarrow>
               Some (pass (tk_table s) (su_request_id su) (su_effects su) [rel_answer sent f]
                 (apply_until A (su_request_id su) env e events))
           | _ \<Rightarrow> None))"

section \<open>Sections as sequences of stretches\<close>

lemma apply_one_reliable: "apply_one A rid (t, sent) e (Reliable f) = (offer_rel e f, [rel_answer sent f])"
  by (simp add: apply_one_def offer_rel_def rel_answer_def)

text \<open>The answers of the environment to a stretch, followed by those to the next.\<close>

definition joined :: "nat \<Rightarrow> env \<Rightarrow> env \<Rightarrow> env" where
  "joined n a b k = (if k < n then a k else b (k - n))"

lemma joined_Suc: "joined (Suc n) a b \<circ> Suc = joined n (a \<circ> Suc) b" and joined_0: "joined (Suc n) a b 0 = a 0"
  by (auto simp: joined_def)

lemma apply_events_append:
  "apply_events A rid (joined (length xs) a b) e (xs @ ys) =
     andthen (apply_events A rid a e xs) (\<lambda>e'. apply_events A rid b e' ys)"
proof (induction xs arbitrary: a e)
  case Nil
  have "joined 0 a b = b" for a by (auto simp: joined_def)
  then show ?case by (simp add: andthen_silent)
next
  case (Cons x xs)
  then show ?case by (simp add: joined_Suc joined_0 prod_eq_iff del: fst_andthen snd_andthen) (simp add: andthen_def split_beta)
qed

lemma apply_until_spec:
  assumes "apply_until A rid env e evs = (e2, effs, rest)"
  shows "\<exists>past e1. evs = past @ rest \<and> apply_events A rid env e past = (e1, effs)
    \<and> (rest = [] \<and> e2 = e1 \<or> (\<exists>f left. rest = Reliable f # left \<and> e2 = offer_rel e1 f))"
  using assms
proof (induction evs arbitrary: env e effs)
  case Nil
  then show ?case by simp
next
  case (Cons ev evs)
  show ?case
  proof (cases "\<exists>f. ev = Reliable f")
    case True
    then show ?thesis using Cons.prems by (intro exI [of _ "[]"] exI [of _ e]) auto
  next
    case False
    let ?r = "apply_one A rid (env 0) e ev"
    obtain e' effs' rest' where u: "apply_until A rid (env \<circ> Suc) (fst ?r) evs = (e', effs', rest')" by (metis prod_cases3)
    have eqs: "e' = e2" "effs = snd ?r @ effs'" "rest' = rest"
      using Cons.prems False u by (cases ev; auto simp: split_beta Let_def)+
    from Cons.IH [OF u [unfolded eqs(1,3)]] obtain past e1 where p: "evs = past @ rest"
      "apply_events A rid (env \<circ> Suc) (fst ?r) past = (e1, effs')"
      "rest = [] \<and> e2 = e1 \<or> (\<exists>f left. rest = Reliable f # left \<and> e2 = offer_rel e1 f)" by blast
    show ?thesis
      by (intro exI [of _ "ev # past"] exI [of _ e1]) (use p eqs in \<open>auto simp: andthen_def split_beta\<close>)
  qed
qed

text \<open>The acknowledgement, which reads the play head, comes after every reliable frame.\<close>

fun reads_playhead :: "RecvEvent \<Rightarrow> bool" where
  "reads_playhead (SendAck c h ms) = True"
| "reads_playhead _ = False"

lemma apply_one_report:
  "\<not> reads_playhead ev \<Longrightarrow> apply_one A rid a (e\<lparr>en_feedback := fb\<rparr>) ev =
     (case apply_one A rid a e ev of (e', effs) \<Rightarrow> (e'\<lparr>en_feedback := fb\<rparr>, effs))"
  by (cases ev) (auto simp: apply_one_def reply_with_def Entry_seal_def Let_def split: prod.splits)

lemma apply_events_report:
  "\<forall>ev \<in> set evs. \<not> reads_playhead ev \<Longrightarrow> apply_events A rid env (e\<lparr>en_feedback := fb\<rparr>) evs =
     (case apply_events A rid env e evs of (e', effs) \<Rightarrow> (e'\<lparr>en_feedback := fb\<rparr>, effs))"
  by (induction evs arbitrary: env e) (auto simp: apply_one_report andthen_def split: prod.splits)

lemma apply_one_feedback: "en_feedback (fst (apply_one A rid a e ev)) = en_feedback e"
  by (cases ev) (simp_all add: apply_one_def reply_with_def Entry_seal_def Let_def split_beta)

lemma apply_events_feedback: "en_feedback (fst (apply_events A rid env e evs)) = en_feedback e"
  by (induction evs arbitrary: env e) (simp_all add: apply_one_feedback)

lemma release_loop_no_ack: "ev \<in> set (snd (release_loop c rx)) \<Longrightarrow> \<not> reads_playhead ev"
proof (induction c rx rule: release_loop.induct)
  case (1 c rx)
  from "1.prems" "1.IH" show ?case
    by (subst (asm) (1) release_loop.simps) (auto simp: Let_def split: if_splits option.splits)
qed

lemma finish_rel_no_ack: "ev \<in> set (snd (finish_rel rx o')) \<Longrightarrow> \<not> reads_playhead ev"
  by (auto simp: finish_rel_def split: if_splits)

lemma release_contiguous_no_ack: "ev \<in> set (snd (release_contiguous rx now)) \<Longrightarrow> \<not> reads_playhead ev"
  by (auto simp: release_contiguous_def split_beta Let_def dest: release_loop_no_ack)

lemma check_finish_no_ack: "ev \<in> set (snd (check_finish rx now)) \<Longrightarrow> \<not> reads_playhead ev"
  by (auto simp: check_finish_def ack_end_def split: option.splits if_splits
      dest: release_contiguous_no_ack finish_rel_no_ack)

lemma on_data_no_ack: "ev \<in> set (snd (on_data rx f now)) \<Longrightarrow> \<not> reads_playhead ev"
  by (auto simp: on_data_def Let_def split_beta split: if_splits
      dest: release_contiguous_no_ack finish_rel_no_ack check_finish_no_ack)

lemma on_body_no_ack: "ev \<in> set (snd (on_body rx s b now)) \<Longrightarrow> \<not> reads_playhead ev"
  by (auto simp: on_body_def Let_def split: Body.splits if_splits
      dest: on_data_no_ack finish_rel_no_ack check_finish_no_ack)

lemma ack_after_frames:
  assumes "snd (recv_handle rx s b now) = past @ Reliable f # left"
  shows "\<forall>ev \<in> set past. \<not> reads_playhead ev"
proof -
  let ?a = "snd (on_body (rx\<lparr>rx_last_packet_at := now\<rparr>) s b now)"
  obtain m where m: "snd (recv_handle rx s b now) = ?a @ m" and "Reliable f \<notin> set m"
    by (simp add: recv_handle_def maybe_ack_def)
  then have "past @ Reliable f # left = ?a @ m" using assms by simp
  then consider us where "past = ?a @ us" "us @ Reliable f # left = m" | us where "past @ us = ?a"
    by (auto simp: append_eq_append_conv2)
  then show ?thesis
  proof cases
    case 1
    then show ?thesis using \<open>Reliable f \<notin> set m\<close> by auto
  next
    case 2
    then have "set past \<subseteq> set ?a" by (metis set_append Un_upper1)
    then show ?thesis using on_body_no_ack by blast
  qed
qed

text \<open>A tick never waits: it offers no frame to the reliable channel.\<close>

lemma tick_never_waits: "Reliable f \<notin> set (snd (recv_tick rx now))"
  by (auto simp: recv_tick_def finish_rel_def emit_nacks_def maybe_ack_def Let_def split_beta split: if_splits)

section \<open>The atomic view\<close>

lemma on_datagram_locked_by:
  assumes "datagram_events A ep d src now = Some (rid, e, evs)" and "apply_events A rid env e evs = (e', effs)"
  shows "\<exists>fin. on_datagram_locked A ep d src now env =
    (ep(rid \<mapsto> e'), [(rid, effs)],
     case en_peer e' of None \<Rightarrow> [] | Some peer \<Rightarrow> map (\<lambda>d. (d, peer)) (replies effs), fin)"
  using assms
  by (auto simp: datagram_events_def on_datagram_locked_def entry_datagram_def Let_def
      split: sum.splits option.splits prod.splits)

lemma on_datagram_locked_none:
  assumes "datagram_events A ep d src now = None"
  shows "on_datagram_locked A ep d src now env = (ep, [], [], None)"
  using assms
  by (auto simp: datagram_events_def on_datagram_locked_def entry_datagram_def Let_def
      split: sum.splits option.splits prod.splits)

text \<open>
  A task is halfway through the section of a read when the table is that of the atomic machine
  before the read, except for the entry, to which the events so far have been applied.
\<close>

definition halfway :: "aead \<Rightarrow> Endpoint \<Rightarrow> Endpoint \<Rightarrow> Suspended \<Rightarrow> bool" where
  "halfway A ep t su \<longleftrightarrow> (\<exists>d src now env e0 evs past e f left.
     datagram_events A ep (read_from d) src now = Some (su_request_id su, e0, evs)
     \<and> evs = past @ su_events su \<and> su_events su = Reliable f # left
     \<and> apply_events A (su_request_id su) env e0 past = (e, su_effects su)
     \<and> t = ep(su_request_id su \<mapsto> offer_rel e f))"

definition atomically :: "aead \<Rightarrow> EpEvent list \<Rightarrow> Tasks \<Rightarrow> EpInput list \<Rightarrow> bool" where
  "atomically A es s ins \<longleftrightarrow>
     (case tk_lock s of
        None \<Rightarrow> tk_table s = final (endpoint_step A) Map.empty ins \<and> es = trace (endpoint_step A) Map.empty ins
      | Some su \<Rightarrow> halfway A (final (endpoint_step A) Map.empty ins) (tk_table s) su
          \<and> es = trace (endpoint_step A) Map.empty ins @ map (EpEffect (su_request_id su)) (su_effects su))"

text \<open>A stretch takes a task from halfway through the section to further on, or to its end.\<close>

lemma stretch:
  assumes ev: "datagram_events A ep (read_from d) src now = Some (rid, e0, past @ evs)"
    and past: "apply_events A rid env e0 past = (e, effs)"
    and ep: "ep = final (endpoint_step A) Map.empty ins" and fs: "fs = trace (endpoint_step A) Map.empty ins"
    and t: "t(rid \<mapsto> e') = ep(rid \<mapsto> e')"
    and step: "pass t rid before new (apply_until A rid env' e evs) = (s, es)" and effs: "effs = before @ new"
  shows "\<exists>js. atomically A (fs @ map (EpEffect rid) before @ es) s (ins @ js)"
proof -
  obtain e2 effs2 rest where u: "apply_until A rid env' e evs = (e2, effs2, rest)" by (metis prod_cases3)
  from apply_until_spec [OF u] obtain past2 e1 where p2: "evs = past2 @ rest"
    "apply_events A rid env' e past2 = (e1, effs2)"
    "rest = [] \<and> e2 = e1 \<or> (\<exists>f left. rest = Reliable f # left \<and> e2 = offer_rel e1 f)" by blast
  let ?env = "joined (length past) env env'"
  have all: "apply_events A rid ?env e0 (past @ past2) = (e1, effs @ effs2)"
    unfolding apply_events_append using past p2(2) by (simp add: andthen_def)
  have tab: "t(rid \<mapsto> x) = ep(rid \<mapsto> x)" for x using t by (metis fun_upd_upd)
  show ?thesis
  proof (cases "rest = []")
    case True
    obtain fin where l: "on_datagram_locked A ep (read_from d) src now ?env =
      (ep(rid \<mapsto> e1), [(rid, effs @ effs2)],
       case en_peer e1 of None \<Rightarrow> [] | Some peer \<Rightarrow> map (\<lambda>d. (d, peer)) (replies (effs @ effs2)), fin)"
      using on_datagram_locked_by [OF ev [unfolded p2(1) True append_Nil2] all] by blast
    have "atomically A (fs @ map (EpEffect rid) before @ es) s (ins @ [EpRead d src now ?env])"
      using step u l True p2(3) effs tab
      by (auto simp: atomically_def pass_def ep fs run_append ep_events_def split: option.splits)
    then show ?thesis by blast
  next
    case False
    then obtain f left where f: "rest = Reliable f # left" "e2 = offer_rel e1 f" using p2(3) by blast
    have "halfway A ep (tk_table s) \<lparr>su_request_id = rid, su_events = rest, su_effects = effs @ effs2\<rparr>"
      unfolding halfway_def
      by (intro exI [of _ d] exI [of _ src] exI [of _ now] exI [of _ ?env] exI [of _ e0] exI [of _ "past @ evs"]
          exI [of _ "past @ past2"] exI [of _ e1] exI [of _ f] exI [of _ left])
        (use step u f ev p2(1) all effs tab False in \<open>auto simp: pass_def\<close>)
    then have "atomically A (fs @ map (EpEffect rid) before @ es) s (ins @ [])"
      using step u False effs by (auto simp: atomically_def pass_def ep fs)
    then show ?thesis by blast
  qed
qed

text \<open>A report of the play head in the middle of a section might as well have come before it.\<close>

definition report :: "RequestId \<Rightarrow> u64 \<Rightarrow> instant \<Rightarrow> Endpoint \<Rightarrow> Endpoint" where
  "report r ms now ep =
     (case ep r of None \<Rightarrow> ep | Some e \<Rightarrow> ep(r \<mapsto> e\<lparr>en_feedback := set_playhead_ms (en_feedback e) ms now\<rparr>))"

lemma endpoint_step_report: "endpoint_step A ep (EpPlayhead r ms now) = (report r ms now ep, [])"
  by (simp add: report_def split: option.splits)

lemma datagram_events_Some:
  assumes "datagram_events A ep d src now = Some (rid, e0, evs)"
  obtains entry where "ep rid = Some entry" and "en_feedback e0 = en_feedback entry"
    and "\<And>past f left. evs = past @ Reliable f # left \<Longrightarrow> \<forall>ev \<in> set past. \<not> reads_playhead ev"
    and "\<And>ep' fb. ep' rid = Some (entry\<lparr>en_feedback := fb\<rparr>) \<Longrightarrow>
      datagram_events A ep' d src now = Some (rid, e0\<lparr>en_feedback := fb\<rparr>, evs)"
    and "\<And>ep'. ep' rid = Some entry \<Longrightarrow> datagram_events A ep' d src now = Some (rid, e0, evs)"
proof -
  obtain entry h p b where o: "request_id_of d = Inr rid" "ep rid = Some entry"
    "crypto_open A (en_key entry) d Dir_Send = Inr (h, p)" "decode_body (hdr_kind h) p = Inr b"
    using assms by (auto simp: datagram_events_def Let_def split: sum.splits option.splits prod.splits)
  let ?r = "recv_handle (en_state entry) (hdr_seq h) b now"
  have e0: "e0 = (if en_peer entry = None then entry\<lparr>en_peer := Some src\<rparr> else entry)\<lparr>en_state := fst ?r\<rparr>" "evs = snd ?r"
    using assms o by (auto simp: datagram_events_def Let_def split: prod.splits if_splits)
  show thesis
  proof (rule that [of entry])
    show "\<forall>ev \<in> set past. \<not> reads_playhead ev" if "evs = past @ Reliable f # left" for past f left
      by (rule ack_after_frames) (use that e0 in simp)
    show "datagram_events A ep' d src now = Some (rid, e0\<lparr>en_feedback := fb\<rparr>, evs)"
      if "ep' rid = Some (entry\<lparr>en_feedback := fb\<rparr>)" for ep' fb
      using that o e0 by (auto simp: datagram_events_def split_beta Let_def)
    show "datagram_events A ep' d src now = Some (rid, e0, evs)" if "ep' rid = Some entry" for ep'
      using that o e0 by (auto simp: datagram_events_def split_beta Let_def)
  qed (use o e0 in auto)
qed

lemma offer_rel_report: "offer_rel (e\<lparr>en_feedback := fb\<rparr>) f = (offer_rel e f)\<lparr>en_feedback := fb\<rparr>"
  "en_feedback (offer_rel e f) = en_feedback e"
  by (cases e, simp add: offer_rel_def)+

lemma report_halfway:
  assumes "halfway A ep t su"
  shows "halfway A (report r ms now ep) (report r ms now t) su"
proof -
  obtain d src t0 env e0 evs past e f left where h:
    "datagram_events A ep (read_from d) src t0 = Some (su_request_id su, e0, evs)"
    "evs = past @ su_events su" "su_events su = Reliable f # left"
    "apply_events A (su_request_id su) env e0 past = (e, su_effects su)"
    "t = ep(su_request_id su \<mapsto> offer_rel e f)"
    using assms unfolding halfway_def by blast
  from h(1) obtain entry where en: "ep (su_request_id su) = Some entry" "en_feedback e0 = en_feedback entry"
    and quiet: "\<And>past f left. evs = past @ Reliable f # left \<Longrightarrow> \<forall>ev \<in> set past. \<not> reads_playhead ev"
    and upd: "\<And>ep' fb. ep' (su_request_id su) = Some (entry\<lparr>en_feedback := fb\<rparr>) \<Longrightarrow>
      datagram_events A ep' (read_from d) src t0 = Some (su_request_id su, e0\<lparr>en_feedback := fb\<rparr>, evs)"
    and same: "\<And>ep'. ep' (su_request_id su) = Some entry \<Longrightarrow>
      datagram_events A ep' (read_from d) src t0 = Some (su_request_id su, e0, evs)"
    by (rule datagram_events_Some) (rule that, assumption+)
  show ?thesis
  proof (cases "r = su_request_id su")
    case True
    let ?fb = "set_playhead_ms (en_feedback entry) ms now"
    have past: "\<forall>ev \<in> set past. \<not> reads_playhead ev" using quiet h(2,3) by blast
    have fb: "en_feedback e = en_feedback entry"
      using apply_events_feedback [of A "su_request_id su" env e0 past] h(4) en(2) by simp
    have "datagram_events A (report r ms now ep) (read_from d) src t0
        = Some (su_request_id su, e0\<lparr>en_feedback := ?fb\<rparr>, evs)"
      by (rule upd) (use True en in \<open>simp add: report_def\<close>)
    moreover have "apply_events A (su_request_id su) env (e0\<lparr>en_feedback := ?fb\<rparr>) past
        = (e\<lparr>en_feedback := ?fb\<rparr>, su_effects su)"
      using apply_events_report [OF past, of A "su_request_id su" env ?fb e0] h(4) by simp
    moreover have "report r ms now t = (report r ms now ep)(su_request_id su \<mapsto> offer_rel (e\<lparr>en_feedback := ?fb\<rparr>) f)"
      using True en h(5) fb by (simp add: report_def offer_rel_report)
    ultimately show ?thesis using h(2,3) unfolding halfway_def by blast
  next
    case False
    have "datagram_events A (report r ms now ep) (read_from d) src t0 = Some (su_request_id su, e0, evs)"
      by (rule same) (use False en in \<open>simp add: report_def split: option.splits\<close>)
    moreover have "report r ms now t = (report r ms now ep)(su_request_id su \<mapsto> offer_rel e f)"
      using False h(5) by (auto simp: report_def fun_upd_twist split: option.splits)
    ultimately show ?thesis using h(2-4) unfolding halfway_def by blast
  qed
qed

lemma atomically_ready:
  assumes "atomically A es s ins" and "tk_lock s = Some su" and "task_step A s (Poll (Ready sent) env) = Some (s', fs)"
  shows "\<exists>ins. atomically A (es @ fs) s' ins"
proof -
  let ?ep = "final (endpoint_step A) Map.empty ins" and ?r = "su_request_id su"
  from assms(1,2) have half: "halfway A ?ep (tk_table s) su"
    and es: "es = trace (endpoint_step A) Map.empty ins @ map (EpEffect ?r) (su_effects su)"
    by (simp_all add: atomically_def)
  then obtain d src t0 env0 e0 past e f left where h:
    "datagram_events A ?ep (read_from d) src t0 = Some (?r, e0, past @ su_events su)"
    "su_events su = Reliable f # left" "apply_events A ?r env0 e0 past = (e, su_effects su)"
    "tk_table s = ?ep(?r \<mapsto> offer_rel e f)"
    unfolding halfway_def by blast
  have "apply_events A ?r (\<lambda>_. (0, sent)) e [Reliable f] = (offer_rel e f, [rel_answer sent f])"
    by (simp add: apply_one_reliable andthen_def)
  then have past: "apply_events A ?r (joined (length past) env0 (\<lambda>_. (0, sent))) e0 (past @ [Reliable f])
      = (offer_rel e f, su_effects su @ [rel_answer sent f])"
    unfolding apply_events_append h(3) by (simp add: andthen_def)
  have step: "pass (tk_table s) ?r (su_effects su) [rel_answer sent f] (apply_until A ?r env (offer_rel e f) left) = (s', fs)"
    using assms(2,3) h by simp
  have tab: "(tk_table s)(?r \<mapsto> x) = ?ep(?r \<mapsto> x)" for x using h(4) by simp
  have ev: "datagram_events A ?ep (read_from d) src t0 = Some (?r, e0, (past @ [Reliable f]) @ left)"
    using h(1,2) by simp
  from stretch [OF ev past refl refl tab step refl] es show ?thesis by auto
qed

lemma atomically_read:
  assumes "atomically A es s ins" and "tk_lock s = None" and "task_step A s (Take (EpRead d src now env)) = Some (s', fs)"
  shows "\<exists>ins. atomically A (es @ fs) s' ins"
proof (cases "datagram_events A (tk_table s) (read_from d) src now")
  case None
  then have "s' = s" "fs = []" using assms(2,3) by auto
  then show ?thesis using assms(1) by auto
next
  case (Some x)
  obtain rid e evs where x: "x = (rid, e, evs)" by (metis prod_cases3)
  have ep: "tk_table s = final (endpoint_step A) Map.empty ins" and es: "es = trace (endpoint_step A) Map.empty ins"
    using assms(1,2) by (simp_all add: atomically_def)
  have ev: "datagram_events A (tk_table s) (read_from d) src now = Some (rid, e, [] @ evs)" using Some x by simp
  have none: "apply_events A rid env e [] = (e, [])" by simp
  have step: "pass (tk_table s) rid [] [] (apply_until A rid env e evs) = (s', fs)"
    using assms(2,3) Some x by simp
  from stretch [OF ev none ep es refl step] show ?thesis by auto
qed

lemma atomically_section:
  assumes "atomically A es s ins" and "tk_lock s = None"
    and "s' = s\<lparr>tk_table := fst (endpoint_step A (tk_table s) i)\<rparr>" and "fs = snd (endpoint_step A (tk_table s) i)"
  shows "\<exists>ins. atomically A (es @ fs) s' ins"
proof -
  have "atomically A (es @ fs) s' (ins @ [i])"
    using assms by (simp add: atomically_def run_append split_beta)
  then show ?thesis by blast
qed

lemma atomically_report:
  assumes "atomically A es s ins"
  shows "\<exists>ins. atomically A es (s\<lparr>tk_table := report r ms now (tk_table s)\<rparr>) ins"
proof -
  have "atomically A es (s\<lparr>tk_table := report r ms now (tk_table s)\<rparr>) (ins @ [EpPlayhead r ms now])"
    using assms report_halfway
    by (auto simp: atomically_def run_append endpoint_step_report simp del: endpoint_step.simps split: option.splits)
  then show ?thesis by blast
qed

lemma atomically_step:
  assumes inv: "atomically A es s ins" and step: "task_step A s i = Some (s', fs)"
  shows "\<exists>ins. atomically A (es @ fs) s' ins"
proof (cases i)
  case (Poll answer env)
  then obtain su where su: "tk_lock s = Some su" using step by (cases answer) (auto split: option.splits)
  show ?thesis
  proof (cases answer)
    case Pending
    then show ?thesis using inv step Poll su by auto
  next
    case (Ready sent)
    then show ?thesis using atomically_ready [OF inv su] step Poll by blast
  qed
next
  case (Take j)
  consider (rd) d src now env where "j = EpRead d src now env" | (rp) r ms now where "j = EpPlayhead r ms now"
    | (sec) "s' = s\<lparr>tk_table := fst (endpoint_step A (tk_table s) j)\<rparr>" "fs = snd (endpoint_step A (tk_table s) j)"
      "tk_lock s = None"
    using step Take by (cases j) (auto simp: Let_def split_beta split: option.splits)
  then show ?thesis
  proof cases
    case rd
    then have "tk_lock s = None" using step Take by (auto split: option.splits)
    then show ?thesis using atomically_read [OF inv] step Take rd by blast
  next
    case rp
    then have "s' = s\<lparr>tk_table := report r ms now (tk_table s)\<rparr>" "fs = []"
      using step Take by (auto simp: endpoint_step_report simp del: endpoint_step.simps)
    then show ?thesis using atomically_report [OF inv] by simp
  next
    case sec
    then show ?thesis by (intro atomically_section [OF inv])
  qed
qed

lemma tasks_atomically:
  assumes "run_opt (task_step A) Tasks_new is = Some (s, es)"
  shows "\<exists>ins. atomically A es s ins"
  using run_opt_runs [OF assms]
proof (induction rule: runs.induct)
  case runs_nil
  have "atomically A [] Tasks_new []" by (simp add: atomically_def Tasks_new_def)
  then show ?case by blast
qed (blast dest: atomically_step)

text \<open>A section that is under way can always be completed.\<close>

lemma halfway_completes:
  assumes "halfway A ep t su"
  shows "\<exists>i gs. snd (endpoint_step A ep i) = map (EpEffect (su_request_id su)) (su_effects su) @ gs"
proof -
  let ?r = "su_request_id su"
  obtain d src now env e0 past e where h: "datagram_events A ep (read_from d) src now = Some (?r, e0, past @ su_events su)"
    "apply_events A ?r env e0 past = (e, su_effects su)"
    using assms unfolding halfway_def by blast
  obtain e' more where m: "apply_events A ?r env e (su_events su) = (e', more)" by force
  have all: "apply_events A ?r (joined (length past) env env) e0 (past @ su_events su) = (e', su_effects su @ more)"
    unfolding apply_events_append h(2) using m by (simp add: andthen_def)
  from on_datagram_locked_by [OF h(1) all]
  obtain outs fin where "on_datagram_locked A ep (read_from d) src now (joined (length past) env env)
      = (ep(?r \<mapsto> e'), [(?r, su_effects su @ more)], outs, fin)" by blast
  then have "snd (endpoint_step A ep (EpRead d src now (joined (length past) env env)))
      = map (EpEffect ?r) (su_effects su) @ map (EpEffect ?r) more @ map (\<lambda>(d, peer). EpSent d peer) outs"
    by (simp add: ep_events_def)
  then show ?thesis by blast
qed

section \<open>The lock\<close>

text \<open>Every answer of the channel shortens what is left of the section.\<close>

lemma ready_shortens:
  assumes "tk_lock s = Some su" and "task_step A s (Poll (Ready sent) env) = Some (s', es)"
  shows "tk_lock s' = None \<or> (\<exists>su'. tk_lock s' = Some su' \<and> length (su_events su') < length (su_events su))"
proof -
  obtain f evs e where f: "su_events su = Reliable f # evs" "tk_table s (su_request_id su) = Some e"
    using assms by (auto split: list.splits RecvEvent.splits option.splits)
  obtain e2 effs rest where u: "apply_until A (su_request_id su) env e evs = (e2, effs, rest)" by (metis prod_cases3)
  from apply_until_spec [OF u] have "length rest \<le> length evs" by auto
  then show ?thesis using assms f u by (auto simp: pass_def Let_def split: if_splits)
qed

text \<open>A waiting task can take every answer.\<close>

lemma ready_enabled:
  assumes "run_opt (task_step A) Tasks_new is = Some (s, es)" and "tk_lock s = Some su"
  shows "\<exists>s' es'. task_step A s (Poll (Ready sent) env) = Some (s', es')"
proof -
  obtain ins where "atomically A es s ins" using tasks_atomically [OF assms(1)] by blast
  then obtain e f left where "su_events su = Reliable f # left" "tk_table s (su_request_id su) = Some e"
    using assms(2) by (auto simp: atomically_def halfway_def)
  then show ?thesis using assms(2) by simp
qed

section \<open>Properties\<close>

text \<open>
  C7: suspending critical sections at their await points adds no behaviour: whatever the tasks of
  an endpoint do, in any interleaving, with reports of the play head in the middle of sections, the events
  so far are the beginning of those of a run in which every section is one step, and whenever no
  section is under way, table and events are exactly those of such a run.
\<close>

theorem tasks_refine_sections:
  assumes "run_opt (task_step A) Tasks_new is = Some (s, es)"
  shows "\<exists>ins. (\<exists>gs. trace (endpoint_step A) Map.empty ins = es @ gs)
    \<and> (tk_lock s = None \<longrightarrow>
         tk_table s = final (endpoint_step A) Map.empty ins \<and> es = trace (endpoint_step A) Map.empty ins)"
proof -
  obtain ins where inv: "atomically A es s ins" using tasks_atomically [OF assms] by blast
  show ?thesis
  proof (cases "tk_lock s")
    case None
    then show ?thesis using inv by (intro exI [of _ ins]) (simp add: atomically_def)
  next
    case (Some su)
    then have "halfway A (final (endpoint_step A) Map.empty ins) (tk_table s) su"
      and es: "es = trace (endpoint_step A) Map.empty ins @ map (EpEffect (su_request_id su)) (su_effects su)"
      using inv by (simp_all add: atomically_def)
    from halfway_completes [OF this(1)] obtain i gs where
      "snd (endpoint_step A (final (endpoint_step A) Map.empty ins) i)
        = map (EpEffect (su_request_id su)) (su_effects su) @ gs" by blast
    then show ?thesis using Some es by (intro exI [of _ "ins @ [i]"]) (simp add: trace_snoc)
  qed
qed

text \<open>
  C22: the lock is given up as soon as the channel has answered often enough: from every state the
  tasks can be in, after finitely many polls that are answered, accepted or refused, no section is
  under way.
\<close>

theorem answers_release_lock:
  assumes "run_opt (task_step A) Tasks_new is = Some (s, es)"
  shows "\<exists>k s' es'. run_opt (task_step A) s (map (\<lambda>j. Poll (Ready (fst (ans j))) (snd (ans j))) [0..<k]) = Some (s', es')
    \<and> tk_lock s' = None"
  using assms
proof (induction "case tk_lock s of None \<Rightarrow> 0 | Some su \<Rightarrow> Suc (length (su_events su))" arbitrary: s "is" es ans
    rule: less_induct)
  case less
  show ?case
  proof (cases "tk_lock s")
    case None
    then show ?thesis by (intro exI [of _ 0]) simp
  next
    case (Some su)
    let ?i = "Poll (Ready (fst (ans 0))) (snd (ans 0))"
    obtain s1 e1 where step: "task_step A s ?i = Some (s1, e1)"
      using ready_enabled [OF less.prems Some] by fast
    have "(case tk_lock s1 of None \<Rightarrow> 0 | Some su \<Rightarrow> Suc (length (su_events su)))
        < (case tk_lock s of None \<Rightarrow> 0 | Some su \<Rightarrow> Suc (length (su_events su)))"
      using ready_shortens [OF Some step] Some by auto
    moreover have "run_opt (task_step A) Tasks_new (is @ [?i]) = Some (s1, es @ e1)"
      using less.prems step by (simp add: run_opt_append)
    ultimately obtain k s' es' where
      k: "run_opt (task_step A) s1 (map (\<lambda>j. Poll (Ready (fst (ans (Suc j)))) (snd (ans (Suc j)))) [0..<k]) = Some (s', es')"
      "tk_lock s' = None" using less.hyps [of s1 "is @ [?i]" "es @ e1" "\<lambda>j. ans (Suc j)"] by blast
    have "map (\<lambda>j. Poll (Ready (fst (ans j))) (snd (ans j))) [0..<Suc k]
        = ?i # map (\<lambda>j. Poll (Ready (fst (ans (Suc j)))) (snd (ans (Suc j)))) [0..<k]"
      by (simp only: map_upt_Suc)
    then show ?thesis using step k by (intro exI [of _ "Suc k"] exI [of _ s'] exI [of _ "e1 @ es'"]) (simp only: run_opt_cons, blast)
  qed
qed

section \<open>An instance\<close>

text \<open>One transfer is armed and its first frame read; the reliable channel has no room.\<close>

definition demo_env :: env where
  "demo_env = (\<lambda>_. (5, True))"

definition demo_tasks :: "TaskInput list" where
  "demo_tasks = [Take (EpArm demo_id demo_key audio_engine 0 0),
     Take (EpRead (demo_frame 1 1) (V4 [10, 0, 0, 1] 7) 5 demo_env)]"

definition demo_waiting :: Suspended where
  "demo_waiting = \<lparr>su_request_id = demo_id,
     su_events = [Reliable \<lparr>fr_seq = 1, fr_ts = 0, fr_payload = [1]\<rparr>],
     su_effects = [ToUnrel \<lparr>fr_seq = 1, fr_ts = 0, fr_payload = [1]\<rparr>]\<rparr>"

lemma demo_frame_read: "read_from (demo_frame s x) = demo_frame s x"
  by (simp add: read_from_def READ_BUF_def demo_frame_length)

lemma demo_frame_events:
  assumes "ep demo_id = Some e" and "en_key e = demo_key"
  shows "datagram_events demo_aead ep (demo_frame s x) src now =
    (let e1 = (if en_peer e = None then e\<lparr>en_peer := Some src\<rparr> else e);
         (st, events) = recv_handle (en_state e1) s (B_Data 0 [x]) now
     in Some (demo_id, e1\<lparr>en_state := st\<rparr>, events))"
proof -
  obtain p where "crypto_open demo_aead demo_key (demo_frame s x) Dir_Send = Inr (Header_new PK_Data demo_id s, p)"
    "decode_body PK_Data p = Inr (B_Data 0 [x])"
    using demo_frame_opens [of s x] by (auto simp: open_body_Inr_iff)
  then show ?thesis using assms by (simp add: datagram_events_def demo_frame_routes Let_def)
qed

lemma demo_tasks_run:
  "\<exists>t es. run_opt (task_step demo_aead) Tasks_new demo_tasks = Some (\<lparr>tk_table = t, tk_lock = Some demo_waiting\<rparr>, es)"
  by (simp add: demo_tasks_def Tasks_new_def arm_def demo_frame_read demo_frame_events Entry_new_def rx_eval
      apply_one_def demo_env_def pass_def demo_waiting_def Let_def)

theorem tasks_refine_sections_witness:
  "\<exists>s es ins gs. run_opt (task_step demo_aead) Tasks_new demo_tasks = Some (s, es)
     \<and> trace (endpoint_step demo_aead) Map.empty ins = es @ gs"
  using demo_tasks_run tasks_refine_sections [of demo_aead demo_tasks] by blast

theorem answers_release_lock_witness:
  "\<exists>s es k s' es'. run_opt (task_step demo_aead) Tasks_new demo_tasks = Some (s, es) \<and> tk_lock s \<noteq> None
     \<and> run_opt (task_step demo_aead) s (map (\<lambda>j. Poll (Ready True) demo_env) [0..<k]) = Some (s', es')
     \<and> tk_lock s' = None"
proof -
  obtain t es where r: "run_opt (task_step demo_aead) Tasks_new demo_tasks
      = Some (\<lparr>tk_table = t, tk_lock = Some demo_waiting\<rparr>, es)" using demo_tasks_run by blast
  from answers_release_lock [OF r, of "\<lambda>_. (True, demo_env)"] r show ?thesis by fastforce
qed

end
