(* ===== verification/Pf4_Retrans.thy ===== *)
theory Pf4_Retrans
  imports Pf4_Types
begin

text \<open>
  \<open>protofish4-proto/src/xfer/retrans.rs\<close>: the ring of sealed datagrams held for retransmission.
  The lemmas show its budget invariant and accounting, and the locale \<open>sealed_store\<close> states what
  the sending state machine relies on: whatever the ring returns for a sequence number was
  stored under it byte for byte, and whatever was stored is either still held or covered by
  \<open>lost_below\<close>.
\<close>

record RetransRing =
  rr_entries :: "(XferSeq \<times> bytes) list"
  rr_bytes :: usize
  rr_max_frames :: usize
  rr_max_bytes :: usize
  rr_lost_below :: u32

definition RetransRing_new :: "usize \<Rightarrow> usize \<Rightarrow> RetransRing" where
  "RetransRing_new max_frames max_bytes =
     \<lparr>rr_entries = [], rr_bytes = 0, rr_max_frames = max max_frames 1,
      rr_max_bytes = max max_bytes 1, rr_lost_below = 0\<rparr>"

definition evict_oldest :: "RetransRing \<Rightarrow> RetransRing \<times> XferSeq option" where
  "evict_oldest r =
     (case rr_entries r of
        [] \<Rightarrow> (r, None)
      | (s, data) # rest \<Rightarrow>
          (r\<lparr>rr_entries := rest, rr_bytes := rr_bytes r - length data,
             rr_lost_below := (if rr_lost_below r < s then s else rr_lost_below r)\<rparr>, Some s))"

lemma evict_oldest_length:
  "rr_entries r \<noteq> [] \<Longrightarrow> length (rr_entries (fst (evict_oldest r))) < length (rr_entries r)"
  by (auto simp: evict_oldest_def neq_Nil_conv)

lemma evict_oldest_None_iff: "snd (evict_oldest r) = None \<longleftrightarrow> rr_entries r = []"
  by (auto simp: evict_oldest_def split: list.splits)

text \<open>The loop of \<open>push\<close>.\<close>

function evict_to_budget :: "RetransRing \<Rightarrow> RetransRing" where
  "evict_to_budget r =
     (if length (rr_entries r) > rr_max_frames r \<or> rr_bytes r > rr_max_bytes r
      then (case snd (evict_oldest r) of
              None \<Rightarrow> r
            | Some _ \<Rightarrow> evict_to_budget (fst (evict_oldest r)))
      else r)"
  by pat_completeness auto
termination
  by (relation "measure (\<lambda>r. length (rr_entries r))")
    (simp_all add: evict_oldest_length evict_oldest_None_iff flip: evict_oldest_None_iff)

definition rr_push :: "RetransRing \<Rightarrow> XferSeq \<Rightarrow> bytes \<Rightarrow> RetransRing" where
  "rr_push r s sealed =
     evict_to_budget
       (r\<lparr>rr_bytes := rr_bytes r + length sealed, rr_entries := rr_entries r @ [(s, sealed)]\<rparr>)"

definition rr_get :: "RetransRing \<Rightarrow> XferSeq \<Rightarrow> bytes option" where
  "rr_get r s = map_option snd (List.find (\<lambda>e. fst e = s) (rr_entries r))"

text \<open>The loop of \<open>ack_through\<close>.\<close>

function evict_through :: "u32 \<Rightarrow> RetransRing \<Rightarrow> RetransRing" where
  "evict_through contiguous r =
     (case rr_entries r of
        [] \<Rightarrow> r
      | (s, _) # _ \<Rightarrow>
          if s > contiguous then r else evict_through contiguous (fst (evict_oldest r)))"
  by pat_completeness auto
termination
  by (relation "measure (\<lambda>(c, r). length (rr_entries r))")
    (auto simp: evict_oldest_def split: prod.splits)

definition ack_through :: "RetransRing \<Rightarrow> XferSeq \<Rightarrow> RetransRing" where
  "ack_through r contiguous =
     (let r' = evict_through contiguous r
      in if rr_lost_below r' < contiguous then r'\<lparr>rr_lost_below := contiguous\<rparr> else r')"

declare evict_to_budget.simps [simp del] evict_through.simps [simp del]

section \<open>Invariant: accounting and budget\<close>

definition entries_bytes :: "(XferSeq \<times> bytes) list \<Rightarrow> nat" where
  "entries_bytes es = sum_list (map (\<lambda>e. length (snd e)) es)"

definition rr_counts :: "RetransRing \<Rightarrow> bool" where
  "rr_counts r \<longleftrightarrow> rr_bytes r = entries_bytes (rr_entries r)"

definition rr_invar :: "RetransRing \<Rightarrow> bool" where
  "rr_invar r \<longleftrightarrow> rr_counts r \<and> length (rr_entries r) \<le> rr_max_frames r
     \<and> rr_bytes r \<le> rr_max_bytes r"

lemma entries_bytes_simps [simp]:
  "entries_bytes [] = 0" "entries_bytes (e # es) = length (snd e) + entries_bytes es"
  "entries_bytes (es @ fs) = entries_bytes es + entries_bytes fs"
  by (simp_all add: entries_bytes_def)

lemma rr_invar_new: "rr_invar (RetransRing_new f b)"
  by (simp add: rr_invar_def rr_counts_def RetransRing_new_def)

lemma evict_oldest_simps:
  "rr_entries (fst (evict_oldest r)) = tl (rr_entries r)"
  "rr_max_frames (fst (evict_oldest r)) = rr_max_frames r"
  "rr_max_bytes (fst (evict_oldest r)) = rr_max_bytes r"
  "rr_entries r \<noteq> [] \<Longrightarrow>
     rr_lost_below (fst (evict_oldest r)) = max (rr_lost_below r) (fst (hd (rr_entries r)))"
  by (auto simp: evict_oldest_def max_def split: list.splits)

lemma rr_counts_evict_oldest: "rr_counts r \<Longrightarrow> rr_counts (fst (evict_oldest r))"
  by (auto simp: rr_counts_def evict_oldest_def split: list.splits)

lemma evict_to_budget_counts:
  "rr_counts r \<Longrightarrow> rr_counts (evict_to_budget r)
     \<and> rr_max_frames (evict_to_budget r) = rr_max_frames r
     \<and> rr_max_bytes (evict_to_budget r) = rr_max_bytes r"
proof (induction r rule: evict_to_budget.induct)
  case (1 r)
  then show ?case
    by (auto simp: evict_to_budget.simps [of r] rr_counts_evict_oldest evict_oldest_simps
        split: option.splits)
qed

lemma evict_to_budget_bounded:
  assumes "rr_counts r"
  shows "length (rr_entries (evict_to_budget r)) \<le> rr_max_frames r
    \<and> rr_bytes (evict_to_budget r) \<le> rr_max_bytes r"
  using assms
proof (induction r rule: evict_to_budget.induct)
  case (1 r)
  show ?case
  proof (cases "(length (rr_entries r) > rr_max_frames r \<or> rr_bytes r > rr_max_bytes r)
      \<and> rr_entries r \<noteq> []")
    case True
    then obtain s where "snd (evict_oldest r) = Some s" using evict_oldest_None_iff by auto
    with True "1" show ?thesis
      by (simp add: evict_to_budget.simps [of r] rr_counts_evict_oldest evict_oldest_simps)
  next
    case False
    with "1.prems" show ?thesis
      by (auto simp: evict_to_budget.simps [of r] rr_counts_def split: option.splits)
  qed
qed

lemma rr_invar_push:
  assumes "rr_invar r"
  shows "rr_invar (rr_push r s d)"
proof -
  let ?r = "r\<lparr>rr_bytes := rr_bytes r + length d, rr_entries := rr_entries r @ [(s, d)]\<rparr>"
  have "rr_counts ?r" using assms by (simp add: rr_invar_def rr_counts_def)
  then show ?thesis
    using evict_to_budget_counts [of ?r] evict_to_budget_bounded [of ?r]
    by (simp add: rr_invar_def rr_push_def)
qed

lemma rr_invar_evict_oldest: "rr_invar r \<Longrightarrow> rr_invar (fst (evict_oldest r))"
  by (auto simp: rr_invar_def rr_counts_def evict_oldest_def split: list.splits)

lemma rr_invar_evict_through: "rr_invar r \<Longrightarrow> rr_invar (evict_through c r)"
proof (induction c r rule: evict_through.induct)
  case (1 c r)
  then show ?case
    by (auto simp: evict_through.simps [of c r] rr_invar_evict_oldest split: list.splits)
qed

lemma rr_invar_ack: "rr_invar r \<Longrightarrow> rr_invar (ack_through r c)"
  using rr_invar_evict_through [of r c] by (simp add: ack_through_def Let_def rr_invar_def rr_counts_def)

lemma rr_max_evict_through:
  "rr_max_frames (evict_through c r) = rr_max_frames r \<and> rr_max_bytes (evict_through c r) = rr_max_bytes r"
proof (induction c r rule: evict_through.induct)
  case (1 c r)
  then show ?case by (auto simp: evict_through.simps [of c r] evict_oldest_simps split: list.splits)
qed

lemma rr_max_ack [simp]:
  "rr_max_frames (ack_through r c) = rr_max_frames r" "rr_max_bytes (ack_through r c) = rr_max_bytes r"
  by (simp_all add: ack_through_def Let_def rr_max_evict_through)

lemma rr_max_push:
  assumes "rr_invar r"
  shows "rr_max_frames (rr_push r s d) = rr_max_frames r" "rr_max_bytes (rr_push r s d) = rr_max_bytes r"
  using evict_to_budget_counts
    [of "r\<lparr>rr_bytes := rr_bytes r + length d, rr_entries := rr_entries r @ [(s, d)]\<rparr>"] assms
  by (simp_all add: rr_push_def rr_invar_def rr_counts_def)

section \<open>Which entries leave the ring\<close>

text \<open>
  Both loops drop a prefix of the entries and raise \<open>lost_below\<close> to cover it; the loop of
  \<open>ack_through\<close> stops at the first entry above the acknowledged prefix.
\<close>

lemma evict_to_budget_drops:
  "\<exists>dropped. rr_entries r = dropped @ rr_entries (evict_to_budget r)
     \<and> rr_lost_below (evict_to_budget r) = fold max (map fst dropped) (rr_lost_below r)"
proof (induction r rule: evict_to_budget.induct)
  case (1 r)
  show ?case
  proof (cases "(length (rr_entries r) > rr_max_frames r \<or> rr_bytes r > rr_max_bytes r)
      \<and> rr_entries r \<noteq> []")
    case True
    let ?r' = "fst (evict_oldest r)"
    obtain s d rest where es: "rr_entries r = (s, d) # rest" using True by (cases "rr_entries r") auto
    have some: "snd (evict_oldest r) = Some s" by (simp add: evict_oldest_def es)
    with True "1.IH" obtain dropped where
      "rr_entries ?r' = dropped @ rr_entries (evict_to_budget ?r')"
      "rr_lost_below (evict_to_budget ?r') = fold max (map fst dropped) (rr_lost_below ?r')"
      by blast
    then show ?thesis using True some es
      by (intro exI [of _ "(s, d) # dropped"])
        (simp add: evict_to_budget.simps [of r] evict_oldest_simps max.commute)
  next
    case False
    then show ?thesis
      by (intro exI [of _ "[]"]) (auto simp: evict_to_budget.simps [of r] evict_oldest_def)
  qed
qed

lemma evict_through_drops:
  "\<exists>dropped. rr_entries r = dropped @ rr_entries (evict_through c r)
     \<and> (\<forall>e \<in> set dropped. fst e \<le> c)
     \<and> rr_lost_below (evict_through c r) = fold max (map fst dropped) (rr_lost_below r)"
proof (induction c r rule: evict_through.induct)
  case (1 c r)
  show ?case
  proof (cases "rr_entries r")
    case Nil
    then show ?thesis by (simp add: evict_through.simps [of c r])
  next
    case (Cons e rest)
    obtain s d where e: "e = (s, d)" by (cases e)
    show ?thesis
    proof (cases "s > c")
      case True
      then show ?thesis
        by (intro exI [of _ "[]"]) (simp add: evict_through.simps [of c r] Cons e)
    next
      case False
      let ?r' = "fst (evict_oldest r)"
      obtain dropped where
        "rr_entries ?r' = dropped @ rr_entries (evict_through c ?r')"
        "\<forall>e \<in> set dropped. fst e \<le> c"
        "rr_lost_below (evict_through c ?r') = fold max (map fst dropped) (rr_lost_below ?r')"
        using "1.IH" [OF Cons e [symmetric] False] by blast
      then show ?thesis using False
        by (intro exI [of _ "(s, d) # dropped"])
          (simp add: evict_through.simps [of c r] evict_oldest_simps max.commute Cons e)
    qed
  qed
qed

lemma fold_max_ge: "b \<le> fold max xs b" for b :: u32
  by (induction xs arbitrary: b) (auto intro: order_trans [OF max.cobounded2])

lemma fold_max_mem: "x \<in> set xs \<Longrightarrow> x \<le> fold max xs b" for b :: u32
proof (induction xs arbitrary: b)
  case Nil
  then show ?case by simp
next
  case (Cons y ys)
  then show ?case using fold_max_ge [of "max y b" ys] by auto
qed

lemma fold_max_bound: "b \<le> c \<Longrightarrow> \<forall>x \<in> set xs. x \<le> c \<Longrightarrow> fold max xs b \<le> c" for b :: u32
  by (induction xs arbitrary: b) auto

section \<open>What the sender relies on\<close>

datatype store_op = Push XferSeq bytes | AckThrough XferSeq

fun apply_op ::
  "('r \<Rightarrow> XferSeq \<Rightarrow> bytes \<Rightarrow> 'r) \<Rightarrow> ('r \<Rightarrow> XferSeq \<Rightarrow> 'r) \<Rightarrow> store_op \<Rightarrow> 'r \<Rightarrow> 'r" where
  "apply_op push ack (Push s d) r = push r s d"
| "apply_op push ack (AckThrough c) r = ack r c"

locale sealed_store =
  fixes push :: "'r \<Rightarrow> XferSeq \<Rightarrow> bytes \<Rightarrow> 'r"
    and ack :: "'r \<Rightarrow> XferSeq \<Rightarrow> 'r"
    and get :: "'r \<Rightarrow> XferSeq \<Rightarrow> bytes option"
    and lost :: "'r \<Rightarrow> XferSeq"
    and held :: "'r \<Rightarrow> (XferSeq \<times> bytes) set"
  assumes get_held: "get r s = Some d \<Longrightarrow> (s, d) \<in> held r"
    and get_None: "get r s = None \<Longrightarrow> (s, d) \<notin> held r"
    and held_push: "held (push r s d) \<subseteq> insert (s, d) (held r)"
    and push_keeps: "e \<in> insert (s, d) (held r) \<Longrightarrow> e \<notin> held (push r s d) \<Longrightarrow> fst e \<le> lost (push r s d)"
    and held_ack: "held (ack r c) \<subseteq> held r"
    and ack_keeps: "e \<in> held r \<Longrightarrow> e \<notin> held (ack r c) \<Longrightarrow> fst e \<le> c"
    and ack_lost: "c \<le> lost (ack r c)"
    and lost_push: "lost r \<le> lost (push r s d)"
    and lost_ack: "lost r \<le> lost (ack r c)"
begin

abbreviation run :: "store_op \<Rightarrow> 'r \<Rightarrow> 'r" where
  "run \<equiv> apply_op push ack"

lemma held_run: "held (fold run ops r) \<subseteq> held r \<union> {(s, d). Push s d \<in> set ops}"
proof (induction ops arbitrary: r)
  case Nil
  then show ?case by simp
next
  case (Cons op ops)
  show ?case using Cons.IH [of "run op r"] held_push held_ack by (cases op) fastforce+
qed

lemma get_was_pushed:
  assumes "held r = {}" and "get (fold run ops r) s = Some d"
  shows "Push s d \<in> set ops"
  using held_run [of ops r] get_held [OF assms(2)] assms(1) by auto

lemma lost_run: "lost r \<le> lost (fold run ops r)"
proof (induction ops arbitrary: r)
  case Nil
  then show ?case by simp
next
  case (Cons op ops)
  have "lost r \<le> lost (run op r)" by (cases op) (simp_all add: lost_push lost_ack)
  with Cons.IH [of "run op r"] show ?case by (simp add: order_trans)
qed

lemma held_or_lost:
  "e \<in> held r \<Longrightarrow> e \<in> held (fold run ops r) \<or> fst e \<le> lost (fold run ops r)"
proof (induction ops arbitrary: r)
  case Nil
  then show ?case by simp
next
  case (Cons op ops)
  have "e \<in> held (run op r) \<or> fst e \<le> lost (run op r)"
  proof (cases op)
    case (Push s d)
    then show ?thesis using push_keeps [of e s d r] Cons.prems by auto
  next
    case (AckThrough c)
    then show ?thesis using ack_keeps [of e r c] ack_lost [of c r] Cons.prems by (auto intro: order_trans)
  qed
  then show ?case
    using Cons.IH [of "run op r"] lost_run [of "run op r" ops] by (auto intro: order_trans)
qed

lemma pushed_held_or_lost:
  assumes "Push s d \<in> set ops"
  shows "get (fold run ops r) s \<noteq> None \<or> s \<le> lost (fold run ops r)"
proof -
  obtain before after where ops: "ops = before @ Push s d # after" using assms split_list by fast
  let ?r = "push (fold run before r) s d"
  have "(s, d) \<in> held ?r \<or> s \<le> lost ?r"
    using push_keeps [of "(s, d)" s d] by auto
  moreover have "lost ?r \<le> lost (fold run after ?r)" by (rule lost_run)
  ultimately have "(s, d) \<in> held (fold run after ?r) \<or> s \<le> lost (fold run after ?r)"
    using held_or_lost [of "(s, d)" ?r after] by (auto intro: order_trans)
  then show ?thesis using get_None [of _ s d] by (auto simp: ops)
qed

end

lemma rr_get_Some: "rr_get r s = Some d \<Longrightarrow> (s, d) \<in> set (rr_entries r)"
  by (auto simp: rr_get_def find_Some_iff) (metis fst_conv nth_mem)

lemma rr_get_None: "rr_get r s = None \<Longrightarrow> (s, d) \<notin> set (rr_entries r)"
  by (force simp: rr_get_def find_None_iff)

lemma rr_push_drops:
  obtains dropped where "rr_entries r @ [(s, d)] = dropped @ rr_entries (rr_push r s d)"
    and "rr_lost_below (rr_push r s d) = fold max (map fst dropped) (rr_lost_below r)"
  using evict_to_budget_drops [of "r\<lparr>rr_bytes := rr_bytes r + length d,
      rr_entries := rr_entries r @ [(s, d)]\<rparr>"]
  by (auto simp: rr_push_def)

lemma ack_through_drops:
  obtains dropped where "rr_entries r = dropped @ rr_entries (ack_through r c)"
    and "\<forall>e \<in> set dropped. fst e \<le> c"
    and "rr_lost_below (ack_through r c) = max (rr_lost_below r) c"
proof -
  obtain dropped where d: "rr_entries r = dropped @ rr_entries (evict_through c r)"
    "\<forall>e \<in> set dropped. fst e \<le> c"
    "rr_lost_below (evict_through c r) = fold max (map fst dropped) (rr_lost_below r)"
    using evict_through_drops [of r c] by blast
  have "rr_lost_below r \<le> fold max (map fst dropped) (rr_lost_below r)" by (rule fold_max_ge)
  moreover have "fold max (map fst dropped) (rr_lost_below r) \<le> max (rr_lost_below r) c"
    using d(2) by (intro fold_max_bound) (auto simp: le_max_iff_disj)
  ultimately have "rr_lost_below (ack_through r c) = max (rr_lost_below r) c"
    by (auto simp: ack_through_def Let_def d(3) max_def not_less)
  with d(1,2) show thesis by (intro that [of dropped]) (simp_all add: ack_through_def Let_def)
qed

lemma rr_lost_below_ack: "rr_lost_below (ack_through r c) = max (rr_lost_below r) c"
  by (rule ack_through_drops)

lemma rr_push_keeps:
  assumes "e \<in> insert (s, d) (set (rr_entries r))" and "e \<notin> set (rr_entries (rr_push r s d))"
  shows "fst e \<le> rr_lost_below (rr_push r s d)"
proof -
  obtain dropped where d: "rr_entries r @ [(s, d)] = dropped @ rr_entries (rr_push r s d)"
    and l: "rr_lost_below (rr_push r s d) = fold max (map fst dropped) (rr_lost_below r)"
    by (rule rr_push_drops)
  have "e \<in> set (rr_entries r @ [(s, d)])" using assms(1) by simp
  then have "e \<in> set dropped" using assms(2) unfolding d by simp
  then show ?thesis unfolding l by (intro fold_max_mem) simp
qed

interpretation ring: sealed_store rr_push ack_through rr_get rr_lost_below "\<lambda>r. set (rr_entries r)"
proof unfold_locales
  fix r s d c and e :: "XferSeq \<times> bytes"
  obtain dropped where d: "rr_entries r @ [(s, d)] = dropped @ rr_entries (rr_push r s d)"
    and l: "rr_lost_below (rr_push r s d) = fold max (map fst dropped) (rr_lost_below r)"
    by (rule rr_push_drops)
  have "set (rr_entries (rr_push r s d)) \<subseteq> set (rr_entries r @ [(s, d)])" unfolding d by simp
  then show "set (rr_entries (rr_push r s d)) \<subseteq> insert (s, d) (set (rr_entries r))" by simp
  show "rr_lost_below r \<le> rr_lost_below (rr_push r s d)" unfolding l by (rule fold_max_ge)
  show "set (rr_entries (ack_through r c)) \<subseteq> set (rr_entries r)"
    by (rule ack_through_drops [of r c]) auto
  show "e \<in> set (rr_entries r) \<Longrightarrow> e \<notin> set (rr_entries (ack_through r c)) \<Longrightarrow> fst e \<le> c"
    by (rule ack_through_drops [of r c]) auto
qed (auto simp: rr_get_Some rr_get_None rr_push_keeps rr_lost_below_ack)

section \<open>Properties\<close>

text \<open>A ring after a sequence of operations, from new.\<close>

definition ring_after :: "usize \<Rightarrow> usize \<Rightarrow> store_op list \<Rightarrow> RetransRing" where
  "ring_after frames bytes' ops = fold (apply_op rr_push ack_through) ops (RetransRing_new frames bytes')"

lemma ring_after_snoc: "ring_after f b (ops @ [op]) = apply_op rr_push ack_through op (ring_after f b ops)"
  by (simp add: ring_after_def)

lemma ring_after_invar: "rr_invar (ring_after f b ops)"
proof (induction ops rule: rev_induct)
  case Nil
  then show ?case by (simp add: ring_after_def rr_invar_new)
next
  case (snoc op ops)
  then show ?case unfolding ring_after_snoc by (cases op) (simp_all add: rr_invar_push rr_invar_ack)
qed

text \<open>
  What the ring returns for a sequence number was pushed under that very number, byte for
  byte; and a number that was pushed is either still answerable or covered by \<open>lost_below\<close>, so
  the sender never silently loses the ability to retransmit.
\<close>

lemma ring_answers_or_admits_loss:
  "(\<forall>d. rr_get (ring_after f b ops) s = Some d \<longrightarrow> Push s d \<in> set ops)
   \<and> (\<forall>d. Push s d \<in> set ops \<longrightarrow>
        rr_get (ring_after f b ops) s \<noteq> None \<or> s \<le> rr_lost_below (ring_after f b ops))"
proof -
  have new: "set (rr_entries (RetransRing_new f b)) = {}" by (simp add: RetransRing_new_def)
  show ?thesis
    unfolding ring_after_def using ring.get_was_pushed [OF new] ring.pushed_held_or_lost by blast
qed

end
