(* ===== verification/Pf4_Sender.thy ===== *)
theory Pf4_Sender
  imports Pf4_Config Pf4_Retrans Pf4_Crypto Machine
begin

text \<open>
  \<open>protofish4-proto/src/xfer/sender.rs\<close>: the sending half of one transfer.  The state is the
  code's record, every method is one function from the state to the new state and what it
  returns, and \<open>send_step\<close> gathers the methods as the inputs of one machine so that statements
  can range over every sequence of calls.
\<close>

datatype SendFailure = NoAck | FinalizeTimeout

datatype SendEvent =
  Emit XferSeq Body
| Resend "bytes list"
| Completed
| Failed SendFailure

datatype SendState = S_Streaming | S_Finalizing | S_Done

record XferSender =
  tx_cfg :: SenderConfig
  tx_ring :: RetransRing
  tx_state :: SendState
  tx_next_seq :: XferSeq
  tx_control_counter :: u32
  tx_acked_highest :: u32
  tx_buffered_ms :: u16
  tx_paused :: bool
  tx_first_data_at :: "instant option"
  tx_got_ack :: bool
  tx_finalize_at :: "instant option"
  tx_last_keepalive_at :: "instant option"

definition XferSender_new :: "SenderConfig \<Rightarrow> XferSender" where
  "XferSender_new cfg = \<lparr>
     tx_cfg = cfg,
     tx_ring = RetransRing_new (retrans_ring_frames cfg) (retrans_ring_bytes cfg),
     tx_state = S_Streaming,
     tx_next_seq = XferSeq_FIRST,
     tx_control_counter = 0,
     tx_acked_highest = 0,
     tx_buffered_ms = 0,
     tx_paused = False,
     tx_first_data_at = None,
     tx_got_ack = False,
     tx_finalize_at = None,
     tx_last_keepalive_at = None\<rparr>"

definition is_done :: "XferSender \<Rightarrow> bool" where
  "is_done tx \<longleftrightarrow> tx_state tx = S_Done"

definition can_send :: "XferSender \<Rightarrow> bool" where
  "can_send tx =
     (if tx_state tx \<noteq> S_Streaming \<or> tx_paused tx then False
      else let outstanding = sat_sub (sat_sub (tx_next_seq tx) 1) (tx_acked_highest tx)
           in outstanding < max_outstanding (tx_cfg tx))"

definition push_frame ::
  "XferSender \<Rightarrow> TimestampMs \<Rightarrow> bytes \<Rightarrow> instant \<Rightarrow> XferSender \<times> SendEvent option" where
  "push_frame tx ts payload now =
     (if \<not> can_send tx then (tx, None)
      else let s = tx_next_seq tx;
               tx1 = tx\<lparr>tx_next_seq := XferSeq_next s\<rparr>;
               tx2 = (if tx_first_data_at tx1 = None then tx1\<lparr>tx_first_data_at := Some now\<rparr> else tx1)
           in (tx2, Some (Emit s (B_Data ts payload))))"

definition record_sealed :: "XferSender \<Rightarrow> XferSeq \<Rightarrow> bytes \<Rightarrow> XferSender" where
  "record_sealed tx s datagram = tx\<lparr>tx_ring := rr_push (tx_ring tx) s datagram\<rparr>"

definition control_seq :: "XferSender \<Rightarrow> XferSender \<times> XferSeq" where
  "control_seq tx =
     (let tx' = tx\<lparr>tx_control_counter := tx_control_counter tx + 1\<rparr>
      in (tx', tx_control_counter tx'))"

definition send_finish :: "XferSender \<Rightarrow> instant \<Rightarrow> XferSender \<times> SendEvent option" where
  "send_finish tx now =
     (if tx_state tx \<noteq> S_Streaming then (tx, None)
      else let tx1 = tx\<lparr>tx_state := S_Finalizing, tx_finalize_at := Some now,
                        tx_last_keepalive_at := Some now\<rparr>;
               final_seq = sat_sub (tx_next_seq tx1) 1;
               (tx2, s) = control_seq tx1
           in (tx2, Some (Emit s (B_End final_seq))))"

definition send_handle :: "XferSender \<Rightarrow> Body \<Rightarrow> instant \<Rightarrow> XferSender \<times> SendEvent list" where
  "send_handle tx body now =
     (case body of
        B_Ack contiguous highest buffered_ms \<Rightarrow>
          (let tx1 = tx\<lparr>tx_got_ack := True, tx_ring := ack_through (tx_ring tx) contiguous\<rparr>;
               tx2 = (if highest > tx_acked_highest tx1
                      then tx1\<lparr>tx_acked_highest := highest\<rparr> else tx1);
               tx3 = tx2\<lparr>tx_buffered_ms := buffered_ms\<rparr>;
               tx4 = (if buffered_ms \<ge> buffer_high_water_ms (tx_cfg tx3)
                      then tx3\<lparr>tx_paused := True\<rparr>
                      else if buffered_ms \<le> buffer_low_water_ms (tx_cfg tx3)
                      then tx3\<lparr>tx_paused := False\<rparr> else tx3)
           in (tx4, []))
      | B_Nack missing \<Rightarrow>
          (let tx1 = tx\<lparr>tx_got_ack := True\<rparr>;
               datagrams = List.map_filter (rr_get (tx_ring tx1)) missing
           in (tx1, if datagrams \<noteq> [] then [Resend datagrams] else []))
      | B_EndAck \<Rightarrow> (tx\<lparr>tx_state := S_Done\<rparr>, [Completed])
      | B_Data ts payload \<Rightarrow> (tx, [])
      | B_End final_seq \<Rightarrow> (tx, [])
      | B_Keepalive lost_below \<Rightarrow> (tx, []))"

text \<open>The keepalive both timer branches of \<open>tick\<close> emit.\<close>

definition emit_keepalive :: "XferSender \<Rightarrow> instant \<Rightarrow> XferSender \<times> SendEvent list" where
  "emit_keepalive tx now =
     (let (tx1, s) = control_seq (tx\<lparr>tx_last_keepalive_at := Some now\<rparr>)
      in (tx1, [Emit s (B_Keepalive (rr_lost_below (tx_ring tx1)))]))"

definition first_ack_expired :: "XferSender \<Rightarrow> instant \<Rightarrow> bool" where
  "first_ack_expired tx now \<longleftrightarrow>
     \<not> tx_got_ack tx \<and> (case tx_first_data_at tx of
        None \<Rightarrow> False
      | Some first \<Rightarrow> duration_since now first > first_ack_timeout (tx_cfg tx))"

definition send_tick :: "XferSender \<Rightarrow> instant \<Rightarrow> XferSender \<times> SendEvent list" where
  "send_tick tx now =
     (if tx_state tx = S_Done then (tx, [])
      else if first_ack_expired tx now then (tx\<lparr>tx_state := S_Done\<rparr>, [Failed NoAck])
      else
        let (tx1, out1) =
              (if tx_state tx = S_Streaming \<and> tx_paused tx
               then let due = (case tx_last_keepalive_at tx of
                                 Some prev \<Rightarrow>
                                   duration_since now prev \<ge> tail_keepalive_interval (tx_cfg tx)
                               | None \<Rightarrow> True)
                    in if due then emit_keepalive tx now else (tx, [])
               else (tx, []))
        in if tx_state tx1 = S_Finalizing
           then if (case tx_finalize_at tx1 of
                      Some t \<Rightarrow> duration_since now t > finalize_timeout (tx_cfg tx1)
                    | None \<Rightarrow> False)
                then (tx1\<lparr>tx_state := S_Done\<rparr>, out1 @ [Failed FinalizeTimeout])
                else if (case tx_last_keepalive_at tx1 of
                           Some prev \<Rightarrow>
                             duration_since now prev \<ge> tail_keepalive_interval (tx_cfg tx1)
                         | None \<Rightarrow> False)
                then let (tx2, out2) = emit_keepalive tx1 now in (tx2, out1 @ out2)
                else (tx1, out1)
           else (tx1, out1))"

section \<open>The methods as one machine\<close>

datatype SendInput =
  PushFrame TimestampMs bytes instant
| RecordSealed XferSeq bytes
| Finish instant
| Handle Body instant
| Tick instant

fun opt_events :: "'s \<times> 'e option \<Rightarrow> 's \<times> 'e list" where
  "opt_events (s, None) = (s, [])"
| "opt_events (s, Some e) = (s, [e])"

fun send_step :: "XferSender \<Rightarrow> SendInput \<Rightarrow> XferSender \<times> SendEvent list" where
  "send_step tx (PushFrame ts payload now) = opt_events (push_frame tx ts payload now)"
| "send_step tx (RecordSealed s d) = (record_sealed tx s d, [])"
| "send_step tx (Finish now) = opt_events (send_finish tx now)"
| "send_step tx (Handle body now) = send_handle tx body now"
| "send_step tx (Tick now) = send_tick tx now"

section \<open>One call at a time\<close>

named_theorems tx_defs \<open>the definitions of the sender's methods\<close>

lemmas [tx_defs] = push_frame_def record_sealed_def control_seq_def send_finish_def
  send_handle_def emit_keepalive_def send_tick_def

text \<open>A fact about every step from a fact about every method.\<close>

lemma send_step_cases:
  assumes "\<And>ts p now. Q (opt_events (push_frame tx ts p now))"
    and "\<And>s d. Q (record_sealed tx s d, [])"
    and "\<And>now. Q (opt_events (send_finish tx now))"
    and "\<And>b now. Q (send_handle tx b now)"
    and "\<And>now. Q (send_tick tx now)"
  shows "Q (send_step tx i)"
  using assms by (cases i) simp_all

lemma tx_cfg_step: "tx_cfg (fst (send_step tx i)) = tx_cfg tx"
  by (rule send_step_cases [where Q = "\<lambda>r. tx_cfg (fst r) = tx_cfg tx"])
    (auto simp: tx_defs Let_def split: Body.splits option.splits)

lemma can_send_iff:
  "can_send tx \<longleftrightarrow> tx_state tx = S_Streaming \<and> \<not> tx_paused tx
     \<and> unat (tx_next_seq tx) - 1 - unat (tx_acked_highest tx) < unat (max_outstanding (tx_cfg tx))"
  by (auto simp: can_send_def Let_def word_less_nat_alt unat_simps)

lemma push_frame_closed: "\<not> can_send tx \<Longrightarrow> push_frame tx ts p now = (tx, None)"
  by (simp add: push_frame_def)

lemma push_frame_open:
  "can_send tx \<Longrightarrow> push_frame tx ts p now =
     (tx\<lparr>tx_next_seq := XferSeq_next (tx_next_seq tx),
         tx_first_data_at := Some (case tx_first_data_at tx of None \<Rightarrow> now | Some t \<Rightarrow> t)\<rparr>,
      Some (Emit (tx_next_seq tx) (B_Data ts p)))"
  by (cases tx) (auto simp: push_frame_def Let_def split: option.splits)

text \<open>The occupancy brake is a hysteresis loop between the two water marks.\<close>

lemma paused_after_ack:
  "tx_paused (fst (send_handle tx (B_Ack c h b) now)) =
     (if b \<ge> buffer_high_water_ms (tx_cfg tx) then True
      else if b \<le> buffer_low_water_ms (tx_cfg tx) then False else tx_paused tx)"
  by (simp add: send_handle_def Let_def)

text \<open>The four outcomes of a timer tick of a sender that is not done.\<close>

definition keepalive_due :: "XferSender \<Rightarrow> instant \<Rightarrow> bool" where
  "keepalive_due tx now \<longleftrightarrow> (case tx_last_keepalive_at tx of
      Some t \<Rightarrow> duration_since now t \<ge> tail_keepalive_interval (tx_cfg tx)
    | None \<Rightarrow> tx_state tx = S_Streaming)"

definition finalize_expired :: "XferSender \<Rightarrow> instant \<Rightarrow> bool" where
  "finalize_expired tx now \<longleftrightarrow> (case tx_finalize_at tx of
      Some t \<Rightarrow> duration_since now t > finalize_timeout (tx_cfg tx) | None \<Rightarrow> False)"

lemma emit_keepalive_eq:
  "emit_keepalive tx now =
     (tx\<lparr>tx_last_keepalive_at := Some now, tx_control_counter := tx_control_counter tx + 1\<rparr>,
      [Emit (tx_control_counter tx + 1) (B_Keepalive (rr_lost_below (tx_ring tx)))])"
  by (simp add: emit_keepalive_def control_seq_def Let_def)

lemma send_tick_cases:
  "send_tick tx now =
     (if tx_state tx = S_Done then (tx, [])
      else if first_ack_expired tx now then (tx\<lparr>tx_state := S_Done\<rparr>, [Failed NoAck])
      else if tx_state tx = S_Finalizing \<and> finalize_expired tx now
      then (tx\<lparr>tx_state := S_Done\<rparr>, [Failed FinalizeTimeout])
      else if (tx_state tx = S_Finalizing \<or> tx_paused tx) \<and> keepalive_due tx now
      then emit_keepalive tx now
      else (tx, []))"
  by (cases "tx_state tx")
    (auto simp: send_tick_def emit_keepalive_eq keepalive_due_def finalize_expired_def Let_def
      split: option.splits)

lemma send_finish_eq:
  "send_finish tx now =
     (if tx_state tx \<noteq> S_Streaming then (tx, None)
      else (tx\<lparr>tx_state := S_Finalizing, tx_finalize_at := Some now, tx_last_keepalive_at := Some now,
               tx_control_counter := tx_control_counter tx + 1\<rparr>,
            Some (Emit (tx_control_counter tx + 1) (B_End (sat_sub (tx_next_seq tx) 1)))))"
  by (simp add: send_finish_def control_seq_def Let_def)

section \<open>The send window\<close>

definition window_ok :: "XferSender \<Rightarrow> bool" where
  "window_ok tx \<longleftrightarrow>
     unat (tx_next_seq tx) - 1 \<le> unat (tx_acked_highest tx) + unat (max_outstanding (tx_cfg tx))"

lemma window_ok_step: "window_ok tx \<Longrightarrow> window_ok (fst (send_step tx i))"
proof -
  assume ok: "window_ok tx"
  have push: "window_ok (fst (opt_events (push_frame tx ts p now)))" for ts p now
    using ok by (cases "can_send tx")
      (auto simp: push_frame_closed push_frame_open window_ok_def can_send_iff unat_XferSeq_next)
  have ack: "unat (tx_acked_highest tx) \<le> unat (tx_acked_highest (fst (send_handle tx b now)))
      \<and> tx_next_seq (fst (send_handle tx b now)) = tx_next_seq tx
      \<and> tx_cfg (fst (send_handle tx b now)) = tx_cfg tx" for b now
    by (auto simp: send_handle_def Let_def word_less_nat_alt split: Body.splits)
  have handle: "window_ok (fst (send_handle tx b now))" for b now
    using ok ack [of b now] by (simp add: window_ok_def)
  show ?thesis
    by (rule send_step_cases [where Q = "\<lambda>r. window_ok (fst r)"])
      (use ok push handle in \<open>auto simp: window_ok_def record_sealed_def send_finish_eq
         send_tick_cases emit_keepalive_eq\<close>)
qed

lemma XferSender_new_simps [simp]:
  "tx_cfg (XferSender_new cfg) = cfg" "tx_state (XferSender_new cfg) = S_Streaming"
  "tx_next_seq (XferSender_new cfg) = 1" "tx_control_counter (XferSender_new cfg) = 0"
  "rr_entries (tx_ring (XferSender_new cfg)) = []" "tx_acked_highest (XferSender_new cfg) = 0"
  "tx_finalize_at (XferSender_new cfg) = None" "tx_got_ack (XferSender_new cfg) = False"
  by (simp_all add: XferSender_new_def XferSeq_FIRST_def RetransRing_new_def)

lemma window_ok_new: "window_ok (XferSender_new cfg)"
  by (simp add: window_ok_def)

interpretation window: state_invariant send_step "XferSender_new cfg"
  "\<lambda>tx. window_ok tx \<and> tx_cfg tx = cfg" for cfg
  by unfold_locales (auto simp: window_ok_new tx_cfg_step intro: window_ok_step)

section \<open>Sequence numbers and nonces\<close>

text \<open>The packets a trace seals, and the counters they use in the two nonce classes.\<close>

fun is_data :: "Body \<Rightarrow> bool" where
  "is_data (B_Data ts p) = True"
| "is_data _ = False"

fun emits :: "SendEvent list \<Rightarrow> (XferSeq \<times> Body) list" where
  "emits [] = []"
| "emits (Emit s b # es) = (s, b) # emits es"
| "emits (_ # es) = emits es"

definition data_emits :: "SendEvent list \<Rightarrow> (XferSeq \<times> Body) list" where
  "data_emits es = filter (\<lambda>e. is_data (snd e)) (emits es)"

definition control_emits :: "SendEvent list \<Rightarrow> (XferSeq \<times> Body) list" where
  "control_emits es = filter (\<lambda>e. \<not> is_data (snd e)) (emits es)"

definition emit_nonces :: "SendEvent list \<Rightarrow> bytes list" where
  "emit_nonces es =
     map (\<lambda>(s, b). nonce_for Dir_Send (PacketKind_seq_class (Body_kind b)) s) (emits es)"

lemma emits_append [simp]: "emits (es @ fs) = emits es @ emits fs"
  by (induction es rule: emits.induct) simp_all

lemma data_emits_append [simp]: "data_emits (es @ fs) = data_emits es @ data_emits fs"
  by (simp add: data_emits_def)

lemma control_emits_append [simp]: "control_emits (es @ fs) = control_emits es @ control_emits fs"
  by (simp add: control_emits_def)

lemma emits_simps [simp]:
  "data_emits [] = []" "control_emits [] = []"
  "data_emits (Emit s b # es) = (if is_data b then (s, b) # data_emits es else data_emits es)"
  "control_emits (Emit s b # es) = (if is_data b then control_emits es else (s, b) # control_emits es)"
  "data_emits (Failed f # es) = data_emits es" "control_emits (Failed f # es) = control_emits es"
  "data_emits (Resend ds # es) = data_emits es" "control_emits (Resend ds # es) = control_emits es"
  "data_emits (Completed # es) = data_emits es" "control_emits (Completed # es) = control_emits es"
  by (simp_all add: data_emits_def control_emits_def)

text \<open>
  The \<open>n\<close>-th payload frame gets sequence number \<open>n\<close> as long as there are at most \<open>2^32 - 1\<close> of
  them, and the \<open>n\<close>-th control packet counter \<open>n\<close> modulo \<open>2^32\<close>.
\<close>

definition seq_inv :: "SendEvent list \<Rightarrow> XferSender \<Rightarrow> bool" where
  "seq_inv es tx \<longleftrightarrow>
     (let n = length (data_emits es) in
        n \<le> 2 ^ 32 - 1 \<longrightarrow>
          map (\<lambda>e. unat (fst e)) (data_emits es) = map Suc [0..<n]
          \<and> unat (tx_next_seq tx) = min (Suc n) (2 ^ 32 - 1))
     \<and> (let m = length (control_emits es) in
        tx_control_counter tx = of_nat m
        \<and> map fst (control_emits es) = map (\<lambda>k. of_nat (Suc k)) [0..<m])"

lemma seq_inv_silent:
  assumes "seq_inv es tx" and "data_emits fs = []" and "control_emits fs = []"
    and "tx_next_seq tx' = tx_next_seq tx" and "tx_control_counter tx' = tx_control_counter tx"
  shows "seq_inv (es @ fs) tx'"
  using assms by (simp add: seq_inv_def)

lemma seq_inv_control:
  assumes "seq_inv es tx" and "\<not> is_data b"
    and "tx_next_seq tx' = tx_next_seq tx" and "tx_control_counter tx' = tx_control_counter tx + 1"
  shows "seq_inv (es @ [Emit (tx_control_counter tx + 1) b]) tx'"
  using assms by (simp add: seq_inv_def Let_def add.commute)

lemma seq_inv_data:
  assumes "seq_inv es tx" and "tx_next_seq tx' = XferSeq_next (tx_next_seq tx)"
    and "tx_control_counter tx' = tx_control_counter tx"
  shows "seq_inv (es @ [Emit (tx_next_seq tx) (B_Data ts p)]) tx'"
  using assms by (auto simp: seq_inv_def Let_def unat_XferSeq_next)

lemma seq_inv_step:
  assumes inv: "seq_inv es tx"
  shows "seq_inv (es @ snd (send_step tx i)) (fst (send_step tx i))"
proof -
  let ?Q = "\<lambda>r. seq_inv (es @ snd r) (fst r)"
  note silent = seq_inv_silent [OF inv, of "[]", simplified] and silent' = seq_inv_silent [OF inv]
  have push: "?Q (opt_events (push_frame tx ts p now))" for ts p now
    by (cases "can_send tx") (simp_all add: push_frame_closed push_frame_open inv seq_inv_data)
  have finish: "?Q (opt_events (send_finish tx now))" for now
    by (cases "tx_state tx = S_Streaming") (simp_all add: send_finish_eq inv seq_inv_control)
  have handle: "?Q (send_handle tx b now)" for b now
    by (cases b) (auto simp: send_handle_def Let_def inv intro!: silent silent')
  have tick: "?Q (send_tick tx now)" for now
    by (auto simp: send_tick_cases emit_keepalive_eq inv intro!: silent silent' seq_inv_control)
  have rec: "?Q (record_sealed tx s d, [])" for s d
    by (auto simp: record_sealed_def intro!: silent)
  show ?thesis by (rule send_step_cases [where Q = ?Q]) (rule push rec finish handle tick)+
qed

lemma seq_inv_new: "seq_inv [] (XferSender_new cfg)"
  by (simp add: seq_inv_def)

interpretation seqs: history_invariant send_step "XferSender_new cfg" "\<lambda>is es tx. seq_inv es tx" for cfg
  by unfold_locales (rule seq_inv_new, rule seq_inv_step)

lemma distinct_by_class:
  assumes "distinct (map fst (filter (\<lambda>e. is_data (snd e)) xs))"
    and "distinct (map fst (filter (\<lambda>e. \<not> is_data (snd e)) xs))"
  shows "distinct (map (\<lambda>(s, b). (is_data b, s)) xs)"
  using assms by (induction xs) (auto simp: image_iff split: if_splits)

lemma class_of_body: "PacketKind_seq_class (Body_kind b) = (if is_data b then SC_Data else SC_Control)"
  by (cases b) (simp_all add: PacketKind_seq_class_def)

lemma distinct_nonces:
  assumes "distinct (map fst (data_emits es))" and "distinct (map fst (control_emits es))"
  shows "distinct (emit_nonces es)"
proof -
  let ?f = "\<lambda>(d, s). nonce_for Dir_Send (if d then SC_Data else SC_Control) s"
  have "distinct (map ?f (map (\<lambda>(s, b). (is_data b, s)) (emits es)))"
    using assms distinct_by_class [of "emits es"]
    unfolding distinct_map data_emits_def control_emits_def
    by (auto simp: inj_on_def nonce_for_inj split: if_splits)
  then show ?thesis by (simp add: emit_nonces_def class_of_body comp_def case_prod_unfold)
qed

lemma seq_inv_distinct:
  assumes "seq_inv es tx"
  shows "length (data_emits es) \<le> 2 ^ 32 - 1 \<Longrightarrow> distinct (map fst (data_emits es))"
    and "length (control_emits es) < 2 ^ 32 \<Longrightarrow> distinct (map fst (control_emits es))"
proof -
  assume "length (data_emits es) \<le> 2 ^ 32 - 1"
  with assms have "map unat (map fst (data_emits es)) = map Suc [0..<length (data_emits es)]"
    by (simp add: seq_inv_def Let_def comp_def)
  then have "distinct (map unat (map fst (data_emits es)))" by (simp add: distinct_map)
  then show "distinct (map fst (data_emits es))" by (simp only: distinct_map)
next
  assume lt: "length (control_emits es) < 2 ^ 32"
  have eq: "map fst (control_emits es) = map (\<lambda>k. of_nat (Suc k)) [0..<length (control_emits es)]"
    using assms by (simp add: seq_inv_def Let_def)
  have "inj_on (\<lambda>k. of_nat (Suc k) :: u32) {0..<length (control_emits es)}"
  proof (rule inj_onI)
    fix x y assume xy: "x \<in> {0..<length (control_emits es)}" "y \<in> {0..<length (control_emits es)}"
      and "(of_nat (Suc x) :: u32) = of_nat (Suc y)"
    then have "unat (of_nat x :: u32) = unat (of_nat y :: u32)" by (simp only: of_nat_Suc add_left_cancel)
    moreover have "unat (of_nat x :: u32) = x" "unat (of_nat y :: u32) = y"
      using xy lt by (auto intro!: unat_of_nat_u32)
    ultimately show "x = y" by (simp only:)
  qed
  then show "distinct (map fst (control_emits es))" unfolding eq by (simp add: distinct_map)
qed

section \<open>Retransmission is verbatim\<close>

text \<open>
  Everything in the ring was handed over by \<open>record_sealed\<close>, and every datagram of a \<open>Resend\<close>
  was recorded under a sequence number that some \<open>Nack\<close> asked for.
\<close>

definition asked :: "SendInput list \<Rightarrow> XferSeq \<Rightarrow> bool" where
  "asked is s \<longleftrightarrow> (\<exists>m now. Handle (B_Nack m) now \<in> set is \<and> s \<in> set m)"

definition verbatim_inv :: "SendInput list \<Rightarrow> SendEvent list \<Rightarrow> XferSender \<Rightarrow> bool" where
  "verbatim_inv is es tx \<longleftrightarrow>
     set (rr_entries (tx_ring tx)) \<subseteq> {(s, d). RecordSealed s d \<in> set is}
     \<and> (\<forall>ds d. Resend ds \<in> set es \<and> d \<in> set ds \<longrightarrow> (\<exists>s. RecordSealed s d \<in> set is \<and> asked is s))"

lemma asked_mono: "asked is s \<Longrightarrow> asked (is @ js) s"
  by (auto simp: asked_def)

lemma verbatim_inv_extend:
  assumes "verbatim_inv is es tx"
    and "set (rr_entries (tx_ring tx')) \<subseteq>
           set (rr_entries (tx_ring tx)) \<union> {(s, d). RecordSealed s d = i}"
    and "\<And>ds d. Resend ds \<in> set fs \<Longrightarrow> d \<in> set ds \<Longrightarrow>
           \<exists>s. (s, d) \<in> set (rr_entries (tx_ring tx)) \<and> asked [i] s"
  shows "verbatim_inv (is @ [i]) (es @ fs) tx'"
proof -
  have "\<exists>s. RecordSealed s d \<in> set (is @ [i]) \<and> asked (is @ [i]) s"
    if "Resend ds \<in> set fs" "d \<in> set ds" for ds d
  proof -
    note src = assms(3) [OF that]
    obtain s where s: "(s, d) \<in> set (rr_entries (tx_ring tx))" "asked [i] s"
      using src by blast
    then have "RecordSealed s d \<in> set is" using assms(1) by (auto simp: verbatim_inv_def)
    then show ?thesis using s(2) by (auto simp: asked_def)
  qed
  moreover have "\<exists>s. RecordSealed s d \<in> set (is @ [i]) \<and> asked (is @ [i]) s"
    if old: "Resend ds \<in> set es" "d \<in> set ds" for ds d
  proof -
    obtain s where "RecordSealed s d \<in> set is" "asked is s"
      using assms(1) old unfolding verbatim_inv_def by blast
    then show ?thesis using asked_mono by auto
  qed
  moreover have "set (rr_entries (tx_ring tx')) \<subseteq> {(s, d). RecordSealed s d \<in> set (is @ [i])}"
    using assms(1,2) by (auto simp: verbatim_inv_def)
  ultimately show ?thesis unfolding verbatim_inv_def set_append [of es fs] by blast
qed

lemma tx_ring_unchanged:
  "tx_ring (fst (opt_events (push_frame tx ts p now))) = tx_ring tx"
  "tx_ring (fst (opt_events (send_finish tx now))) = tx_ring tx"
  "tx_ring (fst (send_tick tx now)) = tx_ring tx"
  by (cases "can_send tx")
    (auto simp: push_frame_closed push_frame_open send_finish_eq send_tick_cases emit_keepalive_eq)

lemma no_resend:
  "Resend ds \<notin> set (snd (opt_events (push_frame tx ts p now)))"
  "Resend ds \<notin> set (snd (opt_events (send_finish tx now)))"
  "Resend ds \<notin> set (snd (send_tick tx now))"
  by (cases "can_send tx")
    (auto simp: push_frame_closed push_frame_open send_finish_eq send_tick_cases emit_keepalive_eq)

lemma verbatim_inv_step:
  assumes "verbatim_inv is es tx"
  shows "verbatim_inv (is @ [i]) (es @ snd (send_step tx i)) (fst (send_step tx i))"
proof (rule verbatim_inv_extend [OF assms])
  show "set (rr_entries (tx_ring (fst (send_step tx i)))) \<subseteq>
      set (rr_entries (tx_ring tx)) \<union> {(s, d). RecordSealed s d = i}"
  proof (cases i)
    case (RecordSealed s d)
    then show ?thesis using ring.held_push [of "tx_ring tx" s d] by (auto simp: record_sealed_def)
  next
    case (Handle b now)
    then show ?thesis using ring.held_ack [of "tx_ring tx"]
      by (auto simp: send_handle_def Let_def split: Body.splits)
  qed (simp_all add: tx_ring_unchanged)
next
  fix ds d assume "Resend ds \<in> set (snd (send_step tx i))" "d \<in> set ds"
  then obtain m now where i: "i = Handle (B_Nack m) now"
    and "d \<in> set (List.map_filter (rr_get (tx_ring tx)) m)"
    using no_resend by (cases i) (auto simp: send_handle_def Let_def split: Body.splits if_splits)
  then obtain s where "s \<in> set m" "rr_get (tx_ring tx) s = Some d"
    by (auto simp: set_map_filter_iff)
  then show "\<exists>s. (s, d) \<in> set (rr_entries (tx_ring tx)) \<and> asked [i] s"
    using i by (auto simp: asked_def dest: rr_get_Some)
qed

interpretation verbatim: history_invariant send_step "XferSender_new cfg" verbatim_inv for cfg
  by unfold_locales (simp add: verbatim_inv_def, rule verbatim_inv_step)

text \<open>The ring of a sender has seen exactly the recorded datagrams and the acknowledgements.\<close>

fun ring_op :: "SendInput \<Rightarrow> store_op option" where
  "ring_op (RecordSealed s d) = Some (Push s d)"
| "ring_op (Handle (B_Ack c h b) now) = Some (AckThrough c)"
| "ring_op _ = None"

lemma tx_ring_step:
  "tx_ring (fst (send_step tx i)) =
     (case ring_op i of None \<Rightarrow> tx_ring tx | Some op \<Rightarrow> apply_op rr_push ack_through op (tx_ring tx))"
proof (cases i)
  case (Handle b now)
  then show ?thesis by (cases b) (simp_all add: send_handle_def Let_def)
qed (simp_all add: tx_ring_unchanged record_sealed_def)

lemma tx_ring_history:
  "tx_ring (final send_step (XferSender_new cfg) is) =
     ring_after (retrans_ring_frames cfg) (retrans_ring_bytes cfg) (List.map_filter ring_op is)"
proof (induction "is" rule: rev_induct)
  case Nil
  then show ?case by (simp add: ring_after_def List.map_filter_simps XferSender_new_def)
next
  case (snoc i "is")
  then show ?case
    unfolding final_snoc tx_ring_step
    by (simp add: map_filter_append ring_after_snoc List.map_filter_simps split: option.splits)
qed

lemma ring_op_Push: "Push s d \<in> set (List.map_filter ring_op is) \<longleftrightarrow> RecordSealed s d \<in> set is"
proof -
  have "ring_op i = Some (Push s d) \<longleftrightarrow> i = RecordSealed s d" for i by (cases i rule: ring_op.cases) auto
  then show ?thesis by (auto simp: set_map_filter_iff)
qed

section \<open>Life cycle\<close>

text \<open>Once done, a sender stays done and seals nothing more.\<close>

lemma done_step:
  assumes "is_done tx"
  shows "is_done (fst (send_step tx i)) \<and> emits (snd (send_step tx i)) = []"
proof -
  have "\<not> can_send tx" using assms by (simp add: is_done_def can_send_iff)
  then show ?thesis using assms
    by (cases i) (auto simp: is_done_def push_frame_closed record_sealed_def send_finish_eq
        send_handle_def send_tick_cases Let_def split: Body.splits)
qed

lemma done_run: "is_done tx \<Longrightarrow> is_done (final send_step tx is) \<and> emits (trace send_step tx is) = []"
proof (induction "is" arbitrary: tx)
  case Nil
  then show ?case by simp
next
  case (Cons i "is")
  then show ?case using done_step [of tx i] by (simp add: split_beta)
qed

text \<open>\<open>End\<close> is emitted at most once, by \<open>finish\<close>, and declares the last sequence number used.\<close>

fun ends :: "SendEvent list \<Rightarrow> XferSeq list" where
  "ends [] = []"
| "ends (Emit s (B_End f) # es) = f # ends es"
| "ends (_ # es) = ends es"

lemma ends_append [simp]: "ends (es @ fs) = ends es @ ends fs"
  by (induction es rule: ends.induct) simp_all

definition end_inv :: "SendEvent list \<Rightarrow> XferSender \<Rightarrow> bool" where
  "end_inv es tx \<longleftrightarrow>
     (tx_state tx = S_Streaming \<longrightarrow> ends es = []) \<and> length (ends es) \<le> 1
     \<and> (\<forall>f \<in> set (ends es). f = sat_sub (tx_next_seq tx) 1)
     \<and> (tx_state tx = S_Finalizing \<longrightarrow> tx_finalize_at tx \<noteq> None)"

lemma end_inv_quiet:
  assumes "end_inv es tx" and "ends fs = []" and "tx_next_seq tx' = tx_next_seq tx"
    and "tx_finalize_at tx' = tx_finalize_at tx"
    and "tx_state tx' = tx_state tx \<or> tx_state tx' = S_Done"
  shows "end_inv (es @ fs) tx'"
  using assms by (auto simp: end_inv_def)

lemma end_inv_step:
  assumes inv: "end_inv es tx"
  shows "end_inv (es @ snd (send_step tx i)) (fst (send_step tx i))"
proof -
  note quiet = end_inv_quiet [OF inv, of "[]", simplified] and quiet' = end_inv_quiet [OF inv]
  show ?thesis
  proof (cases i)
    case (PushFrame ts p now)
    then show ?thesis using inv
      by (cases "can_send tx")
        (auto simp: push_frame_closed push_frame_open end_inv_def can_send_iff)
  next
    case (RecordSealed s d)
    then show ?thesis by (auto simp: record_sealed_def intro: quiet)
  next
    case (Finish now)
    then show ?thesis using inv by (auto simp: send_finish_eq end_inv_def)
  next
    case (Handle b now)
    then show ?thesis
      by (cases b) (auto simp: send_handle_def Let_def inv intro!: quiet quiet')
  next
    case (Tick now)
    then show ?thesis
      by (auto simp: send_tick_cases emit_keepalive_eq inv intro!: quiet quiet')
  qed
qed

interpretation ending: history_invariant send_step "XferSender_new cfg" "\<lambda>is es tx. end_inv es tx" for cfg
  by unfold_locales (simp add: end_inv_def, rule end_inv_step)

text \<open>A streaming sender that was acknowledged once never gives up, whatever the clock says.\<close>

lemma streaming_tick:
  assumes "tx_state tx = S_Streaming" and "tx_got_ack tx"
  shows "tx_state (fst (send_tick tx now)) = S_Streaming \<and> tx_got_ack (fst (send_tick tx now))
    \<and> (can_send (fst (send_tick tx now)) \<longleftrightarrow> can_send tx)
    \<and> (\<forall>f. Failed f \<notin> set (snd (send_tick tx now)))"
  using assms
  by (auto simp: send_tick_cases first_ack_expired_def emit_keepalive_eq can_send_iff)

lemma streaming_ticks:
  assumes "tx_state tx = S_Streaming" and "tx_got_ack tx"
  shows "tx_state (final send_step tx (map Tick ts)) = S_Streaming
    \<and> (can_send (final send_step tx (map Tick ts)) \<longleftrightarrow> can_send tx)
    \<and> (\<forall>f. Failed f \<notin> set (trace send_step tx (map Tick ts)))"
  using assms
proof (induction ts arbitrary: tx)
  case Nil
  then show ?case by simp
next
  case (Cons t ts)
  then show ?case using streaming_tick [OF Cons.prems, of t] by (auto simp: split_beta)
qed

section \<open>Memory, pausing and the finalize deadline\<close>

definition ring_ok :: "SenderConfig \<Rightarrow> XferSender \<Rightarrow> bool" where
  "ring_ok cfg tx \<longleftrightarrow> rr_invar (tx_ring tx)
     \<and> rr_max_frames (tx_ring tx) = max (retrans_ring_frames cfg) 1
     \<and> rr_max_bytes (tx_ring tx) = max (retrans_ring_bytes cfg) 1"

lemma ring_ok_step:
  assumes "ring_ok cfg tx"
  shows "ring_ok cfg (fst (send_step tx i))"
proof (cases i)
  case (RecordSealed s d)
  then show ?thesis using assms by (simp add: ring_ok_def record_sealed_def rr_invar_push rr_max_push)
next
  case (Handle b now)
  then show ?thesis using assms
    by (cases b) (simp_all add: ring_ok_def send_handle_def Let_def rr_invar_ack)
qed (use assms in \<open>simp_all add: ring_ok_def tx_ring_unchanged\<close>)

interpretation ring_bound: state_invariant send_step "XferSender_new cfg" "ring_ok cfg" for cfg
  using rr_invar_new ring_ok_step
  by unfold_locales (simp_all add: ring_ok_def XferSender_new_def RetransRing_new_def)

text \<open>Inputs that leave a paused sender paused: anything but an \<open>Ack\<close> at or below the low mark.\<close>

fun keeps_pause :: "SenderConfig \<Rightarrow> SendInput \<Rightarrow> bool" where
  "keeps_pause cfg (Handle (B_Ack c h b) now) \<longleftrightarrow> b > buffer_low_water_ms cfg"
| "keeps_pause cfg _ \<longleftrightarrow> True"

lemma paused_step:
  assumes "tx_paused tx" and "keeps_pause (tx_cfg tx) i"
  shows "tx_paused (fst (send_step tx i)) \<and> data_emits (snd (send_step tx i)) = []"
proof -
  have "\<not> can_send tx" using assms by (simp add: can_send_iff)
  then show ?thesis using assms
    by (cases "(tx_cfg tx, i)" rule: keeps_pause.cases)
      (auto simp: push_frame_closed record_sealed_def send_finish_eq send_handle_def Let_def
        send_tick_cases emit_keepalive_eq)
qed

lemma paused_run:
  assumes "tx_paused tx" and "list_all (keeps_pause (tx_cfg tx)) is"
  shows "tx_paused (final send_step tx is) \<and> data_emits (trace send_step tx is) = []"
  using assms
proof (induction "is" arbitrary: tx)
  case Nil
  then show ?case by simp
next
  case (Cons i "is")
  then show ?case using paused_step [of tx i] tx_cfg_step [of tx i] by (simp add: split_beta)
qed

text \<open>Once \<open>finish\<close> has run, the deadline it set stays until the sender is done.\<close>

definition deadline :: "SenderConfig \<Rightarrow> instant \<Rightarrow> XferSender \<Rightarrow> bool" where
  "deadline cfg t tx \<longleftrightarrow>
     is_done tx \<or> tx_state tx = S_Finalizing \<and> tx_finalize_at tx = Some t \<and> tx_cfg tx = cfg"

lemma deadline_step:
  assumes "deadline cfg t tx"
  shows "deadline cfg t (fst (send_step tx i))"
proof (cases "is_done tx")
  case True
  then show ?thesis using done_step [of tx i] by (simp add: deadline_def)
next
  case False
  then have "\<not> can_send tx" using assms by (simp add: deadline_def can_send_iff)
  then show ?thesis using assms False
    by (cases i) (auto simp: deadline_def is_done_def push_frame_closed record_sealed_def
        send_finish_eq send_handle_def Let_def send_tick_cases emit_keepalive_eq split: Body.splits)
qed

lemma deadline_run: "deadline cfg t tx \<Longrightarrow> deadline cfg t (final send_step tx is)"
proof (induction "is" arbitrary: tx)
  case Nil
  then show ?case by simp
next
  case (Cons i "is")
  then show ?case using deadline_step [of cfg t tx i] by (simp add: split_beta)
qed

lemma deadline_tick:
  assumes "deadline cfg t tx" and "duration_since now t > finalize_timeout cfg"
  shows "is_done (fst (send_tick tx now))"
  using assms by (auto simp: deadline_def is_done_def send_tick_cases finalize_expired_def)

section \<open>Properties\<close>

text \<open>
  C23: whatever calls are made in whatever order, the sender never has more than
  \<open>max_outstanding\<close> payload frames beyond the highest sequence number the receiver reported.
\<close>

theorem send_window_respected:
  "unat (tx_next_seq (final send_step (XferSender_new cfg) is)) - 1
     \<le> unat (tx_acked_highest (final send_step (XferSender_new cfg) is)) + unat (max_outstanding cfg)"
  using window.holds [of cfg "is"] by (auto simp: window_ok_def)

lemmas tx_eval = XferSender_new_def SenderConfig_default_def RetransRing_new_def XferSeq_FIRST_def
  XferSeq_next_def can_send_def sat_sub_def sat_add_def ack_through_def evict_through.simps

definition two_frames :: "SendInput list" where
  "two_frames = [PushFrame 0 [1] 0, Handle (B_Ack 1 1 0) 5, PushFrame 20 [2] 10, Finish 20]"

lemma two_frames_trace:
  "trace send_step (XferSender_new SenderConfig_default) two_frames
     = [Emit 1 (B_Data 0 [1]), Emit 2 (B_Data 20 [2]), Emit 1 (B_End 2)]"
  by (simp add: two_frames_def tx_defs tx_eval)

text \<open>
  No two packets the sender seals in one transfer use the same nonce, payload and control
  together, as long as there are at most \<open>2^32 - 1\<close> of the former and fewer than \<open>2^32\<close> of the
  latter.  Retransmissions are not sealed again.
\<close>

lemma tap_nonces_never_repeat:
  assumes "length (data_emits (trace send_step (XferSender_new cfg) is)) \<le> 2 ^ 32 - 1"
    and "length (control_emits (trace send_step (XferSender_new cfg) is)) < 2 ^ 32"
  shows "distinct (emit_nonces (trace send_step (XferSender_new cfg) is))"
  by (intro distinct_nonces seq_inv_distinct [OF seqs.holds] assms)

lemma tap_nonces_never_repeat_instance:
  "distinct (emit_nonces (trace send_step (XferSender_new SenderConfig_default) two_frames))"
  by (rule tap_nonces_never_repeat) (simp_all add: two_frames_trace)

text \<open>
  C17: every datagram a \<open>Resend\<close> carries is, byte for byte, one that was recorded for a sequence
  number some \<open>Nack\<close> asked for; nothing is ever encrypted twice.
\<close>

theorem resend_is_verbatim:
  assumes "Resend ds \<in> set (trace send_step (XferSender_new cfg) is)" and "d \<in> set ds"
  shows "\<exists>s m now. RecordSealed s d \<in> set is \<and> Handle (B_Nack m) now \<in> set is \<and> s \<in> set m"
  using verbatim.holds [of "is" cfg] assms unfolding verbatim_inv_def asked_def by blast

theorem resend_is_verbatim_witness:
  "\<exists>s m now. RecordSealed s [9] \<in> set [PushFrame 0 [1] 0, RecordSealed 1 [9], Handle (B_Nack [1]) 5]
     \<and> Handle (B_Nack m) now \<in> set [PushFrame 0 [1] 0, RecordSealed 1 [9], Handle (B_Nack [1]) 5]
     \<and> s \<in> set m"
proof (rule resend_is_verbatim)
  show "Resend [[9]] \<in> set (trace send_step (XferSender_new SenderConfig_default)
      [PushFrame 0 [1] 0, RecordSealed 1 [9], Handle (B_Nack [1]) 5])"
    by (simp add: tx_defs tx_eval rr_push_def rr_get_def evict_to_budget.simps List.map_filter_simps)
qed simp

text \<open>
  C18: a \<open>Nack\<close> is answered: for every number it asks for that was ever recorded, the reply carries
  a datagram recorded under that number, or else the number is covered by the \<open>lost_below\<close> that
  the next keepalive announces.
\<close>

theorem nack_answered_or_loss_announced:
  assumes "RecordSealed s d \<in> set is" and "s \<in> set m"
  shows "(\<exists>ds d'. snd (send_step (final send_step (XferSender_new cfg) is) (Handle (B_Nack m) now)) = [Resend ds]
      \<and> d' \<in> set ds \<and> RecordSealed s d' \<in> set is)
    \<or> (\<exists>n. snd (emit_keepalive (final send_step (XferSender_new cfg) is) now) = [Emit n
          (B_Keepalive (rr_lost_below (tx_ring (final send_step (XferSender_new cfg) is))))]
        \<and> s \<le> rr_lost_below (tx_ring (final send_step (XferSender_new cfg) is)))"
proof -
  let ?tx = "final send_step (XferSender_new cfg) is"
  have ring: "\<And>d'. rr_get (tx_ring ?tx) s = Some d' \<Longrightarrow> RecordSealed s d' \<in> set is"
    "rr_get (tx_ring ?tx) s \<noteq> None \<or> s \<le> rr_lost_below (tx_ring ?tx)"
    using ring_answers_or_admits_loss [of "retrans_ring_frames cfg" "retrans_ring_bytes cfg" "List.map_filter ring_op is" s]
      assms(1) unfolding tx_ring_history ring_op_Push by blast+
  show ?thesis
  proof (cases "rr_get (tx_ring ?tx) s")
    case None
    then show ?thesis using ring(2) by (simp add: emit_keepalive_eq)
  next
    case (Some d')
    let ?ds = "List.map_filter (rr_get (tx_ring ?tx)) m"
    have "d' \<in> set ?ds" using Some assms(2) by (auto simp: set_map_filter_iff)
    moreover from this have "?ds \<noteq> []" by auto
    ultimately show ?thesis using ring(1) [OF Some] by (auto simp: send_handle_def Let_def)
  qed
qed

definition small_ring :: SenderConfig where
  "small_ring = SenderConfig_default\<lparr>retrans_ring_frames := 1\<rparr>"

theorem nack_answered_or_loss_announced_witness:
  "1 \<le> rr_lost_below (tx_ring (final send_step (XferSender_new small_ring) [RecordSealed 1 [7], RecordSealed 2 [8]]))"
proof -
  let ?is = "[RecordSealed 1 [7], RecordSealed 2 [8]]"
  have "snd (send_step (final send_step (XferSender_new small_ring) ?is) (Handle (B_Nack [1]) 5)) = []"
    by (simp add: small_ring_def tx_defs tx_eval rr_push_def rr_get_def evict_to_budget.simps evict_oldest_def
        List.map_filter_simps)
  then show ?thesis using nack_answered_or_loss_announced [of 1 "[7]" ?is "[1]" small_ring 5] by auto
qed

text \<open>
  \<open>End\<close> is emitted at most once, and the length it declares is the number of payload frames
  of the whole transfer: no frame is numbered after it.
\<close>

lemma end_declares_frame_count:
  assumes "length (data_emits (trace send_step (XferSender_new cfg) is)) < 2 ^ 32 - 1"
  shows "ends (trace send_step (XferSender_new cfg) is) = []
    \<or> ends (trace send_step (XferSender_new cfg) is)
        = [of_nat (length (data_emits (trace send_step (XferSender_new cfg) is)))]"
proof -
  let ?es = "trace send_step (XferSender_new cfg) is" and ?tx = "final send_step (XferSender_new cfg) is"
  have "unat (tx_next_seq ?tx) = Suc (length (data_emits ?es))"
    using seqs.holds [of cfg "is"] assms by (simp add: seq_inv_def Let_def)
  then have "length (data_emits ?es) = unat (sat_sub (tx_next_seq ?tx) 1)" by (simp add: unat_simps)
  then have last_seq: "sat_sub (tx_next_seq ?tx) 1 = of_nat (length (data_emits ?es))" by simp
  have "length (ends ?es) \<le> 1" "\<forall>f \<in> set (ends ?es). f = sat_sub (tx_next_seq ?tx) 1"
    using ending.holds [of cfg "is"] by (simp_all add: end_inv_def)
  then show ?thesis using last_seq by (cases "ends ?es") auto
qed

text \<open>
  The ring's memory stays within the configured budget in every reachable state: at most the
  configured number of datagrams and of bytes (one of each when configured as zero).
\<close>

lemma sender_memory_bounded:
  "length (rr_entries (tx_ring (final send_step (XferSender_new cfg) is))) \<le> max (retrans_ring_frames cfg) 1
   \<and> sum_list (map (\<lambda>e. length (snd e)) (rr_entries (tx_ring (final send_step (XferSender_new cfg) is))))
       \<le> max (retrans_ring_bytes cfg) 1"
  using ring_bound.holds [of cfg "is"]
  by (simp add: ring_ok_def rr_invar_def rr_counts_def entries_bytes_def)

text \<open>
  After an acknowledgement that reports the high-water mark or more, no payload frame goes
  out, whatever happens, until an acknowledgement reports the low-water mark or less.
\<close>

lemma paused_until_low_water:
  assumes "b \<ge> buffer_high_water_ms (tx_cfg tx)" and "list_all (keeps_pause (tx_cfg tx)) is"
  shows "data_emits (trace send_step tx (Handle (B_Ack c h b) now # is)) = []"
proof -
  have "tx_paused (fst (send_step tx (Handle (B_Ack c h b) now)))"
    using assms(1) by (simp add: paused_after_ack)
  moreover have "data_emits (snd (send_step tx (Handle (B_Ack c h b) now))) = []"
    by (simp add: send_handle_def Let_def)
  ultimately show ?thesis
    using paused_run [of "fst (send_step tx (Handle (B_Ack c h b) now))" "is"] assms(2)
      tx_cfg_step [of tx "Handle (B_Ack c h b) now"]
    by (simp add: split_beta)
qed

lemma paused_until_low_water_instance:
  "data_emits (trace send_step (XferSender_new SenderConfig_default)
     (Handle (B_Ack 0 0 12000) 0 # [PushFrame 0 [1] 1, Handle (B_Ack 0 0 7000) 2, PushFrame 0 [1] 3])) = []"
  by (rule paused_until_low_water) (simp_all add: SenderConfig_default_def)

text \<open>
  C20: \<open>finish\<close> cannot wait forever: whatever happens in between, the first tick more than
  \<open>finalize_timeout\<close> after it leaves the sender done.
\<close>

theorem finish_terminates:
  assumes "tx_state tx = S_Streaming" and "duration_since now t > finalize_timeout (tx_cfg tx)"
  shows "is_done (final send_step tx (Finish t # is @ [Tick now]))"
proof -
  let ?tx = "fst (send_step tx (Finish t))"
  have "deadline (tx_cfg tx) t ?tx" using assms(1) by (simp add: deadline_def send_finish_eq)
  then have "deadline (tx_cfg tx) t (final send_step ?tx is)" by (rule deadline_run)
  from deadline_tick [OF this assms(2)] show ?thesis
    by (simp add: split_beta final_snoc)
qed

theorem finish_terminates_witness:
  "is_done (final send_step (XferSender_new SenderConfig_default)
     (Finish 0 # [Tick 5, Handle (B_Ack 0 0 0) 6] @ [Tick (40 * 1000000000)]))"
  by (rule finish_terminates)
    (simp_all add: SenderConfig_default_def duration_since_def from_secs_def)

text \<open>
  C40: a streaming sender that was acknowledged once never gives up on a silent peer: no sequence
  of ticks, at whatever times, ends it or reopens its window, so a caller blocked on a full
  window waits as long as the peer stays silent.
\<close>

theorem silent_peer_never_detected:
  assumes "tx_state tx = S_Streaming" and "tx_got_ack tx" and "\<not> can_send tx"
  shows "tx_state (final send_step tx (map Tick ts)) = S_Streaming
    \<and> \<not> can_send (final send_step tx (map Tick ts))
    \<and> (\<forall>f. Failed f \<notin> set (trace send_step tx (map Tick ts)))"
  using streaming_ticks [OF assms(1,2), of ts] assms(3) by blast

theorem silent_peer_never_detected_witness:
  "tx_state (final send_step (fst (send_handle (XferSender_new SenderConfig_default) (B_Ack 0 0 12000) 0))
     (map Tick [10 ^ 12, 10 ^ 15])) = S_Streaming"
  using silent_peer_never_detected
    [of "fst (send_handle (XferSender_new SenderConfig_default) (B_Ack 0 0 12000) 0)" "[10 ^ 12, 10 ^ 15]"]
  by (simp add: send_handle_def Let_def can_send_iff SenderConfig_default_def)

end
