(* ===== verification/Pf4_Tap.thy ===== *)
theory Pf4_Tap
  imports Pf4_Net Pf4_Sender "HOL-Library.Sublist"
begin

text \<open>
  \<open>protofish4/src/sender.rs\<close>: the tap, one connected socket driving one sending state machine.
  The clock readings, the datagrams that arrive and the answers of the socket are arguments, in
  the order the code asks for them.  The loops of \<open>send_frame\<close> and \<open>finish\<close> consume one entry of
  such a list per turn; a call still waiting when the list is used up has the value \<open>Waiting\<close>.
\<close>

record Sender =
  sd_socket :: UdpSocket
  sd_key :: SessionKey
  sd_request_id :: RequestId
  sd_state :: XferSender
  sd_peer :: SocketAddr

section \<open>Connecting\<close>

definition unspecified_v4 :: SocketAddr where
  "unspecified_v4 = V4 [0, 0, 0, 0] 0"

definition unspecified_v6 :: SocketAddr where
  "unspecified_v6 = V6 (replicate 16 0) 0"

fun connect_loop ::
  "net \<Rightarrow> string list \<Rightarrow> RequestId \<Rightarrow> SessionKey \<Rightarrow> SenderConfig \<Rightarrow> string list \<Rightarrow> Sender net_result" where
  "connect_loop N deliver_to request_id key cfg [] = Inl (E_NoRouteToSink deliver_to)"
| "connect_loop N deliver_to request_id key cfg (authority # rest) =
     (case net_lookup N authority of
        Inl e \<Rightarrow> connect_loop N deliver_to request_id key cfg rest
      | Inr [] \<Rightarrow> connect_loop N deliver_to request_id key cfg rest
      | Inr (peer # others) \<Rightarrow>
          rbind (from_io (net_bind N (if is_ipv4 peer then unspecified_v4 else unspecified_v6))) (\<lambda>_.
          rbind (from_io (net_connect N peer)) (\<lambda>_.
          Inr \<lparr>sd_socket = UdpSocket_new N, sd_key = key, sd_request_id = request_id,
               sd_state = XferSender_new cfg, sd_peer = peer\<rparr>)))"

definition connect ::
  "net \<Rightarrow> string list \<Rightarrow> RequestId \<Rightarrow> SessionKey \<Rightarrow> SenderConfig \<Rightarrow> Sender net_result" where
  "connect N deliver_to request_id key cfg = connect_loop N deliver_to request_id key cfg deliver_to"

section \<open>Dispatching events\<close>

fun resend_loop :: "UdpSocket \<Rightarrow> bytes list \<Rightarrow> UdpSocket \<times> unit net_result" where
  "resend_loop sk [] = (sk, Inr ())"
| "resend_loop sk (d # ds) =
     (case socket_send sk d of
        (sk', Inl e) \<Rightarrow> (sk', Inl (E_Io e))
      | (sk', Inr _) \<Rightarrow> resend_loop sk' ds)"

definition seal_body :: "aead \<Rightarrow> Sender \<Rightarrow> XferSeq \<Rightarrow> Body \<Rightarrow> bytes result" where
  "seal_body A sd s body =
     (let header = Header_new (Body_kind body) (sd_request_id sd) s
      in rbind (encode_body body) (\<lambda>plaintext. crypto_seal A (sd_key sd) header Dir_Send plaintext))"

definition dispatch_one :: "aead \<Rightarrow> Sender \<Rightarrow> SendEvent \<Rightarrow> Sender \<times> unit net_result" where
  "dispatch_one A sd ev =
     (case ev of
        Emit s body \<Rightarrow>
          (case seal_body A sd s body of
             Inl e \<Rightarrow> (sd, Inl (E_Proto e))
           | Inr sealed \<Rightarrow>
               (case socket_send (sd_socket sd) sealed of
                  (sk, Inl e) \<Rightarrow> (sd\<lparr>sd_socket := sk\<rparr>, Inl (E_Io e))
                | (sk, Inr _) \<Rightarrow>
                    let sd1 = sd\<lparr>sd_socket := sk\<rparr>
                    in (if is_data body then sd1\<lparr>sd_state := record_sealed (sd_state sd1) s sealed\<rparr>
                        else sd1, Inr ())))
      | Resend datagrams \<Rightarrow>
          (let (sk, r) = resend_loop (sd_socket sd) datagrams in (sd\<lparr>sd_socket := sk\<rparr>, r))
      | Completed \<Rightarrow> (sd, Inr ())
      | Failed NoAck \<Rightarrow> (sd, Inl (E_NoAck (sd_peer sd)))
      | Failed FinalizeTimeout \<Rightarrow> (sd, Inl E_FinalizeTimeout))"

fun dispatch :: "aead \<Rightarrow> Sender \<Rightarrow> SendEvent list \<Rightarrow> Sender \<times> unit net_result" where
  "dispatch A sd [] = (sd, Inr ())"
| "dispatch A sd (ev # events) =
     (case dispatch_one A sd ev of
        (sd', Inl e) \<Rightarrow> (sd', Inl e)
      | (sd', Inr _) \<Rightarrow> dispatch A sd' events)"

section \<open>The receive-and-tick loop\<close>

datatype recv_answer = Received bytes | RecvError io_error | TimedOut

text \<open>
  One turn: what the socket answered within the tick (the bytes it wrote to the buffer, an error,
  or nothing), and the two clock readings after it.
\<close>

record pump_in =
  pi_answer :: recv_answer
  pi_handle_at :: instant
  pi_tick_at :: instant

definition pump_recv :: "aead \<Rightarrow> Sender \<Rightarrow> pump_in \<Rightarrow> Sender \<times> unit net_result" where
  "pump_recv A sd inp =
     (case pi_answer inp of
        Received d \<Rightarrow>
          (case open_body A (sd_key sd) Dir_Recv d of
             Inl e \<Rightarrow> (sd, Inr ())
           | Inr (header, body) \<Rightarrow>
               let (st, events) = send_handle (sd_state sd) body (pi_handle_at inp)
               in dispatch A (sd\<lparr>sd_state := st\<rparr>) events)
      | RecvError e \<Rightarrow> (sd, Inl (E_Io e))
      | TimedOut \<Rightarrow> (sd, Inr ()))"

definition pump_once :: "aead \<Rightarrow> Sender \<Rightarrow> pump_in \<Rightarrow> Sender \<times> unit net_result" where
  "pump_once A sd inp =
     (case pump_recv A sd inp of
        (sd1, Inl e) \<Rightarrow> (sd1, Inl e)
      | (sd1, Inr _) \<Rightarrow>
          let (st, events) = send_tick (sd_state sd1) (pi_tick_at inp)
          in dispatch A (sd1\<lparr>sd_state := st\<rparr>) events)"

section \<open>Calls of the application\<close>

datatype 'a call = Waiting | Returned 'a

text \<open>One turn of \<open>send_frame\<close>: the attempt to push, and when it is refused, one turn of the pump.\<close>

fun send_frame ::
  "aead \<Rightarrow> Sender \<Rightarrow> TimestampMs \<Rightarrow> bytes \<Rightarrow> (instant \<times> pump_in) list \<Rightarrow> Sender \<times> unit net_result call" where
  "send_frame A sd ts payload [] = (sd, Waiting)"
| "send_frame A sd ts payload ((now, inp) # turns) =
     (case push_frame (sd_state sd) ts payload now of
        (st, Some ev) \<Rightarrow>
          let (sd', r) = dispatch A (sd\<lparr>sd_state := st\<rparr>) [ev] in (sd', Returned r)
      | (st, None) \<Rightarrow>
          (case pump_once A (sd\<lparr>sd_state := st\<rparr>) inp of
             (sd', Inl e) \<Rightarrow> (sd', Returned (Inl e))
           | (sd', Inr _) \<Rightarrow> send_frame A sd' ts payload turns))"

fun finish_loop :: "aead \<Rightarrow> Sender \<Rightarrow> pump_in list \<Rightarrow> Sender \<times> unit net_result call" where
  "finish_loop A sd turns =
     (if is_done (sd_state sd) then (sd, Returned (Inr ()))
      else case turns of
        [] \<Rightarrow> (sd, Waiting)
      | inp # rest \<Rightarrow>
          (case pump_once A sd inp of
             (sd', Inl e) \<Rightarrow> (sd', Returned (Inl e))
           | (sd', Inr _) \<Rightarrow> finish_loop A sd' rest))"

declare finish_loop.simps [simp del]

definition finish :: "aead \<Rightarrow> Sender \<Rightarrow> instant \<Rightarrow> pump_in list \<Rightarrow> Sender \<times> unit net_result call" where
  "finish A sd now turns =
     (case send_finish (sd_state sd) now of
        (st, Some ev) \<Rightarrow>
          (case dispatch A (sd\<lparr>sd_state := st\<rparr>) [ev] of
             (sd', Inl e) \<Rightarrow> (sd', Returned (Inl e))
           | (sd', Inr _) \<Rightarrow> finish_loop A sd' turns)
      | (st, None) \<Rightarrow> finish_loop A (sd\<lparr>sd_state := st\<rparr>) turns)"

fun send_frames ::
  "aead \<Rightarrow> Sender \<Rightarrow> ((TimestampMs \<times> bytes) \<times> (instant \<times> pump_in) list) list
    \<Rightarrow> Sender \<times> unit net_result call" where
  "send_frames A sd [] = (sd, Returned (Inr ()))"
| "send_frames A sd (((ts, payload), turns) # frames) =
     (case send_frame A sd ts payload turns of
        (sd', Returned (Inr _)) \<Rightarrow> send_frames A sd' frames
      | (sd', r) \<Rightarrow> (sd', r))"

definition send_all ::
  "aead \<Rightarrow> net \<Rightarrow> string list \<Rightarrow> RequestId \<Rightarrow> SessionKey \<Rightarrow> SenderConfig
    \<Rightarrow> ((TimestampMs \<times> bytes) \<times> (instant \<times> pump_in) list) list \<Rightarrow> instant \<Rightarrow> pump_in list
    \<Rightarrow> Sender option \<times> unit net_result call" where
  "send_all A N deliver_to request_id key cfg frames now turns =
     (case connect N deliver_to request_id key cfg of
        Inl e \<Rightarrow> (None, Returned (Inl e))
      | Inr sd \<Rightarrow>
          (case send_frames A sd frames of
             (sd', Returned (Inr _)) \<Rightarrow>
               let (sd'', r) = finish A sd' now turns in (Some sd'', r)
           | (sd', r) \<Rightarrow> (Some sd', r)))"

section \<open>Keys\<close>

text \<open>\<open>fill\<close> stands for \<open>rand::fill\<close>, which overwrites a buffer and keeps its length.\<close>

definition random_key :: "(bytes \<Rightarrow> bytes) \<Rightarrow> bytes" where
  "random_key fill = (let k = replicate 32 0 in fill k)"

lemma random_key_accepted:
  "length (fill (replicate 32 0)) = 32 \<Longrightarrow> SessionKey_from_bytes (random_key fill) = Inr (SessionKey (random_key fill))"
  by (simp add: random_key_def SessionKey_from_bytes_def KEY_LEN_def)

section \<open>The tap as a machine\<close>

text \<open>
  The single turns of which every call consists.  The events of a turn are those the state
  machine returned in it, whether or not dispatching them succeeded.
\<close>

datatype TapInput =
  TapPush TimestampMs bytes instant
| TapFinish instant
| TapPump pump_in

definition recv_events :: "aead \<Rightarrow> Sender \<Rightarrow> pump_in \<Rightarrow> SendEvent list" where
  "recv_events A sd inp =
     (case pi_answer inp of
        Received d \<Rightarrow>
          (case open_body A (sd_key sd) Dir_Recv d of
             Inl e \<Rightarrow> []
           | Inr (header, body) \<Rightarrow> snd (send_handle (sd_state sd) body (pi_handle_at inp)))
      | _ \<Rightarrow> [])"

definition pump_events :: "aead \<Rightarrow> Sender \<Rightarrow> pump_in \<Rightarrow> SendEvent list" where
  "pump_events A sd inp =
     recv_events A sd inp @
     (case pump_recv A sd inp of
        (sd1, Inl e) \<Rightarrow> []
      | (sd1, Inr _) \<Rightarrow> snd (send_tick (sd_state sd1) (pi_tick_at inp)))"

fun tap_step :: "aead \<Rightarrow> Sender \<Rightarrow> TapInput \<Rightarrow> Sender \<times> SendEvent list" where
  "tap_step A sd (TapPush ts payload now) =
     (let (st, events) = opt_events (push_frame (sd_state sd) ts payload now)
      in (fst (dispatch A (sd\<lparr>sd_state := st\<rparr>) events), events))"
| "tap_step A sd (TapFinish now) =
     (let (st, events) = opt_events (send_finish (sd_state sd) now)
      in (fst (dispatch A (sd\<lparr>sd_state := st\<rparr>) events), events))"
| "tap_step A sd (TapPump inp) = (fst (pump_once A sd inp), pump_events A sd inp)"

section \<open>A socket forgets nothing it has sent\<close>

lemma socket_send_grows: "prefix (us_sent sk) (us_sent (fst (socket_send sk d)))"
  by (cases rule: socket_send_cases [of sk d]) auto

lemma resend_loop_grows: "prefix (us_sent sk) (us_sent (fst (resend_loop sk ds)))"
proof (induction ds arbitrary: sk)
  case (Cons d ds)
  let ?sk = "sk\<lparr>us_calls := us_calls sk + 1, us_sent := us_sent sk @ [d]\<rparr>"
  have "prefix (us_sent sk) (us_sent (fst (resend_loop ?sk ds)))"
    using Cons.IH [of ?sk] by (auto dest: append_prefixD)
  then show ?case by (cases rule: socket_send_cases [of sk d]) auto
qed simp

lemma dispatch_one_grows: "prefix (us_sent (sd_socket sd)) (us_sent (sd_socket (fst (dispatch_one A sd ev))))"
proof (cases ev)
  case (Emit s b)
  show ?thesis
  proof (cases "seal_body A sd s b")
    case (Inr d)
    then show ?thesis using Emit by (cases rule: socket_send_cases [of "sd_socket sd" d]) (auto simp: dispatch_one_def Let_def)
  qed (simp add: Emit dispatch_one_def)
next
  case (Failed x)
  then show ?thesis by (cases x) (simp_all add: dispatch_one_def)
qed (auto simp: dispatch_one_def split_beta Let_def resend_loop_grows)

lemma dispatch_grows: "prefix (us_sent (sd_socket sd)) (us_sent (sd_socket (fst (dispatch A sd evs))))"
proof (induction evs arbitrary: sd)
  case (Cons ev evs)
  obtain sd1 r where d: "dispatch_one A sd ev = (sd1, r)" by force
  then show ?case using dispatch_one_grows [of sd A ev] Cons.IH [of sd1] by (cases r) (auto intro: prefix_order.trans)
qed simp

lemma dispatch_from_grows:
  "prefix (us_sent (sd_socket sd)) (us_sent (sd_socket (fst (dispatch A (sd\<lparr>sd_state := st\<rparr>) evs))))"
  using dispatch_grows [of "sd\<lparr>sd_state := st\<rparr>" A evs] by simp

lemma pump_recv_grows: "prefix (us_sent (sd_socket sd)) (us_sent (sd_socket (fst (pump_recv A sd inp))))"
  by (auto simp: pump_recv_def split_beta Let_def dispatch_from_grows split: recv_answer.splits sum.splits)

lemma pump_once_grows: "prefix (us_sent (sd_socket sd)) (us_sent (sd_socket (fst (pump_once A sd inp))))"
proof (cases "pump_recv A sd inp")
  case (Pair sd1 r)
  then have "prefix (us_sent (sd_socket sd)) (us_sent (sd_socket sd1))" using pump_recv_grows [of sd A inp] by simp
  then show ?thesis using Pair dispatch_from_grows [of sd1 A]
    by (cases r) (auto simp: pump_once_def split_beta Let_def intro: prefix_order.trans)
qed

lemma tap_step_grows: "prefix (us_sent (sd_socket sd)) (us_sent (sd_socket (fst (tap_step A sd i))))"
  by (cases i) (simp_all add: split_beta Let_def dispatch_from_grows pump_once_grows)

section \<open>What leaves the socket\<close>

text \<open>
  Every datagram handed to the socket is the sealing of a packet the state machine emitted, for
  this request and under this key.  The state machine itself has only seen the calls \<open>is\<close>, whose
  packets were opened from what the socket received.
\<close>

definition sealed_emit ::
  "aead \<Rightarrow> SessionKey \<Rightarrow> RequestId \<Rightarrow> (XferSeq \<times> Body) list \<Rightarrow> bytes \<Rightarrow> bool" where
  "sealed_emit A key r ems d \<longleftrightarrow> (\<exists>s b p. (s, b) \<in> set ems \<and> encode_body b = Inr p
     \<and> crypto_seal A key (Header_new (Body_kind b) r s) Dir_Send p = Inr d)"

text \<open>The payload packets emitted under a number.\<close>

definition numbered :: "XferSeq \<Rightarrow> SendEvent list \<Rightarrow> (XferSeq \<times> Body) list" where
  "numbered s es = filter (\<lambda>e. fst e = s) (data_emits es)"

definition opened_by :: "aead \<Rightarrow> SessionKey \<Rightarrow> TapInput list \<Rightarrow> Body \<Rightarrow> bool" where
  "opened_by A key tis b \<longleftrightarrow> (\<exists>inp d h. TapPump inp \<in> set tis \<and> pi_answer inp = Received d
     \<and> open_body A key Dir_Recv d = Inr (h, b))"

definition drives ::
  "aead \<Rightarrow> SenderConfig \<Rightarrow> SessionKey \<Rightarrow> RequestId \<Rightarrow> TapInput list \<Rightarrow> SendInput list \<Rightarrow> SendEvent list
    \<Rightarrow> Sender \<Rightarrow> bool" where
  "drives A cfg key r tis is es sd \<longleftrightarrow>
     sd_key sd = key \<and> sd_request_id sd = r
     \<and> sd_state sd = final send_step (XferSender_new cfg) is
     \<and> es = trace send_step (XferSender_new cfg) is
     \<and> (\<forall>s d. RecordSealed s d \<in> set is \<longrightarrow> d \<in> set (us_sent (sd_socket sd))
          \<and> sealed_emit A key r (numbered s es) d)
     \<and> (\<forall>b now. Handle b now \<in> set is \<longrightarrow> opened_by A key tis b)
     \<and> (\<forall>d \<in> set (us_sent (sd_socket sd)). sealed_emit A key r (emits es) d)"

definition tap_inv ::
  "aead \<Rightarrow> SenderConfig \<Rightarrow> SessionKey \<Rightarrow> RequestId \<Rightarrow> TapInput list \<Rightarrow> SendEvent list \<Rightarrow> Sender \<Rightarrow> bool" where
  "tap_inv A cfg key r tis es sd \<longleftrightarrow> (\<exists>is. drives A cfg key r tis is es sd)"

lemma sealed_emit_mono: "sealed_emit A key r xs d \<Longrightarrow> set xs \<subseteq> set ys \<Longrightarrow> sealed_emit A key r ys d"
  unfolding sealed_emit_def by blast

lemma numbered_append: "numbered s (es @ fs) = numbered s es @ numbered s fs"
  by (simp add: numbered_def)

lemma opened_by_mono: "opened_by A key tis b \<Longrightarrow> set tis \<subseteq> set tis' \<Longrightarrow> opened_by A key tis' b"
  unfolding opened_by_def by blast

lemma emits_set: "(s, b) \<in> set (emits es) \<longleftrightarrow> Emit s b \<in> set es"
  by (induction es rule: emits.induct) auto

text \<open>A call of a state machine method other than \<open>record_sealed\<close>.\<close>

lemma tap_inv_call:
  assumes "tap_inv A cfg key r tis es sd" and "\<And>s d. i \<noteq> RecordSealed s d"
    and "\<And>b now. i = Handle b now \<Longrightarrow> opened_by A key tis b"
  shows "tap_inv A cfg key r tis (es @ snd (send_step (sd_state sd) i))
    (sd\<lparr>sd_state := fst (send_step (sd_state sd) i)\<rparr>)"
proof -
  obtain "is" where d: "drives A cfg key r tis is es sd" using assms(1) by (auto simp: tap_inv_def)
  then have st: "sd_state sd = final send_step (XferSender_new cfg) is"
    and es: "es = trace send_step (XferSender_new cfg) is" by (simp_all add: drives_def)
  have old: "\<forall>x \<in> set (us_sent (sd_socket sd)). sealed_emit A key r (emits es) x"
    using d unfolding drives_def by blast
  have sent: "sealed_emit A key r (emits (es @ snd (send_step (sd_state sd) i))) x"
    if "x \<in> set (us_sent (sd_socket sd))" for x
    by (rule sealed_emit_mono [OF bspec [OF old that]]) simp
  have recs: "x \<in> set (us_sent (sd_socket sd))
      \<and> sealed_emit A key r (numbered s (es @ snd (send_step (sd_state sd) i))) x"
    if "RecordSealed s x \<in> set (is @ [i])" for s x
  proof -
    have "x \<in> set (us_sent (sd_socket sd)) \<and> sealed_emit A key r (numbered s es) x"
      using d assms(2) that by (auto simp: drives_def)
    then show ?thesis using sealed_emit_mono by (auto simp: numbered_append)
  qed
  have hands: "opened_by A key tis b" if "Handle b now \<in> set (is @ [i])" for b now
    using d assms(3) that by (auto simp: drives_def)
  have "drives A cfg key r tis (is @ [i]) (es @ snd (send_step (sd_state sd) i))
      (sd\<lparr>sd_state := fst (send_step (sd_state sd) i)\<rparr>)"
    unfolding drives_def final_snoc trace_snoc using d sent recs hands
    by (simp add: drives_def)
  then show ?thesis unfolding tap_inv_def by blast
qed

text \<open>A datagram handed to the socket.\<close>

lemma tap_inv_send:
  assumes inv: "tap_inv A cfg key r tis es sd" and d: "sealed_emit A key r (emits es) d"
  shows "tap_inv A cfg key r tis es (sd\<lparr>sd_socket := fst (socket_send (sd_socket sd) d)\<rparr>)"
  using inv d unfolding tap_inv_def drives_def
  by (cases rule: socket_send_cases [of "sd_socket sd" d]) auto

lemma tap_inv_record:
  assumes "tap_inv A cfg key r tis es sd" and "d \<in> set (us_sent (sd_socket sd))"
    and "sealed_emit A key r (numbered s es) d"
  shows "tap_inv A cfg key r tis es (sd\<lparr>sd_state := record_sealed (sd_state sd) s d\<rparr>)"
proof -
  obtain "is" where "drives A cfg key r tis is es sd" using assms(1) by (auto simp: tap_inv_def)
  then have "drives A cfg key r tis (is @ [RecordSealed s d]) es
      (sd\<lparr>sd_state := record_sealed (sd_state sd) s d\<rparr>)"
    using assms(2,3) by (auto simp: drives_def final_snoc trace_snoc)
  then show ?thesis by (auto simp: tap_inv_def)
qed

lemma tap_inv_resend:
  assumes "tap_inv A cfg key r tis es sd" and "\<forall>d \<in> set ds. sealed_emit A key r (emits es) d"
  shows "tap_inv A cfg key r tis es (sd\<lparr>sd_socket := fst (resend_loop (sd_socket sd) ds)\<rparr>)"
  using assms
proof (induction ds arbitrary: sd)
  case Nil
  then show ?case by simp
next
  case (Cons d ds)
  let ?sd = "sd\<lparr>sd_socket := fst (socket_send (sd_socket sd) d)\<rparr>"
  have "tap_inv A cfg key r tis es ?sd" using Cons.prems by (intro tap_inv_send) auto
  then show ?case using Cons.IH [of ?sd] Cons.prems(2)
    by (cases "socket_send (sd_socket sd) d"; cases "snd (socket_send (sd_socket sd) d)") auto
qed

text \<open>What a \<open>Resend\<close> carries has been on the wire before.\<close>

lemma tap_inv_resent:
  assumes "tap_inv A cfg key r tis es sd" and "Resend ds \<in> set es" and "d \<in> set ds"
  shows "sealed_emit A key r (emits es) d"
proof -
  obtain "is" where dr: "drives A cfg key r tis is es sd" using assms(1) by (auto simp: tap_inv_def)
  then obtain s where "RecordSealed s d \<in> set is"
    using verbatim.holds [of "is" cfg] assms(2,3) unfolding verbatim_inv_def drives_def by blast
  then show ?thesis using dr by (auto simp: drives_def)
qed

lemma tap_inv_dispatch_one:
  assumes inv: "tap_inv A cfg key r tis es sd" and ev: "ev \<in> set es"
  shows "tap_inv A cfg key r tis es (fst (dispatch_one A sd ev))"
proof (cases ev)
  case (Emit s b)
  show ?thesis
  proof (cases "seal_body A sd s b")
    case (Inl e)
    then show ?thesis using inv Emit by (simp add: dispatch_one_def)
  next
    case (Inr d)
    have kr: "sd_key sd = key" "sd_request_id sd = r" using inv by (auto simp: tap_inv_def drives_def)
    then have emitted: "sealed_emit A key r (emits es) d"
      using Inr ev Emit emits_set [of s b es]
      by (auto simp: seal_body_def sealed_emit_def Let_def rbind_Inr_iff)
    have num: "sealed_emit A key r (numbered s es) d" if "is_data b"
      using Inr ev Emit emits_set [of s b es] kr that
      by (auto simp: seal_body_def sealed_emit_def numbered_def data_emits_def Let_def rbind_Inr_iff)
    have sent: "tap_inv A cfg key r tis es (sd\<lparr>sd_socket := fst (socket_send (sd_socket sd) d)\<rparr>)"
      by (rule tap_inv_send [OF inv emitted])
    show ?thesis
    proof (cases rule: socket_send_cases [of "sd_socket sd" d])
      case sent': sent
      have "tap_inv A cfg key r tis es (sd\<lparr>sd_socket := fst (socket_send (sd_socket sd) d),
          sd_state := record_sealed (sd_state sd) s d\<rparr>)" if "is_data b"
        using tap_inv_record [OF sent _ num [OF that]] sent' by simp
      then show ?thesis using sent sent' Inr Emit by (simp add: dispatch_one_def Let_def)
    next
      case (failed e)
      then show ?thesis using sent Inr Emit by (simp add: dispatch_one_def)
    qed
  qed
next
  case (Resend ds)
  then show ?thesis
    using tap_inv_resend [OF inv, of ds] tap_inv_resent [OF inv, of ds] ev
    by (simp add: dispatch_one_def split_beta Let_def)
qed (use inv in \<open>auto simp: dispatch_one_def split: SendFailure.splits\<close>)

lemma tap_inv_dispatch:
  assumes "tap_inv A cfg key r tis es sd" and "set evs \<subseteq> set es"
  shows "tap_inv A cfg key r tis es (fst (dispatch A sd evs))"
  using assms
proof (induction evs arbitrary: sd)
  case Nil
  then show ?case by simp
next
  case (Cons ev evs)
  have "tap_inv A cfg key r tis es (fst (dispatch_one A sd ev))"
    using Cons.prems by (intro tap_inv_dispatch_one) auto
  then show ?case using Cons
    by (cases "dispatch_one A sd ev"; cases "snd (dispatch_one A sd ev)") auto
qed

lemma tap_inv_inputs: "tap_inv A cfg key r tis es sd \<Longrightarrow> tap_inv A cfg key r (tis @ js) es sd"
  unfolding tap_inv_def drives_def using opened_by_mono [of A key tis _ "tis @ js"] by (auto) blast

text \<open>A call of a method followed by the dispatch of what it returned.\<close>

lemma tap_inv_call_dispatch:
  assumes "tap_inv A cfg key r tis es sd" and "\<And>s d. i \<noteq> RecordSealed s d"
    and "\<And>b now. i = Handle b now \<Longrightarrow> opened_by A key tis b"
    and "send_step (sd_state sd) i = (st, evs)"
  shows "tap_inv A cfg key r tis (es @ evs) (fst (dispatch A (sd\<lparr>sd_state := st\<rparr>) evs))"
proof -
  have "tap_inv A cfg key r tis (es @ evs) (sd\<lparr>sd_state := st\<rparr>)"
    using tap_inv_call [OF assms(1), of i] assms(2-4) by simp
  then show ?thesis by (rule tap_inv_dispatch) simp
qed

lemma pump_recv_inv:
  assumes "tap_inv A cfg key r tis es sd" and "TapPump inp \<in> set tis"
  shows "tap_inv A cfg key r tis (es @ recv_events A sd inp) (fst (pump_recv A sd inp))"
proof (cases "\<exists>d h b. pi_answer inp = Received d \<and> open_body A (sd_key sd) Dir_Recv d = Inr (h, b)")
  case True
  then obtain d h b where d: "pi_answer inp = Received d"
    "open_body A (sd_key sd) Dir_Recv d = Inr (h, b)" by blast
  have "sd_key sd = key" using assms(1) by (auto simp: tap_inv_def drives_def)
  then have op: "opened_by A key tis b" using d assms(2) by (auto simp: opened_by_def)
  show ?thesis
    using tap_inv_call_dispatch [OF assms(1), of "Handle b (pi_handle_at inp)"] op d
    by (simp add: pump_recv_def recv_events_def split_beta Let_def)
next
  case False
  then show ?thesis using assms(1)
    by (auto simp: pump_recv_def recv_events_def split: recv_answer.splits sum.splits)
qed

lemma pump_once_inv:
  assumes "tap_inv A cfg key r tis es sd" and "TapPump inp \<in> set tis"
  shows "tap_inv A cfg key r tis (es @ pump_events A sd inp) (fst (pump_once A sd inp))"
proof -
  note recv = pump_recv_inv [OF assms]
  obtain sd1 res where p: "pump_recv A sd inp = (sd1, res)" by force
  show ?thesis
  proof (cases res)
    case (Inl e)
    then show ?thesis using recv p by (simp add: pump_once_def pump_events_def)
  next
    case (Inr u)
    then show ?thesis
      using tap_inv_call_dispatch [OF recv, of "Tick (pi_tick_at inp)"] p
      by (simp add: pump_once_def pump_events_def split_beta Let_def)
  qed
qed

lemma tap_step_inv:
  assumes "tap_inv A cfg key r tis es sd"
  shows "tap_inv A cfg key r (tis @ [i]) (es @ snd (tap_step A sd i)) (fst (tap_step A sd i))"
proof -
  note inv = tap_inv_inputs [OF assms, of "[i]"]
  show ?thesis
  proof (cases i)
    case (TapPush ts p now)
    then show ?thesis using tap_inv_call_dispatch [OF inv, of "PushFrame ts p now"]
      by (simp add: split_beta Let_def)
  next
    case (TapFinish now)
    then show ?thesis using tap_inv_call_dispatch [OF inv, of "Finish now"]
      by (simp add: split_beta Let_def)
  next
    case (TapPump inp)
    then show ?thesis using pump_once_inv [OF inv] by simp
  qed
qed

text \<open>A tap as \<open>connect\<close> leaves it.\<close>

definition tap_new :: "net \<Rightarrow> RequestId \<Rightarrow> SessionKey \<Rightarrow> SenderConfig \<Rightarrow> SocketAddr \<Rightarrow> Sender" where
  "tap_new N r key cfg peer =
     \<lparr>sd_socket = UdpSocket_new N, sd_key = key, sd_request_id = r,
      sd_state = XferSender_new cfg, sd_peer = peer\<rparr>"

interpretation tap: history_invariant "tap_step A" "tap_new N r key cfg peer" "tap_inv A cfg key r"
  for A N r key cfg peer
proof
  have "drives A cfg key r [] [] [] (tap_new N r key cfg peer)"
    by (simp add: drives_def tap_new_def UdpSocket_new_def)
  then show "tap_inv A cfg key r [] [] (tap_new N r key cfg peer)" unfolding tap_inv_def by blast
qed (rule tap_step_inv)

lemma connect_Inr:
  assumes "connect N deliver_to r key cfg = Inr sd"
  shows "\<exists>peer. sd = tap_new N r key cfg peer"
proof -
  have "connect_loop N all r key cfg rest = Inr sd \<Longrightarrow> \<exists>peer. sd = tap_new N r key cfg peer" for all rest
    by (induction rest) (auto simp: tap_new_def rbind_Inr_iff split: sum.splits list.splits)
  then show ?thesis using assms by (simp add: connect_def)
qed

section \<open>Calls as runs of the machine\<close>

lemma dispatch_Inr: "snd (dispatch A sd evs) = Inr u \<Longrightarrow> Failed f \<notin> set evs"
proof (induction evs arbitrary: sd)
  case Nil
  then show ?case by simp
next
  case (Cons ev evs)
  have "ev \<noteq> Failed f"
  proof
    assume "ev = Failed f"
    then show False using Cons.prems by (cases f) (auto simp: dispatch_one_def)
  qed
  then show ?case using Cons by (auto split: prod.splits sum.splits)
qed

lemma pump_Inr:
  assumes "snd (pump_once A sd inp) = Inr u"
  shows "Failed f \<notin> set (pump_events A sd inp)"
proof -
  obtain sd1 res where p: "pump_recv A sd inp = (sd1, res)" by force
  then obtain v where v: "res = Inr v" using assms by (cases res) (auto simp: pump_once_def)
  have "Failed f \<notin> set (recv_events A sd inp)"
  proof (cases "pi_answer inp")
    case (Received d)
    then show ?thesis by (auto simp: recv_events_def send_handle_def Let_def split: sum.splits Body.splits)
  qed (simp_all add: recv_events_def)
  moreover have "Failed f \<notin> set (snd (send_tick (sd_state sd1) (pi_tick_at inp)))"
    using assms p v by (auto simp: pump_once_def split_beta Let_def dest: dispatch_Inr)
  ultimately show ?thesis using p v by (simp add: pump_events_def)
qed

lemma pump_no_data: "data_emits (pump_events A sd inp) = []"
proof -
  have "data_emits (snd (send_handle st b now)) = []" for st b now
    by (cases b) (simp_all add: send_handle_def Let_def)
  moreover have "data_emits (snd (send_tick st now)) = []" for st now
    by (simp add: send_tick_cases emit_keepalive_eq)
  ultimately show ?thesis
    by (auto simp: pump_events_def recv_events_def split: recv_answer.splits sum.splits prod.splits)
qed

text \<open>
  \<open>steps_to A sd sd' ps\<close>: some turns lead from \<open>sd\<close> to \<open>sd'\<close>, none of them reported a failure, and
  the payload packets emitted on the way are \<open>ps\<close>, in order.
\<close>

definition steps_to :: "aead \<Rightarrow> Sender \<Rightarrow> TapInput list \<Rightarrow> Sender \<Rightarrow> Body list \<Rightarrow> bool" where
  "steps_to A sd tis sd' ps \<longleftrightarrow>
     sd' = final (tap_step A) sd tis \<and> map snd (data_emits (trace (tap_step A) sd tis)) = ps
     \<and> (\<forall>f. Failed f \<notin> set (trace (tap_step A) sd tis))"

lemma steps_to_refl: "steps_to A sd [] sd []"
  by (simp add: steps_to_def)

lemma steps_to_trans:
  "steps_to A sd tis sd' ps \<Longrightarrow> steps_to A sd' tjs sd'' qs \<Longrightarrow> steps_to A sd (tis @ tjs) sd'' (ps @ qs)"
  by (auto simp: steps_to_def final_append trace_append)

lemma steps_to_pump:
  "snd (pump_once A sd inp) = Inr u \<Longrightarrow> steps_to A sd [TapPump inp] (fst (pump_once A sd inp)) []"
  using pump_Inr [of A sd inp] by (simp add: steps_to_def pump_no_data)

lemma send_frame_steps:
  assumes "send_frame A sd ts p turns = (sd', Returned (Inr ()))"
  shows "\<exists>tis. steps_to A sd tis sd' [B_Data ts p]"
  using assms
proof (induction A sd ts p turns rule: send_frame.induct)
  case (1 A sd ts p)
  then show ?case by simp
next
  case (2 A sd ts p now inp turns)
  show ?case
  proof (cases "can_send (sd_state sd)")
    case True
    let ?ev = "Emit (tx_next_seq (sd_state sd)) (B_Data ts p)"
    obtain st where push: "push_frame (sd_state sd) ts p now = (st, Some ?ev)"
      using push_frame_open [OF True] by auto
    have "dispatch A (sd\<lparr>sd_state := st\<rparr>) [?ev] = (sd', Inr ())"
      using "2.prems" push
      by (cases "dispatch A (sd\<lparr>sd_state := st\<rparr>) [?ev]") (simp del: dispatch.simps)
    then have "steps_to A sd [TapPush ts p now] sd' [B_Data ts p]"
      using push by (simp add: steps_to_def del: dispatch.simps)
    then show ?thesis by blast
  next
    case False
    then have push: "push_frame (sd_state sd) ts p now = (sd_state sd, None)" by (rule push_frame_closed)
    obtain sd1 res where pump: "pump_once A sd inp = (sd1, res)" by force
    then obtain u where u: "res = Inr u" using "2.prems" push by (cases res) auto
    obtain tis where "steps_to A sd1 tis sd' [B_Data ts p]"
      using "2.IH" [OF push [symmetric] refl, of sd1 res u] pump u push "2.prems" by auto
    then have "steps_to A sd ([TapPump inp] @ tis) sd' ([] @ [B_Data ts p])"
      using steps_to_pump [of A sd inp u] pump u by (intro steps_to_trans) auto
    then show ?thesis by auto
  qed
qed

lemma finish_loop_steps:
  assumes "finish_loop A sd turns = (sd', Returned (Inr ()))"
  shows "\<exists>tis. steps_to A sd tis sd' [] \<and> is_done (sd_state sd')"
  using assms
proof (induction A sd turns rule: finish_loop.induct)
  case (1 A sd turns)
  show ?case
  proof (cases "is_done (sd_state sd)")
    case True
    then have "sd' = sd" using "1.prems" by (simp add: finish_loop.simps [of A sd turns])
    then show ?thesis using True steps_to_refl by blast
  next
    case False
    then obtain inp rest where turns: "turns = inp # rest"
      using "1.prems" by (cases turns) (auto simp: finish_loop.simps [of A sd])
    obtain sd1 res where pump: "pump_once A sd inp = (sd1, res)" by force
    then obtain u where u: "res = Inr u"
      using "1.prems" False turns by (cases res) (auto simp: finish_loop.simps [of A sd "inp # rest"])
    have "finish_loop A sd1 rest = (sd', Returned (Inr ()))"
      using "1.prems" False turns pump u by (simp add: finish_loop.simps [of A sd "inp # rest"])
    then obtain tis where "steps_to A sd1 tis sd' []" "is_done (sd_state sd')"
      using "1.IH" [OF False turns pump [symmetric] u] by auto
    then show ?thesis
      using steps_to_trans [of A sd "[TapPump inp]" sd1 "[]" tis sd' "[]"] steps_to_pump [of A sd inp u] pump u
      by auto
  qed
qed

lemma finish_steps:
  assumes "finish A sd now turns = (sd', Returned (Inr ()))"
  shows "\<exists>tis. steps_to A sd (TapFinish now # tis) sd' [] \<and> is_done (sd_state sd')"
proof -
  obtain st evo where fin: "send_finish (sd_state sd) now = (st, evo)" by force
  let ?evs = "snd (opt_events (st, evo))"
  have shape: "evo = None \<or> (\<exists>s n. evo = Some (Emit s (B_End n)))"
    using fin by (auto simp: send_finish_eq split: if_splits)
  obtain sd1 where sd1: "dispatch A (sd\<lparr>sd_state := st\<rparr>) ?evs = (sd1, Inr ())"
    "finish_loop A sd1 turns = (sd', Returned (Inr ()))"
  proof (cases evo)
    case None
    then show thesis using assms fin that by (simp add: finish_def)
  next
    case (Some ev)
    obtain sdx res where d: "dispatch A (sd\<lparr>sd_state := st\<rparr>) [ev] = (sdx, res)" by force
    then show thesis using assms fin that Some
      by (cases res) (simp_all add: finish_def del: dispatch.simps)
  qed
  obtain tis where rest: "steps_to A sd1 tis sd' []" "is_done (sd_state sd')"
    using finish_loop_steps [OF sd1(2)] by blast
  have "steps_to A sd [TapFinish now] sd1 []"
    using shape sd1(1) fin by (auto simp: steps_to_def simp del: dispatch.simps)
  from steps_to_trans [OF this rest(1)] show ?thesis using rest(2) by auto
qed

lemma send_frames_steps:
  assumes "send_frames A sd frames = (sd', Returned (Inr ()))"
  shows "\<exists>tis. steps_to A sd tis sd' (map (\<lambda>((ts, p), turns). B_Data ts p) frames)"
  using assms
proof (induction A sd frames rule: send_frames.induct)
  case (1 A sd)
  then show ?case using steps_to_refl by auto
next
  case (2 A sd ts p turns frames)
  obtain sd1 c where s: "send_frame A sd ts p turns = (sd1, c)" by force
  then have c: "c = Returned (Inr ())"
    using "2.prems" by (cases c; cases "case c of Returned r \<Rightarrow> r") (auto split: call.splits sum.splits)
  then obtain tjs where "steps_to A sd1 tjs sd' (map (\<lambda>((ts, p), turns). B_Data ts p) frames)"
    using "2.IH" [OF s [symmetric], of "Inr ()" "()"] "2.prems" s by auto
  then show ?case
    using send_frame_steps [of A sd ts p turns sd1] s c steps_to_trans by fastforce
qed

text \<open>Why a sender is done: it failed, or it was told so.\<close>

definition done_inv :: "SendInput list \<Rightarrow> SendEvent list \<Rightarrow> XferSender \<Rightarrow> bool" where
  "done_inv is es tx \<longleftrightarrow> (is_done tx \<longrightarrow> (\<exists>f. Failed f \<in> set es) \<or> (\<exists>now. Handle B_EndAck now \<in> set is))"

lemma done_inv_step:
  assumes "done_inv is es tx"
  shows "done_inv (is @ [i]) (es @ snd (send_step tx i)) (fst (send_step tx i))"
proof (cases "is_done tx")
  case True
  then show ?thesis using assms by (auto simp: done_inv_def)
next
  case False
  have push: "\<not> is_done (fst (push_frame tx ts p now))" for ts p now
    using False by (cases "can_send tx") (simp_all add: push_frame_closed push_frame_open is_done_def)
  have opt: "fst (opt_events r) = fst r" for r :: "XferSender \<times> SendEvent option"
    by (cases r; cases "snd r") auto
  show ?thesis using False push
    by (cases i) (auto simp: done_inv_def is_done_def opt record_sealed_def send_finish_eq
        send_handle_def Let_def send_tick_cases emit_keepalive_eq split: Body.splits if_splits)
qed

interpretation done_cause: history_invariant send_step "XferSender_new cfg" done_inv for cfg
  by unfold_locales (simp add: done_inv_def is_done_def, rule done_inv_step)

text \<open>The events of a tap's run are those of a run of its state machine.\<close>

lemma tap_run_drives:
  "\<exists>is. drives A cfg key r tis is (trace (tap_step A) (tap_new N r key cfg peer) tis)
          (final (tap_step A) (tap_new N r key cfg peer) tis)"
  using tap.holds [of A cfg key r tis N peer] by (simp add: tap_inv_def)

text \<open>Only packets of the sending direction are emitted.\<close>

lemma step_direction: "Emit s b \<in> set (snd (send_step tx i)) \<Longrightarrow> PacketKind_direction (Body_kind b) = Dir_Send"
proof (cases i)
  case (PushFrame ts p now)
  then show "Emit s b \<in> set (snd (send_step tx i)) \<Longrightarrow> PacketKind_direction (Body_kind b) = Dir_Send"
    by (cases "can_send tx") (auto simp: push_frame_open push_frame_closed)
qed (auto simp: send_finish_eq send_handle_def Let_def send_tick_cases emit_keepalive_eq
    split: Body.splits if_splits)

lemma emitted_direction:
  "Emit s b \<in> set (trace send_step tx is) \<Longrightarrow> PacketKind_direction (Body_kind b) = Dir_Send"
  by (induction "is" arbitrary: tx) (auto simp: split_beta dest: step_direction)

lemma of_nat_unat_fst: "map fst xs = map of_nat (map (\<lambda>e. unat (fst e)) xs)" for xs :: "(u32 \<times> 'b) list"
  by simp

lemma wire_opens:
  assumes "aead_correct A" and "request_id_wf r"
    and "d \<in> set (us_sent (sd_socket (final (tap_step A) (tap_new N r key cfg peer) tis)))"
  shows "\<exists>s b. open_body A key Dir_Send d = Inr (Header_new (Body_kind b) r s, b)
    \<and> Emit s b \<in> set (trace (tap_step A) (tap_new N r key cfg peer) tis)"
proof -
  let ?es = "trace (tap_step A) (tap_new N r key cfg peer) tis"
  obtain "is" where dr: "drives A cfg key r tis is ?es (final (tap_step A) (tap_new N r key cfg peer) tis)"
    using tap_run_drives by blast
  then obtain s b p where b: "(s, b) \<in> set (emits ?es)" "encode_body b = Inr p"
    "crypto_seal A key (Header_new (Body_kind b) r s) Dir_Send p = Inr d"
    using assms(3) unfolding drives_def sealed_emit_def by blast
  have "Emit s b \<in> set (trace send_step (XferSender_new cfg) is)"
    using b(1) dr by (simp add: emits_set drives_def)
  then have "PacketKind_direction (Body_kind b) = Dir_Send" by (rule emitted_direction)
  then have "crypto_open A key d Dir_Send = Inr (Header_new (Body_kind b) r s, p)"
    using b(3) assms(1,2) by (intro open_seal) simp_all
  then have "open_body A key Dir_Send d = Inr (Header_new (Body_kind b) r s, b)"
    using decode_encode [OF b(2)] by (simp add: open_body_def)
  then show ?thesis using b(1) by (auto simp: emits_set)
qed

text \<open>Everything about \<open>send_all\<close> when it succeeds.\<close>

lemma send_all_run:
  assumes ok: "send_all A N deliver_to r key cfg frames now turns = (Some sd, Returned (Inr ()))"
    and few: "length frames < 2 ^ 32 - 1"
  shows "\<exists>peer tis. sd = final (tap_step A) (tap_new N r key cfg peer) tis
    \<and> data_emits (trace (tap_step A) (tap_new N r key cfg peer) tis)
        = zip (map of_nat [1..<Suc (length frames)]) (map (\<lambda>((ts, p), _). B_Data ts p) frames)
    \<and> opened_by A key tis B_EndAck"
proof -
  obtain sd0 where "connect N deliver_to r key cfg = Inr sd0"
    using ok by (auto simp: send_all_def split: sum.splits)
  then obtain peer where c: "connect N deliver_to r key cfg = Inr (tap_new N r key cfg peer)"
    using connect_Inr by blast
  let ?sd0 = "tap_new N r key cfg peer"
  obtain sd1 res where f: "send_frames A ?sd0 frames = (sd1, res)" by force
  then have res: "res = Returned (Inr ())" and fin: "finish A sd1 now turns = (sd, Returned (Inr ()))"
    using ok c by (auto simp: send_all_def Let_def split_beta prod_eq_iff split: call.splits sum.splits prod.splits)
  obtain tis where t1: "steps_to A ?sd0 tis sd1 (map (\<lambda>((ts, p), turns). B_Data ts p) frames)"
    using send_frames_steps f res by blast
  obtain tjs where t2: "steps_to A sd1 (TapFinish now # tjs) sd []" "is_done (sd_state sd)"
    using finish_steps [OF fin] by blast
  define ts where "ts = tis @ TapFinish now # tjs"
  have steps: "steps_to A ?sd0 ts sd (map (\<lambda>((ts, p), turns). B_Data ts p) frames)"
    using steps_to_trans [OF t1 t2(1)] by (simp add: ts_def)
  let ?es = "trace (tap_step A) ?sd0 ts"
  obtain "is" where dr: "drives A cfg key r ts is ?es sd"
    using tap_run_drives [of A cfg key r ts N peer] steps by (auto simp: steps_to_def)
  then have es: "?es = trace send_step (XferSender_new cfg) is"
    and st: "sd_state sd = final send_step (XferSender_new cfg) is" by (simp_all add: drives_def)
  have "\<exists>now. Handle B_EndAck now \<in> set is"
    using done_cause.holds [of "is" cfg] t2(2) steps es st by (auto simp: done_inv_def steps_to_def)
  then have ack: "opened_by A key ts B_EndAck" using dr unfolding drives_def by blast
  have snds: "map snd (data_emits ?es) = map (\<lambda>((ts, p), turns). B_Data ts p) frames"
    using steps by (simp add: steps_to_def)
  then have len: "length (data_emits ?es) = length frames" by (metis length_map)
  have "map (\<lambda>e. unat (fst e)) (data_emits ?es) = map Suc [0..<length frames]"
    using seqs.holds [of cfg "is"] few es len by (simp add: seq_inv_def Let_def)
  then have "map fst (data_emits ?es) = map of_nat [1..<Suc (length frames)]"
    by (simp only: of_nat_unat_fst map_Suc_upt One_nat_def)
  then have "data_emits ?es = zip (map of_nat [1..<Suc (length frames)]) (map (\<lambda>((ts, p), _). B_Data ts p) frames)"
    using zip_map_fst_snd [of "data_emits ?es"] snds by (simp only:)
  moreover have "sd = final (tap_step A) ?sd0 ts" using steps by (simp add: steps_to_def)
  ultimately show ?thesis using ack by blast
qed
section \<open>A tap whose state machine is done\<close>

lemma socket_send_total:
  "us_send_answers sk = (\<lambda>_. None) \<Longrightarrow>
     snd (socket_send sk d) = Inr () \<and> us_send_answers (fst (socket_send sk d)) = (\<lambda>_. None)"
  by (simp add: socket_send_def Let_def)

lemma resend_total:
  "us_send_answers sk = (\<lambda>_. None) \<Longrightarrow>
     snd (resend_loop sk ds) = Inr () \<and> us_send_answers (fst (resend_loop sk ds)) = (\<lambda>_. None)"
proof (induction ds arbitrary: sk)
  case Nil
  then show ?case by simp
next
  case (Cons d ds)
  obtain sk' r where "socket_send sk d = (sk', r)" by force
  then show ?case using Cons socket_send_total [OF Cons.prems, of d] by simp
qed

lemma done_pump:
  assumes "is_done (sd_state sd)" and "us_send_answers (sd_socket sd) = (\<lambda>_. None)"
    and "\<And>e. pi_answer inp \<noteq> RecvError e"
  shows "snd (pump_once A sd inp) = Inr () \<and> is_done (sd_state (fst (pump_once A sd inp)))
    \<and> us_send_answers (sd_socket (fst (pump_once A sd inp))) = (\<lambda>_. None)"
proof -
  have handle: "is_done (fst (send_handle (sd_state sd) b now))
      \<and> (snd (send_handle (sd_state sd) b now) = [] \<or> snd (send_handle (sd_state sd) b now) = [Completed]
         \<or> (\<exists>ds. snd (send_handle (sd_state sd) b now) = [Resend ds]))" for b now
    using assms(1) by (cases b) (simp_all add: send_handle_def Let_def is_done_def)
  have disp: "snd (dispatch A (sd\<lparr>sd_state := st\<rparr>) evs) = Inr ()
      \<and> sd_state (fst (dispatch A (sd\<lparr>sd_state := st\<rparr>) evs)) = st
      \<and> us_send_answers (sd_socket (fst (dispatch A (sd\<lparr>sd_state := st\<rparr>) evs))) = (\<lambda>_. None)"
    if "evs = [] \<or> evs = [Completed] \<or> (\<exists>ds. evs = [Resend ds])" for st evs
    using that resend_total [OF assms(2)] assms(2)
    by (auto simp: dispatch_one_def Let_def split_beta split: prod.splits sum.splits)
  have recv: "snd (pump_recv A sd inp) = Inr () \<and> is_done (sd_state (fst (pump_recv A sd inp)))
      \<and> us_send_answers (sd_socket (fst (pump_recv A sd inp))) = (\<lambda>_. None)"
    using assms handle disp
    by (auto simp: pump_recv_def Let_def split_beta split: recv_answer.splits sum.splits)
  obtain sd1 r where p: "pump_recv A sd inp = (sd1, r)" by force
  then show ?thesis using recv
    by (simp add: pump_once_def send_tick_cases is_done_def)
qed

section \<open>Properties\<close>

definition quiet_net :: net where
  "quiet_net = \<lparr>net_lookup = (\<lambda>_. Inr [V4 [127, 0, 0, 1] 9000]), net_bind = (\<lambda>_. Inr ()),
     net_connect = (\<lambda>_. Inr ()), net_send = (\<lambda>_. None)\<rparr>"

abbreviation demo_tap :: Sender where
  "demo_tap \<equiv> tap_new quiet_net demo_id demo_key SenderConfig_default (V4 [127, 0, 0, 1] 9000)"

text \<open>
  C16: when \<open>send_all\<close> succeeds, the state machine emitted exactly the given frames, in order and
  numbered from 1, and an \<open>EndAck\<close> that opens under the transfer's key was received; success is
  never reported on a timeout or merely because everything was sent.
\<close>

theorem send_all_success:
  assumes "send_all A N deliver_to r key cfg frames now turns = (Some sd, Returned (Inr ()))"
    and "length frames < 2 ^ 32 - 1"
  shows "\<exists>peer tis. sd = final (tap_step A) (tap_new N r key cfg peer) tis
    \<and> data_emits (trace (tap_step A) (tap_new N r key cfg peer) tis)
        = zip (map of_nat [1..<Suc (length frames)]) (map (\<lambda>((ts, p), _). B_Data ts p) frames)
    \<and> opened_by A key tis B_EndAck"
  using send_all_run [OF assms] by blast

text \<open>A concrete acknowledgement of the end, and a transfer of one frame that it ends.\<close>

definition end_ack :: bytes where
  "end_ack = Header_to_bytes (Header_new PK_EndAck demo_id 0)
     @ demo_tag (cipher_key demo_key) (nonce_for Dir_Recv SC_Control 0)
         (Header_to_bytes (Header_new PK_EndAck demo_id 0)) []"

lemma end_ack_opens:
  "open_body demo_aead demo_key Dir_Recv end_ack = Inr (Header_new PK_EndAck demo_id 0, B_EndAck)"
proof -
  have "crypto_seal demo_aead demo_key (Header_new PK_EndAck demo_id 0) Dir_Recv [] = Inr end_ack"
    by (simp add: crypto_seal_Inr_iff demo_aead_def end_ack_def PacketKind_seq_class_def)
  then have "crypto_open demo_aead demo_key end_ack Dir_Recv = Inr (Header_new PK_EndAck demo_id 0, [])"
    by (intro open_seal demo_aead_correct) simp_all
  then show ?thesis
    using decode_encode [of B_EndAck "[]"] by (simp add: open_body_def)
qed

lemma demo_send_all:
  "\<exists>sd. send_all demo_aead quiet_net [''sink''] demo_id demo_key SenderConfig_default
     [((0, [1]), [(0, \<lparr>pi_answer = TimedOut, pi_handle_at = 0, pi_tick_at = 0\<rparr>)])] 1
     [\<lparr>pi_answer = Received end_ack, pi_handle_at = 2, pi_tick_at = 2\<rparr>] = (Some sd, Returned (Inr ()))"
  by (simp add: send_all_def connect_def quiet_net_def UdpSocket_new_def tx_eval push_frame_def
      dispatch_one_def seal_body_def crypto_seal_def SessionKey_seal_def demo_aead_def [THEN arg_cong [of _ _ encrypt]]
      socket_send_def MAX_PAYLOAD_def finish_def send_finish_eq finish_loop.simps pump_once_def
      pump_recv_def end_ack_opens send_handle_def send_tick_cases is_done_def Let_def)

theorem send_all_success_witness:
  "\<exists>sd peer tis. sd = final (tap_step demo_aead) (tap_new quiet_net demo_id demo_key SenderConfig_default peer) tis
     \<and> data_emits (trace (tap_step demo_aead) (tap_new quiet_net demo_id demo_key SenderConfig_default peer) tis)
         = [(1, B_Data 0 [1])]
     \<and> opened_by demo_aead demo_key tis B_EndAck"
proof -
  obtain sd where "send_all demo_aead quiet_net [''sink''] demo_id demo_key SenderConfig_default
     [((0, [1]), [(0, \<lparr>pi_answer = TimedOut, pi_handle_at = 0, pi_tick_at = 0\<rparr>)])] 1
     [\<lparr>pi_answer = Received end_ack, pi_handle_at = 2, pi_tick_at = 2\<rparr>] = (Some sd, Returned (Inr ()))"
    using demo_send_all by blast
  from send_all_success [OF this] show ?thesis by auto
qed

text \<open>
  A frame whose payload is too large is refused with an error and nothing is sent, but it has
  already used up a sequence number (\<open>Pf4_Oversized\<close> shows what follows from it).
\<close>

lemma oversized_frame_burns_number:
  assumes "can_send (sd_state sd)" and "MAX_PAYLOAD < length p"
  shows "\<exists>sd'. send_frame A sd ts p ((now, inp) # turns)
           = (sd', Returned (Inl (E_Proto (PayloadTooLarge (length p) MAX_PAYLOAD))))
    \<and> sd_socket sd' = sd_socket sd
    \<and> tx_ring (sd_state sd') = tx_ring (sd_state sd)
    \<and> tx_next_seq (sd_state sd') = XferSeq_next (tx_next_seq (sd_state sd))"
  using assms by (simp add: push_frame_open dispatch_one_def seal_body_def)

lemma oversized_frame_burns_number_instance:
  "\<exists>sd'. send_frame demo_aead demo_tap 0 (replicate 2000 0)
       [(0, \<lparr>pi_answer = TimedOut, pi_handle_at = 0, pi_tick_at = 0\<rparr>)]
         = (sd', Returned (Inl (E_Proto (PayloadTooLarge 2000 MAX_PAYLOAD))))
     \<and> tx_next_seq (sd_state sd') = 2"
proof -
  have st: "sd_state demo_tap = XferSender_new SenderConfig_default" by (simp add: tap_new_def)
  have "can_send (sd_state demo_tap)" unfolding st by (simp add: tx_eval)
  from oversized_frame_burns_number [OF this, of "replicate 2000 0" demo_aead 0 0
      "\<lparr>pi_answer = TimedOut, pi_handle_at = 0, pi_tick_at = 0\<rparr>" "[]"] show ?thesis
    by (auto simp: MAX_PAYLOAD_def st XferSeq_next_def sat_add_def simp del: send_frame.simps)
qed

text \<open>
  A tap whose state machine is done, for instance because an \<open>EndAck\<close> came in while it was
  still streaming, waits in \<open>send_frame\<close> forever: as long as the socket reports no error the call
  does not return, however many turns it is given.
\<close>

lemma send_frame_waits_when_done:
  assumes "is_done (sd_state sd)" and "us_send_answers (sd_socket sd) = (\<lambda>_. None)"
    and "list_all (\<lambda>(now, inp). \<forall>e. pi_answer inp \<noteq> RecvError e) turns"
  shows "snd (send_frame A sd ts p turns) = Waiting"
  using assms
proof (induction A sd ts p turns rule: send_frame.induct)
  case (1 A sd ts p)
  then show ?case by simp
next
  case (2 A sd ts p now inp turns)
  have "\<not> can_send (sd_state sd)" using "2.prems" by (simp add: is_done_def can_send_iff)
  then have push: "push_frame (sd_state sd) ts p now = (sd_state sd, None)" by (rule push_frame_closed)
  obtain sd1 r where p: "pump_once A sd inp = (sd1, r)" by force
  have pd: "r = Inr ()" "is_done (sd_state sd1)" "us_send_answers (sd_socket sd1) = (\<lambda>_. None)"
    using done_pump [OF "2.prems"(1,2), of inp A] "2.prems"(3) p by auto
  have "snd (send_frame A sd1 ts p turns) = Waiting"
    using "2.IH" [OF push [symmetric] refl, of sd1 r "()"] p pd "2.prems"(3) by simp
  then show ?case using push p pd by simp
qed

lemma send_frame_waits_when_done_instance:
  "snd (send_frame demo_aead (final (tap_step demo_aead) demo_tap
       [TapPump \<lparr>pi_answer = Received end_ack, pi_handle_at = 2, pi_tick_at = 2\<rparr>]) 0 [1]
     [(3, \<lparr>pi_answer = TimedOut, pi_handle_at = 4, pi_tick_at = 4\<rparr>)]) = Waiting"
proof (rule send_frame_waits_when_done)
  let ?sd = "final (tap_step demo_aead) demo_tap
       [TapPump \<lparr>pi_answer = Received end_ack, pi_handle_at = 2, pi_tick_at = 2\<rparr>]"
  have sd: "?sd = demo_tap\<lparr>sd_state := (XferSender_new SenderConfig_default)\<lparr>tx_state := S_Done\<rparr>\<rparr>"
    by (simp add: tap_new_def pump_once_def pump_recv_def end_ack_opens send_handle_def send_tick_cases
        dispatch_one_def)
  show "is_done (sd_state ?sd)" unfolding sd by (simp add: is_done_def)
  show "us_send_answers (sd_socket ?sd) = (\<lambda>_. None)"
    unfolding sd by (simp add: tap_new_def UdpSocket_new_def quiet_net_def)
qed simp

end
