(* ===== verification/Pf4_System.thy ===== *)
theory Pf4_System
  imports Pf4_Tap Pf4_Endpoint_Run Pf4_Rel_Spec
begin

text \<open>
  A tap and a sink that share a key and a request id, with an arbitrary network between them: it
  may lose, repeat, reorder, delay and invent datagrams.  The only assumption on it is what the
  authentication tag is for, that a datagram which opens under the key is one the other side
  sealed and sent (\<open>authentic_to_sink\<close>, \<open>authentic_to_tap\<close>).  The lemmas carry facts across the
  network: a packet the sink's state machine sees was emitted by the tap's, and conversely.  They
  are proved for one entry and then carried to an endpoint that serves many transfers.
\<close>

definition authentic_to_sink :: "aead \<Rightarrow> SessionKey \<Rightarrow> EntryInput list \<Rightarrow> bytes list \<Rightarrow> bool" where
  "authentic_to_sink A key ins sent \<longleftrightarrow>
     (\<forall>d src now clk. EDatagram d src now clk \<in> set ins \<and> is_ok (open_body A key Dir_Send d)
        \<longrightarrow> d \<in> set sent)"

definition authentic_to_tap :: "aead \<Rightarrow> SessionKey \<Rightarrow> TapInput list \<Rightarrow> bytes list \<Rightarrow> bool" where
  "authentic_to_tap A key tis sent \<longleftrightarrow>
     (\<forall>inp d. TapPump inp \<in> set tis \<and> pi_answer inp = Received d
        \<and> is_ok (open_body A key Dir_Recv d) \<longrightarrow> d \<in> set sent)"

text \<open>The frames a tap's trace carries, and the application's view of a delivered frame.\<close>

definition tap_frames :: "SendEvent list \<Rightarrow> (TimestampMs \<times> bytes) list" where
  "tap_frames es = map (\<lambda>e. (body_ts (snd e), body_payload (snd e))) (data_emits es)"

definition frame_data :: "Frame \<Rightarrow> TimestampMs \<times> bytes" where
  "frame_data f = (fr_ts f, fr_payload f)"

section \<open>From the tap to the sink\<close>

lemma arrived_was_emitted:
  assumes "aead_correct A" and "request_id_wf r"
    and "authentic_to_sink A key ins (us_sent (sd_socket (final (tap_step A) (tap_new N r key cfg peer) tis)))"
    and "arrived_from A key ins s b"
  shows "Emit s b \<in> set (trace (tap_step A) (tap_new N r key cfg peer) tis)"
proof -
  obtain d src now clk h where d: "EDatagram d src now clk \<in> set ins"
    "open_body A key Dir_Send d = Inr (h, b)" "hdr_seq h = s"
    using assms(4) unfolding arrived_from_def by blast
  then have "d \<in> set (us_sent (sd_socket (final (tap_step A) (tap_new N r key cfg peer) tis)))"
    using assms(3) unfolding authentic_to_sink_def by force
  then obtain s' b' where "open_body A key Dir_Send d = Inr (Header_new (Body_kind b') r s', b')"
    "Emit s' b' \<in> set (trace (tap_step A) (tap_new N r key cfg peer) tis)"
    using wire_opens [OF assms(1,2)] by blast
  then show ?thesis using d(2,3) by auto
qed

text \<open>A list numbered from 1 is indexed by its numbers.\<close>

lemma numbered_nth:
  assumes "map (\<lambda>e. unat (fst e)) xs = map Suc [0..<length xs]" and "(s, b) \<in> set xs"
  shows "0 < unat s" and "unat s \<le> length xs" and "xs ! (unat s - 1) = (s, b)"
proof -
  obtain i where i: "i < length xs" "xs ! i = (s, b)" using assms(2) by (auto simp: in_set_conv_nth)
  have "map (\<lambda>e. unat (fst e)) xs ! i = Suc i" unfolding assms(1) using i(1) by simp
  then have "unat s = Suc i" using i by simp
  then show "0 < unat s" "unat s \<le> length xs" "xs ! (unat s - 1) = (s, b)" using i by simp_all
qed

lemma data_emits_set: "(s, B_Data ts p) \<in> set (data_emits es) \<longleftrightarrow> Emit s (B_Data ts p) \<in> set es"
  by (simp add: data_emits_def emits_set)

lemma ends_set: "n \<in> set (ends es) \<longleftrightarrow> (\<exists>s. Emit s (B_End n) \<in> set es)"
  by (induction es rule: ends.induct) auto

lemma prefix_by_nth:
  assumes "\<And>i. i < length xs \<Longrightarrow> i < length ys \<and> xs ! i = ys ! i"
  shows "prefix xs ys"
proof -
  have "length xs \<le> length ys"
    using assms [of "length xs - 1"] by (cases xs) auto
  then have "xs = take (length xs) ys" using assms by (intro nth_equalityI) auto
  then show ?thesis by (metis take_is_prefix)
qed

lemma prefix_same_length: "prefix xs ys \<Longrightarrow> length ys \<le> length xs \<Longrightarrow> xs = ys"
  by (auto simp: prefix_def)

text \<open>The numbering of a tap's trace, from its state machine's.\<close>

lemma tap_numbered:
  assumes "length (data_emits (trace (tap_step A) (tap_new N r key cfg peer) tis)) < 2 ^ 32 - 1"
  shows "map (\<lambda>e. unat (fst e)) (data_emits (trace (tap_step A) (tap_new N r key cfg peer) tis))
      = map Suc [0..<length (data_emits (trace (tap_step A) (tap_new N r key cfg peer) tis))]"
    and "n \<in> set (ends (trace (tap_step A) (tap_new N r key cfg peer) tis)) \<Longrightarrow>
      unat n = length (data_emits (trace (tap_step A) (tap_new N r key cfg peer) tis))"
proof -
  let ?es = "trace (tap_step A) (tap_new N r key cfg peer) tis"
  obtain "is" where es: "?es = trace send_step (XferSender_new cfg) is"
    using tap_run_drives [of A cfg key r tis N peer] unfolding drives_def by blast
  have seq: "seq_inv ?es (final send_step (XferSender_new cfg) is)"
    unfolding es by (rule seqs.holds)
  then show "map (\<lambda>e. unat (fst e)) (data_emits ?es) = map Suc [0..<length (data_emits ?es)]"
    using assms by (simp add: seq_inv_def Let_def)
  assume "n \<in> set (ends ?es)"
  then have "n = sat_sub (tx_next_seq (final send_step (XferSender_new cfg) is)) 1"
    using ending.holds [of cfg "is"] es by (simp add: end_inv_def)
  then show "unat n = length (data_emits ?es)"
    using seq assms by (simp add: seq_inv_def Let_def unat_simps)
qed

text \<open>Everything the sink's state machine releases is the tap's frame of that number.\<close>

lemma released_is_sent:
  assumes A: "aead_correct A" and r: "request_id_wf r"
    and auth: "authentic_to_sink A key ins (us_sent (sd_socket (final (tap_step A) (tap_new N r key cfg peer) tis)))"
    and few: "length (data_emits (trace (tap_step A) (tap_new N r key cfg peer) tis)) < 2 ^ 32 - 1"
    and fed: "fed A key rid rcfg t0 ins ris effs e"
  shows "prefix (map frame_data (reliable_frames (trace recv_step (XferReceiver_new rcfg t0) ris)))
    (tap_frames (trace (tap_step A) (tap_new N r key cfg peer) tis))"
proof (rule prefix_by_nth)
  let ?es = "trace (tap_step A) (tap_new N r key cfg peer) tis"
    and ?fs = "reliable_frames (trace recv_step (XferReceiver_new rcfg t0) ris)"
  fix i assume i: "i < length (map frame_data ?fs)"
  have ord: "in_order (got ris) ?fs (rx_rel_released (final recv_step (XferReceiver_new rcfg t0) ris))"
    by (rule settled_shape(2) [OF rel.holds])
  let ?f = "?fs ! i"
  have "map (\<lambda>f. unat (fr_seq f)) ?fs ! i = Suc i"
    using ord length_in_order [OF ord] i by (simp add: in_order_def)
  then have seq: "unat (fr_seq ?f) = Suc i" using i by simp
  have "got ris ?f" using ord i by (simp add: in_order_def)
  then have "arrived_from A key ins (fr_seq ?f) (B_Data (fr_ts ?f) (fr_payload ?f))"
    using fed unfolding got_def fed_def by blast
  from arrived_was_emitted [OF A r auth this]
  have mem: "(fr_seq ?f, B_Data (fr_ts ?f) (fr_payload ?f)) \<in> set (data_emits ?es)"
    by (simp add: data_emits_set)
  from numbered_nth [OF tap_numbered(1) [OF few] mem] seq
  show "i < length (tap_frames ?es) \<and> map frame_data ?fs ! i = tap_frames ?es ! i"
    using i by (simp add: tap_frames_def frame_data_def)
qed

lemma declared_is_count:
  assumes "aead_correct A" and "request_id_wf r"
    and "authentic_to_sink A key ins (us_sent (sd_socket (final (tap_step A) (tap_new N r key cfg peer) tis)))"
    and "length (data_emits (trace (tap_step A) (tap_new N r key cfg peer) tis)) < 2 ^ 32 - 1"
    and "fed A key rid rcfg t0 ins ris effs e" and "declared ris n"
  shows "unat n = length (data_emits (trace (tap_step A) (tap_new N r key cfg peer) tis))"
proof -
  obtain s now where "Packet s (B_End n) now \<in> set ris" using assms(6) by (auto simp: declared_def)
  then have "arrived_from A key ins s (B_End n)" using assms(5) unfolding fed_def by blast
  from arrived_was_emitted [OF assms(1-3) this] show ?thesis
    using tap_numbered(2) [OF assms(4)] ends_set by blast
qed

section \<open>From the sink to the tap\<close>

lemma sink_reply_opens:
  assumes "aead_correct A" and "request_id_wf rid"
    and "fed A key rid rcfg t0 ins ris effs e" and "d \<in> set (replies effs)"
    and "open_body A key Dir_Recv d = Inr (h, b)"
  shows "\<exists>ev \<in> set (trace recv_step (XferReceiver_new rcfg t0) ris). answers ev b"
proof -
  let ?es = "trace recv_step (XferReceiver_new rcfg t0) ris"
  have "replies_ok A key rid ?es (replies effs)" using assms(3) by (simp add: fed_def applied_def)
  then obtain ps where ps: "list_all2 (sink_sealed A key rid) ps (replies effs)"
    "\<forall>b \<in> snd ` set ps. \<exists>ev \<in> set ?es. answers ev b" unfolding replies_ok_def by blast
  obtain i where i: "i < length (replies effs)" "replies effs ! i = d"
    using assms(4) by (auto simp: in_set_conv_nth)
  then have len: "i < length ps" and seal: "sink_sealed A key rid (ps ! i) d"
    using ps(1) by (auto simp: list_all2_conv_all_nth)
  have mem: "snd (ps ! i) \<in> snd ` set ps" using len by simp
  then obtain ev where ev: "ev \<in> set ?es" "answers ev (snd (ps ! i))" using ps(2) by blast
  have "PacketKind_direction (Body_kind (snd (ps ! i))) = Dir_Recv"
    using ev(2) by (cases ev rule: RecvEvent.exhaust) auto
  then have "open_body A key Dir_Recv d
      = Inr (Header_new (Body_kind (snd (ps ! i))) rid (of_nat (fst (ps ! i))), snd (ps ! i))"
    using seal open_body_sealed [OF assms(1,2)] unfolding sink_sealed_def by blast
  then show ?thesis using assms(5) ev by auto
qed

lemma answers_EndAck: "answers ev B_EndAck \<Longrightarrow> ev = SendEndAck"
  by (cases ev) auto

section \<open>One entry and one tap\<close>

lemma entry_delivers_prefix:
  assumes "aead_correct A" and "request_id_wf r"
    and "authentic_to_sink A key ins (us_sent (sd_socket (final (tap_step A) (tap_new N r key cfg peer) tis)))"
    and "length (tap_frames (trace (tap_step A) (tap_new N r key cfg peer) tis)) < 2 ^ 32 - 1"
    and "stays_closed (trace (entry_step A r) (Entry_new key rcfg t1 t0) ins)"
  shows "prefix (map frame_data (to_rel (trace (entry_step A r) (Entry_new key rcfg t1 t0) ins)))
    (tap_frames (trace (tap_step A) (tap_new N r key cfg peer) tis))"
proof -
  let ?effs = "trace (entry_step A r) (Entry_new key rcfg t1 t0) ins"
  obtain ris where fed: "fed A key r rcfg t0 ins ris ?effs (final (entry_step A r) (Entry_new key rcfg t1 t0) ins)"
    using entry.holds [of A key r rcfg t0 ins t1] unfolding entry_inv_def by blast
  then have "prefix (to_rel ?effs) (reliable_frames (trace recv_step (XferReceiver_new rcfg t0) ris))"
    using to_rel_prefix [OF assms(5)] by (simp add: fed_def applied_def)
  then have "prefix (map frame_data (to_rel ?effs))
      (map frame_data (reliable_frames (trace recv_step (XferReceiver_new rcfg t0) ris)))"
    by (rule map_mono_prefix)
  then show ?thesis
    using released_is_sent [OF assms(1-3) _ fed] assms(4) by (auto simp: tap_frames_def intro: prefix_order.trans)
qed

lemma entry_complete_exact:
  assumes "aead_correct A" and "request_id_wf r"
    and "authentic_to_sink A key ins (us_sent (sd_socket (final (tap_step A) (tap_new N r key cfg peer) tis)))"
    and "length (tap_frames (trace (tap_step A) (tap_new N r key cfg peer) tis)) < 2 ^ 32 - 1"
    and "Complete n \<in> set (reported (trace (entry_step A r) (Entry_new key rcfg t1 t0) ins))"
    and "\<And>f. RelRefused f \<notin> set (trace (entry_step A r) (Entry_new key rcfg t1 t0) ins)"
  shows "map frame_data (to_rel (trace (entry_step A r) (Entry_new key rcfg t1 t0) ins))
    = tap_frames (trace (tap_step A) (tap_new N r key cfg peer) tis)"
proof -
  let ?effs = "trace (entry_step A r) (Entry_new key rcfg t1 t0) ins"
    and ?es = "trace (tap_step A) (tap_new N r key cfg peer) tis"
  obtain ris where fed: "fed A key r rcfg t0 ins ris ?effs (final (entry_step A r) (Entry_new key rcfg t1 t0) ins)"
    using entry.holds [of A key r rcfg t0 ins t1] unfolding entry_inv_def by blast
  let ?rs = "trace recv_step (XferReceiver_new rcfg t0) ris"
  have all: "to_rel ?effs = reliable_frames ?rs" and out: "reported ?effs = take 1 (outcomes ?rs)"
    using fed to_rel_all assms(6) by (simp_all add: fed_def applied_def)
  have few: "length (data_emits ?es) < 2 ^ 32 - 1" using assms(4) by (simp add: tap_frames_def)
  have "Complete n \<in> set (outcomes ?rs)" using assms(5) out in_set_takeD by fastforce
  from settled_shape(4) [OF rel.holds this]
  have "n \<le> rx_rel_released (final recv_step (XferReceiver_new rcfg t0) ris)" and "declared ris n" by auto
  then have "length (data_emits ?es) \<le> length (reliable_frames ?rs)"
    using declared_is_count [OF assms(1-3) few fed] length_in_order [OF settled_shape(2) [OF rel.holds]]
    by (simp add: word_le_nat_alt)
  moreover have "prefix (map frame_data (reliable_frames ?rs)) (tap_frames ?es)"
    by (rule released_is_sent [OF assms(1-3) few fed])
  ultimately show ?thesis unfolding all
    by (intro prefix_same_length) (simp_all add: tap_frames_def)
qed

text \<open>Completion means that every frame of the tap has arrived.\<close>

lemma entry_complete_arrived:
  assumes "aead_correct A" and "request_id_wf r"
    and "authentic_to_sink A key ins (us_sent (sd_socket (final (tap_step A) (tap_new N r key cfg peer) tis)))"
    and "length (tap_frames (trace (tap_step A) (tap_new N r key cfg peer) tis)) < 2 ^ 32 - 1"
    and "Complete n \<in> set (reported (trace (entry_step A r) (Entry_new key rcfg t1 t0) ins))"
    and "(s, b) \<in> set (data_emits (trace (tap_step A) (tap_new N r key cfg peer) tis))"
  shows "\<exists>ts p. arrived_from A key ins s (B_Data ts p)"
proof -
  let ?effs = "trace (entry_step A r) (Entry_new key rcfg t1 t0) ins"
    and ?es = "trace (tap_step A) (tap_new N r key cfg peer) tis"
  obtain ris where fed: "fed A key r rcfg t0 ins ris ?effs (final (entry_step A r) (Entry_new key rcfg t1 t0) ins)"
    using entry.holds [of A key r rcfg t0 ins t1] unfolding entry_inv_def by blast
  let ?rs = "trace recv_step (XferReceiver_new rcfg t0) ris"
    and ?n = "rx_rel_released (final recv_step (XferReceiver_new rcfg t0) ris)"
  have few: "length (data_emits ?es) < 2 ^ 32 - 1" using assms(4) by (simp add: tap_frames_def)
  have "reported ?effs = take 1 (outcomes ?rs)" using fed by (simp add: fed_def applied_def)
  then have "Complete n \<in> set (outcomes ?rs)" using assms(5) in_set_takeD by fastforce
  from settled_shape(4) [OF rel.holds this] have n: "n \<le> ?n" "declared ris n" by auto
  have "unat n = length (data_emits ?es)" by (rule declared_is_count [OF assms(1-3) few fed n(2)])
  then have s: "0 < unat s" "unat s \<le> unat ?n"
    using numbered_nth(1,2) [OF tap_numbered(1) [OF few] assms(6)] n(1) by (auto simp: word_le_nat_alt)
  have ord: "in_order (got ris) (reliable_frames ?rs) ?n" by (rule settled_shape(2) [OF rel.holds])
  let ?f = "reliable_frames ?rs ! (unat s - 1)"
  have i: "unat s - 1 < length (reliable_frames ?rs)" using s length_in_order [OF ord] by simp
  have "map (\<lambda>f. unat (fr_seq f)) (reliable_frames ?rs) ! (unat s - 1) = unat s"
    using ord s i unfolding in_order_def by simp
  then have f: "?f \<in> set (reliable_frames ?rs)" "fr_seq ?f = s" using i by (simp_all add: word_unat_eq_iff)
  then have "got ris ?f" using ord by (simp add: in_order_def)
  then have "arrived_from A key ins (fr_seq ?f) (B_Data (fr_ts ?f) (fr_payload ?f))"
    using fed unfolding got_def fed_def by blast
  then show ?thesis using f(2) by auto
qed

lemma entry_end_ack:
  assumes "aead_correct A" and "request_id_wf r"
    and "authentic_to_sink A key ins (us_sent (sd_socket (final (tap_step A) (tap_new N r key cfg peer) tis)))"
    and "authentic_to_tap A key tis (replies (trace (entry_step A r) (Entry_new key rcfg t1 t0) ins))"
    and "length (tap_frames (trace (tap_step A) (tap_new N r key cfg peer) tis)) < 2 ^ 32 - 1"
    and "opened_by A key tis B_EndAck"
    and "(s, b) \<in> set (data_emits (trace (tap_step A) (tap_new N r key cfg peer) tis))"
  shows "arrived_from A key ins s b"
proof -
  let ?effs = "trace (entry_step A r) (Entry_new key rcfg t1 t0) ins"
    and ?es = "trace (tap_step A) (tap_new N r key cfg peer) tis"
  obtain ris where fed: "fed A key r rcfg t0 ins ris ?effs (final (entry_step A r) (Entry_new key rcfg t1 t0) ins)"
    using entry.holds [of A key r rcfg t0 ins t1] unfolding entry_inv_def by blast
  have few: "length (data_emits ?es) < 2 ^ 32 - 1" using assms(5) by (simp add: tap_frames_def)
  note num = tap_numbered(1) [OF few]
  obtain d h where "d \<in> set (replies ?effs)" "open_body A key Dir_Recv d = Inr (h, B_EndAck)"
    using assms(4,6) unfolding opened_by_def authentic_to_tap_def by force
  from sink_reply_opens [OF assms(1,2) fed this]
  have "SendEndAck \<in> set (trace recv_step (XferReceiver_new rcfg t0) ris)" using answers_EndAck by blast
  from end_ack_covers [OF this] obtain n where n: "declared ris n" "{1..n} \<subseteq> data_seqs ris" by blast
  have "unat n = length (data_emits ?es)" by (rule declared_is_count [OF assms(1-3) few fed n(1)])
  with numbered_nth(1,2) [OF num assms(7)] have "s \<in> {1..n}"
    by (simp add: word_le_nat_alt)
  with n(2) obtain ts p now where "Packet s (B_Data ts p) now \<in> set ris" by (auto simp: data_seqs_def)
  then have arr: "arrived_from A key ins s (B_Data ts p)" using fed unfolding fed_def by blast
  then have "(s, B_Data ts p) \<in> set (data_emits ?es)"
    using arrived_was_emitted [OF assms(1-3)] by (simp add: data_emits_set)
  from numbered_nth(3) [OF num this] numbered_nth(3) [OF num assms(7)] show ?thesis using arr by simp
qed

section \<open>One tap and an endpoint with many transfers\<close>

text \<open>
  What the endpoint does for a request armed after \<open>pre\<close>, with anything at all happening to the
  endpoint before and, interleaved, afterwards: other transfers, ticks, drops, foreign datagrams.
\<close>

definition sink_effects ::
  "aead \<Rightarrow> EpInput list \<Rightarrow> RequestId \<Rightarrow> SessionKey \<Rightarrow> ReceiverConfig \<Rightarrow> instant \<Rightarrow> instant \<Rightarrow> EpInput list
    \<Rightarrow> Effect list" where
  "sink_effects A pre r key rcfg t1 t0 post =
     effects_of r (trace (endpoint_step A) (final (endpoint_step A) Map.empty pre) (EpArm r key rcfg t1 t0 # post))"

text \<open>The request id is free when the request is armed, and is not armed again later.\<close>

definition armed_once :: "aead \<Rightarrow> EpInput list \<Rightarrow> RequestId \<Rightarrow> EpInput list \<Rightarrow> bool" where
  "armed_once A pre r post \<longleftrightarrow> final (endpoint_step A) Map.empty pre r = None \<and> \<not> rearmed r post"

definition authentic_reads :: "aead \<Rightarrow> SessionKey \<Rightarrow> EpInput list \<Rightarrow> bytes list \<Rightarrow> bool" where
  "authentic_reads A key ins sent \<longleftrightarrow>
     (\<forall>d src now env. EpRead d src now env \<in> set ins \<and> is_ok (open_body A key Dir_Send (read_from d))
        \<longrightarrow> read_from d \<in> set sent)"

definition read_packet :: "aead \<Rightarrow> SessionKey \<Rightarrow> EpInput list \<Rightarrow> XferSeq \<Rightarrow> Body \<Rightarrow> bool" where
  "read_packet A key ins s b \<longleftrightarrow> (\<exists>d src now env h. EpRead d src now env \<in> set ins
     \<and> open_body A key Dir_Send (read_from d) = Inr (h, b) \<and> hdr_seq h = s)"

lemma sink_session:
  assumes "armed_once A pre r post"
  obtains js where "session_of A r post (Entry_new key rcfg t1 t0) js" and "read_by post js"
    and "sink_effects A pre r key rcfg t1 t0 post = trace (entry_step A r) (Entry_new key rcfg t1 t0) js"
proof -
  obtain js where js: "session_of A r post (Entry_new key rcfg t1 t0) js"
    "sink_effects A pre r key rcfg t1 t0 post = trace (entry_step A r) (Entry_new key rcfg t1 t0) js"
    using endpoint_session [OF refl, of A pre r post key rcfg t1 t0] assms
    unfolding armed_once_def sink_effects_def by blast
  then have "read_by post js" by (simp add: session_of_def)
  then show thesis by (rule that [OF js(1) _ js(2)])
qed

lemma read_by_authentic: "read_by ins js \<Longrightarrow> authentic_reads A key ins sent \<Longrightarrow> authentic_to_sink A key js sent"
  unfolding read_by_def authentic_reads_def authentic_to_sink_def by blast

lemma read_by_packet: "read_by ins js \<Longrightarrow> arrived_from A key js s b \<Longrightarrow> read_packet A key ins s b"
  unfolding read_by_def arrived_from_def read_packet_def by blast

section \<open>Completion\<close>

text \<open>When everything the tap emitted has arrived, a sink that has not given up is complete.\<close>

lemma data_emits_body: "(s, b) \<in> set (data_emits es) \<Longrightarrow> \<exists>ts p. b = B_Data ts p"
  by (cases b) (auto simp: data_emits_def)

lemma arrivals_cover:
  assumes num: "map (\<lambda>e. unat (fst e)) (data_emits es) = map Suc [0..<length (data_emits es)]"
    and all: "\<And>s b. Emit s b \<in> set es \<Longrightarrow> \<exists>now. Packet s b now \<in> set ris"
    and n: "unat n = length (data_emits es)"
  shows "{1..n} \<subseteq> data_seqs ris"
proof
  fix s assume "s \<in> {1..n}"
  then have s: "0 < unat s" "unat s \<le> unat n" by (auto simp: word_le_nat_alt)
  let ?e = "data_emits es ! (unat s - 1)"
  have i: "unat s - 1 < length (data_emits es)" using s n by linarith
  have "map (\<lambda>e. unat (fst e)) (data_emits es) ! (unat s - 1) = unat s" unfolding num using i s(1) by simp
  then have "fst ?e = s" using i by (simp add: word_unat_eq_iff)
  moreover have "?e \<in> set (data_emits es)" using i by simp
  ultimately have mem: "(s, snd ?e) \<in> set (data_emits es)" by (metis prod.collapse)
  with data_emits_body obtain ts p where b: "snd ?e = B_Data ts p" by blast
  with mem all [of s "B_Data ts p"] obtain now where "Packet s (B_Data ts p) now \<in> set ris"
    by (auto simp: data_emits_set)
  then show "s \<in> data_seqs ris" using s(1) by (auto simp: data_seqs_def)
qed

lemma entry_completes:
  assumes A: "aead_correct A" and r: "request_id_wf r"
    and auth: "authentic_to_sink A key ins (us_sent (sd_socket (final (tap_step A) (tap_new N r key cfg peer) tis)))"
    and few: "length (tap_frames (trace (tap_step A) (tap_new N r key cfg peer) tis)) < 2 ^ 32 - 1"
    and all: "\<And>s b. Emit s b \<in> set (trace (tap_step A) (tap_new N r key cfg peer) tis) \<Longrightarrow> arrived_from A key ins s b"
    and ended: "ends (trace (tap_step A) (tap_new N r key cfg peer) tis) \<noteq> []"
    and alive: "\<And>x. Aborted x \<notin> set (reported (trace (entry_step A r) (Entry_new key rcfg t1 t0) ins))"
  shows "\<exists>n. reported (trace (entry_step A r) (Entry_new key rcfg t1 t0) ins) = [Complete n]
    \<and> unat n = length (tap_frames (trace (tap_step A) (tap_new N r key cfg peer) tis))"
proof -
  let ?effs = "trace (entry_step A r) (Entry_new key rcfg t1 t0) ins"
    and ?es = "trace (tap_step A) (tap_new N r key cfg peer) tis"
  obtain ris where fed: "fed A key r rcfg t0 ins ris ?effs (final (entry_step A r) (Entry_new key rcfg t1 t0) ins)"
    and heard: "heard A key ins ris"
    using entry.holds [of A key r rcfg t0 ins t1] unfolding entry_inv_def by blast
  let ?rs = "trace recv_step (XferReceiver_new rcfg t0) ris"
  have few': "length (data_emits ?es) < 2 ^ 32 - 1" using few by (simp add: tap_frames_def)
  have all': "\<exists>now. Packet s b now \<in> set ris" if "Emit s b \<in> set ?es" for s b
    using all [OF that] heard unfolding heard_def by blast
  obtain n where "n \<in> set (ends ?es)" using ended by (cases "ends ?es") auto
  then obtain s where "Emit s (B_End n) \<in> set ?es" using ends_set by blast
  then have dec: "declared ris n" using all' unfolding declared_def by blast
  note count = declared_is_count [OF A r auth few' fed]
  have same: "k = n" if "declared ris k" for k using count [OF that] count [OF dec] by (simp add: word_unat_eq_iff)
  have out: "reported ?effs = outcomes ?rs"
    using fed settled_shape(3) [OF rel.holds [of ris rcfg t0]] by (simp add: fed_def applied_def split: if_splits)
  have "outcomes ?rs = [Complete n]"
    by (rule arrived_completes [OF dec same arrivals_cover [OF tap_numbered(1) [OF few'] all' count [OF dec]]])
      (use alive out in auto)
  then show ?thesis using out count [OF dec] by (auto simp: tap_frames_def)
qed

text \<open>A closed entry has reported its outcome.\<close>

lemma entry_closed_reports:
  assumes A: "aead_correct A" and r: "request_id_wf r"
    and auth: "authentic_to_sink A key ins (us_sent (sd_socket (final (tap_step A) (tap_new N r key cfg peer) tis)))"
    and few: "length (tap_frames (trace (tap_step A) (tap_new N r key cfg peer) tis)) < 2 ^ 32 - 1"
    and closed: "rx_closed (en_state (final (entry_step A r) (Entry_new key rcfg t1 t0) ins))"
    and alive: "\<And>x. Aborted x \<notin> set (reported (trace (entry_step A r) (Entry_new key rcfg t1 t0) ins))"
  shows "\<exists>n. reported (trace (entry_step A r) (Entry_new key rcfg t1 t0) ins) = [Complete n]
    \<and> unat n = length (tap_frames (trace (tap_step A) (tap_new N r key cfg peer) tis))"
proof -
  let ?effs = "trace (entry_step A r) (Entry_new key rcfg t1 t0) ins"
  obtain ris where fed: "fed A key r rcfg t0 ins ris ?effs (final (entry_step A r) (Entry_new key rcfg t1 t0) ins)"
    using entry.holds [of A key r rcfg t0 ins t1] unfolding entry_inv_def by blast
  let ?rs = "trace recv_step (XferReceiver_new rcfg t0) ris"
  have one: "length (outcomes ?rs) = 1"
    by (rule closed_reports_one_outcome) (use fed closed in \<open>simp add: fed_def\<close>)
  then have out: "reported ?effs = outcomes ?rs" using fed by (simp add: fed_def applied_def)
  obtain o' where o': "outcomes ?rs = [o']" using one by (auto simp: length_Suc_conv)
  then obtain n where n: "o' = Complete n" using alive out by (cases o') auto
  have "declared ris n" using settled_shape(4) [OF rel.holds] o' n by (metis list.set_intros(1))
  then have "unat n = length (data_emits (trace (tap_step A) (tap_new N r key cfg peer) tis))"
    using declared_is_count [OF A r auth _ fed] few by (simp add: tap_frames_def)
  then show ?thesis using out o' n by (auto simp: tap_frames_def)
qed

text \<open>A packet of the tap that the endpoint reads is routed to its entry.\<close>

lemma read_packet_addressed:
  assumes "aead_correct A" and "request_id_wf r"
    and "authentic_reads A key post (us_sent (sd_socket (final (tap_step A) (tap_new N r key cfg peer) tis)))"
    and "read_packet A key post s b"
  shows "arrived_from A key (concat (map (addressed r) post)) s b"
proof -
  obtain d src now env h where d: "EpRead d src now env \<in> set post"
    "open_body A key Dir_Send (read_from d) = Inr (h, b)" "hdr_seq h = s"
    using assms(4) unfolding read_packet_def by blast
  then have "read_from d \<in> set (us_sent (sd_socket (final (tap_step A) (tap_new N r key cfg peer) tis)))"
    using assms(3) unfolding authentic_reads_def by force
  with wire_opens [OF assms(1,2)] d(2) have "hdr_request_id h = r" by fastforce
  then have "request_id_of (read_from d) = Inr r" using d(2) open_routes by (fastforce simp: open_body_Inr_iff)
  then have "EDatagram (read_from d) src now env \<in> set (concat (map (addressed r) post))"
    using d(1) by (auto intro!: bexI [of _ "EpRead d src now env"])
  then show ?thesis using d unfolding arrived_from_def by blast
qed

end
