(* ===== verification/Pf4_Recovery.thy ===== *)
theory Pf4_Recovery
  imports Pf4_System Pf4_Nack_Spec Pf4_Endpoint_Tasks
begin

text \<open>
  The round trip of a retransmission, through all the parts of both crates: a tick of the sink finds
  gaps and seals a \<open>Nack\<close>, the tap opens it and resends the recorded datagrams, and the sink, on
  reading them, releases everything up to the highest number it has seen.  And the round trip of the
  occupancy: a sink that stops reporting its play head releases a paused tap.
\<close>

text \<open>
  What the crates rely on of the cipher besides \<open>aead_correct\<close>: it encrypts every message of the size
  of a datagram.
\<close>

definition aead_total :: "aead \<Rightarrow> bool" where
  "aead_total A \<longleftrightarrow> (\<forall>k n a m. length m \<le> 1200 \<longrightarrow> encrypt A k n a m \<noteq> None)"

lemma demo_aead_total: "aead_total demo_aead"
  by (simp add: aead_total_def demo_aead_def)

section \<open>The request\<close>

text \<open>
  The reliable stream of an entry is alive at \<open>now\<close>, it has gaps, all of them fit in one request, are
  due and not beyond recovery, and the tap still holds every one of them.
\<close>

definition gaps_of :: "Entry \<Rightarrow> XferSeq list" where
  "gaps_of e = missing (rx_gaps (en_state e)) MAX_NACK_ENTRIES"

definition recoverable :: "Entry \<Rightarrow> Sender \<Rightarrow> instant \<Rightarrow> bool" where
  "recoverable e sd now \<longleftrightarrow>
     (let rx = en_state e in
      rx_rel_state rx = R_Streaming \<and> \<not> rx_closed rx
      \<and> duration_since now (rx_last_packet_at rx) \<le> idle_timeout (rx_cfg rx)
      \<and> duration_since now (rx_last_rel_progress_at rx) \<le> rel_stall_timeout (rx_cfg rx)
      \<and> gaps_of e \<noteq> [] \<and> length (gaps_of e) < MAX_NACK_ENTRIES
      \<and> (\<forall>s \<in> set (gaps_of e). due (rx_cfg rx) now (rx_nacks rx) s
           \<and> \<not> hopeless (rx_cfg rx) (rx_sender_lost_below rx) (rx_nacks rx) s
           \<and> rr_get (tx_ring (sd_state sd)) s \<noteq> None))"

text \<open>The reliable stream is alive, and a tick at \<open>now\<close> does not end it by a timeout.\<close>

definition stream_live :: "XferReceiver \<Rightarrow> instant \<Rightarrow> bool" where
  "stream_live rx now \<longleftrightarrow>
     rx_rel_state rx = R_Streaming \<and> \<not> rx_closed rx
     \<and> duration_since now (rx_last_packet_at rx) \<le> idle_timeout (rx_cfg rx)
     \<and> duration_since now (rx_last_rel_progress_at rx) \<le> rel_stall_timeout (rx_cfg rx)"

text \<open>The gaps one request has room for, and those of them whose retry is due.\<close>

definition lowest_gaps :: "XferReceiver \<Rightarrow> XferSeq list" where
  "lowest_gaps rx = take MAX_NACK_ENTRIES (all_gaps (rx_gaps rx))"

definition due_gaps :: "XferReceiver \<Rightarrow> instant \<Rightarrow> XferSeq list" where
  "due_gaps rx now = filter (due (rx_cfg rx) now (rx_nacks rx)) (lowest_gaps rx)"

lemma tick_asks:
  assumes "stream_live rx now" and "gt_invar (rx_gaps rx)" and "due_gaps rx now \<noteq> []"
    and "\<not> list_ex (hopeless (rx_cfg rx) (rx_sender_lost_below rx) (rx_nacks rx)) (lowest_gaps rx)"
  shows "\<exists>evs. snd (recv_tick rx now) = SendNack (due_gaps rx now) # evs"
proof -
  have "0 < MAX_NACK_ENTRIES" by (simp add: MAX_NACK_ENTRIES_def)
  then have "snd (emit_nacks rx now) = [SendNack (due_gaps rx now)]"
    using nack_loop_is_spec [OF distinct_missing [OF assms(2)], of "rx_cfg rx" "rx_sender_lost_below rx" now
        MAX_NACK_ENTRIES "rx_nacks rx" "[]"] assms(3,4)
    by (auto simp: emit_nacks_def missing_first_gaps [OF assms(2)] lowest_gaps_def due_gaps_def Let_def split: prod.splits)
  then show ?thesis using assms(1) by (simp add: recv_tick_def stream_live_def Let_def)
qed

lemma reply_sealed:
  assumes "aead_correct A" and "aead_total A" and "request_id_wf rid"
    and p: "encode_body b = Inr p" and dir: "PacketKind_direction (Body_kind b) = Dir_Recv"
  shows "\<exists>n h. snd (reply_with A e rid b) = [Reply n] \<and> open_body A (en_key e) Dir_Recv n = Inr (h, b)"
proof -
  have "length p \<le> 1200" using length_encode_body [OF p] by (simp add: MAX_PAYLOAD_def)
  then have enc: "encrypt A k x a p \<noteq> None" for k x a using assms(2) by (simp add: aead_total_def)
  obtain n where n: "crypto_seal A (en_key e) (Header_new (Body_kind b) rid (en_control_seq e)) Dir_Recv p = Inr n"
    unfolding crypto_seal_Inr_iff using enc by (metis not_Some_eq)
  have "snd (reply_with A e rid b) = [Reply n]"
    using p n by (simp add: reply_with_def Entry_seal_def Let_def)
  then show ?thesis using open_body_sealed [OF assms(1,3) p dir n] by blast
qed

lemma nack_sealed:
  assumes "aead_correct A" and "aead_total A" and "request_id_wf rid" and "length m \<le> MAX_NACK_ENTRIES"
  shows "\<exists>n h. snd (reply_with A e rid (B_Nack m)) = [Reply n] \<and> open_body A (en_key e) Dir_Recv n = Inr (h, B_Nack m)"
proof -
  have "\<exists>p. encode_body (B_Nack m) = Inr p" using assms(4) by (simp del: to_be.simps)
  then obtain p where "encode_body (B_Nack m) = Inr p" by blast
  from reply_sealed [OF assms(1-3) this] show ?thesis by simp
qed

lemma tick_requests:
  assumes "aead_correct A" and "aead_total A" and "request_id_wf rid"
    and "snd (recv_tick (en_state e) now) = SendNack m # evs" and "length m \<le> MAX_NACK_ENTRIES"
  shows "\<exists>n h. n \<in> set (replies (snd (entry_tick A rid e now env))) \<and> open_body A (en_key e) Dir_Recv n = Inr (h, B_Nack m)"
proof -
  note evs = assms(4)
  let ?e = "e\<lparr>en_state := fst (recv_tick (en_state e) now)\<rparr>"
  obtain n h where n: "snd (reply_with A ?e rid (B_Nack m)) = [Reply n]"
    "open_body A (en_key ?e) Dir_Recv n = Inr (h, B_Nack m)"
    using nack_sealed [OF assms(1-3,5), of ?e] by blast
  then have "n \<in> set (replies (snd (entry_tick A rid e now env)))"
    using evs by (simp add: entry_tick_def split_beta Let_def apply_one_def)
  then show ?thesis using n(2) by auto
qed

section \<open>The answer\<close>

lemma resend_sent: "snd (resend_loop sk ds) = Inr u \<Longrightarrow> us_sent (fst (resend_loop sk ds)) = us_sent sk @ ds"
proof (induction ds arbitrary: sk)
  case (Cons d ds)
  then show ?case by (cases rule: socket_send_cases [of sk d]) auto
qed simp

lemma pump_resends:
  assumes "pi_answer inp = Received n" and "open_body A (sd_key sd) Dir_Recv n = Inr (h, B_Nack m)"
    and "snd (pump_once A sd inp) = Inr u" and "s \<in> set m" and "rr_get (tx_ring (sd_state sd)) s = Some d"
  shows "d \<in> set (drop (length (us_sent (sd_socket sd))) (us_sent (sd_socket (fst (pump_once A sd inp)))))"
proof -
  let ?ds = "List.map_filter (rr_get (tx_ring (sd_state sd))) m"
  have d: "d \<in> set ?ds" using assms(4,5) by (auto simp: set_map_filter_iff)
  then have ne: "?ds \<noteq> []" by auto
  obtain sd1 r1 where p: "pump_recv A sd inp = (sd1, r1)" by force
  have r1: "\<exists>u. r1 = Inr u" using assms(3) p by (cases r1) (simp_all add: pump_once_def)
  have "us_sent (sd_socket sd1) = us_sent (sd_socket sd) @ ?ds"
    using p r1 ne assms(1,2) resend_sent [of "sd_socket sd" ?ds]
    by (auto simp: pump_recv_def send_handle_def dispatch_one_def Let_def split: prod.splits sum.splits)
  moreover have "prefix (us_sent (sd_socket sd1)) (us_sent (sd_socket (fst (pump_once A sd inp))))"
    using p r1 dispatch_grows [of "sd1\<lparr>sd_state := fst (send_tick (sd_state sd1) (pi_tick_at inp))\<rparr>" A] 
    by (auto simp: pump_once_def split_beta Let_def)
  ultimately show ?thesis using d by (auto simp: prefix_def)
qed

text \<open>What the ring holds under a number is the sealing of the payload frame of that number.\<close>

lemma held_opens:
  assumes "aead_correct A" and "request_id_wf r"
    and "rr_get (tx_ring (sd_state (final (tap_step A) (tap_new N r key cfg peer) tis))) s = Some d"
  shows "\<exists>h ts p. open_body A key Dir_Send d = Inr (h, B_Data ts p) \<and> hdr_seq h = s"
proof -
  let ?sd = "final (tap_step A) (tap_new N r key cfg peer) tis" and ?es = "trace (tap_step A) (tap_new N r key cfg peer) tis"
  obtain "is" where dr: "drives A cfg key r tis is ?es ?sd" using tap_run_drives by blast
  then have st: "sd_state ?sd = final send_step (XferSender_new cfg) is"
    and rec: "\<And>s d. RecordSealed s d \<in> set is \<Longrightarrow> sealed_emit A key r (numbered s ?es) d"
    unfolding drives_def by blast+
  have "RecordSealed s d \<in> set is"
    using ring_answers_or_admits_loss [of "retrans_ring_frames cfg" "retrans_ring_bytes cfg" "List.map_filter ring_op is" s]
      assms(3) unfolding st tx_ring_history ring_op_Push by blast
  from rec [OF this] obtain b p where b: "(s, b) \<in> set (data_emits ?es)" "encode_body b = Inr p"
    "crypto_seal A key (Header_new (Body_kind b) r s) Dir_Send p = Inr d"
    by (auto simp: sealed_emit_def numbered_def)
  obtain ts q where q: "b = B_Data ts q" using data_emits_body [OF b(1)] by blast
  then have "open_body A key Dir_Send d = Inr (Header_new (Body_kind b) r s, b)"
    using open_body_sealed [OF assms(1,2) b(2) _ b(3)] by simp
  then show ?thesis using q by auto
qed

section \<open>The release\<close>

text \<open>Below an arrival everything has arrived or is a gap that the request lists.\<close>

lemma below_arrival:
  assumes "gt_invar (rx_gaps (en_state e))" and "length (gaps_of e) < MAX_NACK_ENTRIES"
    and "a \<in> arrived (rx_gaps (en_state e))" and "0 < s" and "s \<le> a"
  shows "s \<in> arrived (rx_gaps (en_state e)) \<or> s \<in> set (gaps_of e)"
proof -
  let ?g = "rx_gaps (en_state e)"
  have "length (gaps_between (gt_contiguous ?g + 1) (gt_ahead ?g)) \<le> MAX_NACK_ENTRIES"
    using assms(2) by (simp add: gaps_of_def missing_gaps)
  then have all: "set (gaps_of e) = {s. gt_contiguous ?g < s \<and> s \<notin> arrived ?g \<and> (\<exists>a \<in> arrived ?g. s < a)}"
    using set_missing_all [OF assms(1)] by (simp add: gaps_of_def missing_gaps)
  show ?thesis
  proof (cases "s \<in> arrived ?g")
    case False
    then have "\<not> s \<le> gt_contiguous ?g" using prefix_arrived [of s ?g] assms(4) by auto
    moreover have "s < a" using False assms(3,5) by (auto simp: order_le_less)
    ultimately show ?thesis using False assms(3) unfolding all by auto
  qed simp
qed

lemma arrived_heard:
  assumes "e = final (entry_step A r) (Entry_new key rcfg t1 t0) js" and "rx_rel_state (en_state e) = R_Streaming"
    and "a \<in> arrived (rx_gaps (en_state e))"
  shows "\<exists>ts p. arrived_from A key js a (B_Data ts p)"
proof -
  obtain ris where fed: "fed A key r rcfg t0 js ris (trace (entry_step A r) (Entry_new key rcfg t1 t0) js) e"
    using entry.holds [of A key r rcfg t0 js t1] assms(1) unfolding entry_inv_def by blast
  then have "arrived (rx_gaps (en_state e)) = data_seqs ris"
    using arrivals.holds [of rcfg t0 ris] assms(2) by (simp add: fed_def)
  then obtain ts p now where "Packet a (B_Data ts p) now \<in> set ris" using assms(3) by (auto simp: data_seqs_def)
  then show ?thesis using fed unfolding fed_def by blast
qed

lemma entry_gt_invar:
  "gt_invar (rx_gaps (en_state (final (entry_step A r) (Entry_new key rcfg t1 t0) js)))"
proof -
  obtain ris where "en_state (final (entry_step A r) (Entry_new key rcfg t1 t0) js) = final recv_step (XferReceiver_new rcfg t0) ris"
    using entry.holds [of A key r rcfg t0 js t1] unfolding entry_inv_def fed_def by blast
  then show ?thesis using play.holds [of rcfg t0 ris] by (simp add: play_inv_def)
qed

text \<open>An entry that has heard all numbers up to \<open>a\<close>, one that was sent, has released that many frames.\<close>

lemma entry_releases:
  assumes A: "aead_correct A" and r: "request_id_wf r"
    and auth: "authentic_to_sink A key ins (us_sent (sd_socket (final (tap_step A) (tap_new N r key cfg peer) tis)))"
    and few: "length (tap_frames (trace (tap_step A) (tap_new N r key cfg peer) tis)) < 2 ^ 32 - 1"
    and all: "\<And>s. 0 < s \<Longrightarrow> s \<le> a \<Longrightarrow> \<exists>ts p. arrived_from A key ins s (B_Data ts p)"
    and alive: "\<And>x. Aborted x \<notin> set (reported (trace (entry_step A r) (Entry_new key rcfg t1 t0) ins))"
  shows "unat a \<le> length (offered_rel (trace (entry_step A r) (Entry_new key rcfg t1 t0) ins))"
proof -
  let ?effs = "trace (entry_step A r) (Entry_new key rcfg t1 t0) ins"
    and ?es = "trace (tap_step A) (tap_new N r key cfg peer) tis"
  obtain ris where fed: "fed A key r rcfg t0 ins ris ?effs (final (entry_step A r) (Entry_new key rcfg t1 t0) ins)"
    and heard: "heard A key ins ris"
    using entry.holds [of A key r rcfg t0 ins t1] unfolding entry_inv_def by blast
  let ?rs = "trace recv_step (XferReceiver_new rcfg t0) ris" and ?rx = "final recv_step (XferReceiver_new rcfg t0) ris"
  have off: "offered_rel ?effs = reliable_frames ?rs" and out: "reported ?effs = take 1 (outcomes ?rs)"
    using fed by (simp_all add: fed_def applied_def)
  have few': "length (data_emits ?es) < 2 ^ 32 - 1" using few by (simp add: tap_frames_def)
  show ?thesis
  proof (cases "rx_rel_state ?rx")
    case R_Streaming
    have "{1..a} \<subseteq> data_seqs ris"
    proof
      fix s assume "s \<in> {1..a}"
      then have s: "0 < s" "s \<le> a" by (auto simp: word_le_nat_alt unat_gt_0 Suc_le_eq word_gt_0)
      with all heard obtain ts p now where "Packet s (B_Data ts p) now \<in> set ris" unfolding heard_def by meson
      then show "s \<in> data_seqs ris" using s(1) by (auto simp: data_seqs_def)
    qed
    then show ?thesis using released_iff_arrived [OF R_Streaming, of a] off by simp
  next
    case R_Finished
    then obtain o' where o': "outcomes ?rs = [o']"
      using settled_shape(3) [OF rel.holds [of ris rcfg t0]] by (auto simp: length_Suc_conv)
    then obtain n where n: "o' = Complete n" using alive out by (cases o') auto
    then have "n \<le> rx_rel_released ?rx" "declared ris n"
      using settled_shape(4) [OF rel.holds [of ris rcfg t0], of n] o' by auto
    then have "length (data_emits ?es) \<le> length (reliable_frames ?rs)"
      using declared_is_count [OF A r auth few' fed] length_in_order [OF settled_shape(2) [OF rel.holds [of ris rcfg t0]]]
      by (simp add: word_le_nat_alt)
    moreover have "unat a \<le> length (data_emits ?es)"
    proof (cases "a = 0")
      case False
      then obtain ts p where "arrived_from A key ins a (B_Data ts p)" using all [of a] by (auto simp: word_gt_0)
      from arrived_was_emitted [OF A r auth this] have "(a, B_Data ts p) \<in> set (data_emits ?es)"
        by (simp add: data_emits_set)
      from numbered_nth(2) [OF tap_numbered(1) [OF few'] this] show ?thesis .
    qed simp
    ultimately show ?thesis using off by simp
  qed
qed

section \<open>Properties\<close>

text \<open>
  C26: gaps are asked for.  A tick looks at the lowest 128 gaps, as many as one \<open>Nack\<close> has room for.  When
  the reliable stream is alive and not timed out, none of these gaps is beyond recovery (discarded by
  the sender, or asked for as often as allowed) and at least one of them is due, the sink seals a
  request that opens at the tap and lists exactly those of them that are due.
\<close>

theorem due_gaps_are_requested:
  assumes "aead_correct A" and "aead_total A" and "request_id_wf r"
    and "e = final (entry_step A r) (Entry_new key rcfg t1 t0) js" and "rx = en_state e" and "stream_live rx now"
    and "\<not> list_ex (hopeless (rx_cfg rx) (rx_sender_lost_below rx) (rx_nacks rx)) (lowest_gaps rx)"
    and "due_gaps rx now \<noteq> []"
  shows "\<exists>n h. n \<in> set (replies (snd (entry_step A r e (ETick now env))))
    \<and> open_body A key Dir_Recv n = Inr (h, B_Nack (due_gaps rx now))"
proof -
  have "en_key e = key"
    using entry.holds [of A key r rcfg t0 js t1] assms(4) by (auto simp: entry_inv_def fed_def applied_def)
  moreover have "gt_invar (rx_gaps rx)" unfolding assms(4,5) by (rule entry_gt_invar)
  from tick_asks [OF assms(6) this assms(8,7)]
  obtain evs where "snd (recv_tick (en_state e) now) = SendNack (due_gaps rx now) # evs" using assms(5) by blast
  moreover have "length (due_gaps rx now) \<le> MAX_NACK_ENTRIES"
    unfolding due_gaps_def lowest_gaps_def by (rule order_trans [OF length_filter_le]) simp
  ultimately show ?thesis using tick_requests [OF assms(1-3)] by auto
qed

text \<open>
  C12: one round trip repairs the reliable stream.  The sink's stream is alive with gaps, the tap
  still holds the missing frames and receives a request \<open>n\<close> for them; when everything the
  tap sends in answer has been read by the sink, among any other traffic and in any order, every
  frame that had arrived before (at \<open>a\<close> or below) has been released to the application, unless the
  stream was given up in between.
\<close>

theorem nack_round_trip_repairs:
  assumes "aead_correct A" and "request_id_wf r"
    and "sd = final (tap_step A) (tap_new N r key cfg peer) tis"
    and "e = final (entry_step A r) (Entry_new key rcfg t1 t0) js" and "recoverable e sd now"
    and "open_body A key Dir_Recv n = Inr (h, B_Nack (gaps_of e))"
    and "pi_answer inp = Received n" and "pump_once A sd inp = (sd', Inr ())"
    and "\<And>d. d \<in> set (drop (length (us_sent (sd_socket sd))) (us_sent (sd_socket sd'))) \<Longrightarrow>
      \<exists>src t env. EDatagram d src t env \<in> set js'"
    and "authentic_to_sink A key (js @ js') (us_sent (sd_socket sd'))"
    and "length (tap_frames (trace (tap_step A) (tap_new N r key cfg peer) (tis @ [TapPump inp]))) < 2 ^ 32 - 1"
    and "\<And>x. Aborted x \<notin> set (reported (trace (entry_step A r) (Entry_new key rcfg t1 t0) (js @ js')))"
    and "a \<in> arrived (rx_gaps (en_state e))"
  shows "unat a \<le> length (offered_rel (trace (entry_step A r) (Entry_new key rcfg t1 t0) (js @ js')))"
proof -
  have gt: "gt_invar (rx_gaps (en_state e))" unfolding assms(4) by (rule entry_gt_invar)
  have str: "rx_rel_state (en_state e) = R_Streaming" and few: "length (gaps_of e) < MAX_NACK_ENTRIES"
    and held: "\<And>s. s \<in> set (gaps_of e) \<Longrightarrow> rr_get (tx_ring (sd_state sd)) s \<noteq> None"
    using assms(5) by (auto simp: recoverable_def Let_def)
  have skey: "sd_key sd = key" using tap_run_drives [of A cfg key r tis N peer] assms(3) by (auto simp: drives_def)
  have sd': "sd' = final (tap_step A) (tap_new N r key cfg peer) (tis @ [TapPump inp])"
    using assms(3,8) by (simp add: final_snoc)
  have "\<exists>ts p. arrived_from A key (js @ js') s (B_Data ts p)" if "0 < s" "s \<le> a" for s
    using below_arrival [OF gt few assms(13) that]
  proof
    assume "s \<in> arrived (rx_gaps (en_state e))"
    then show ?thesis using arrived_heard [OF assms(4) str] arrived_from_mono by blast
  next
    assume s: "s \<in> set (gaps_of e)"
    then obtain d where d: "rr_get (tx_ring (sd_state sd)) s = Some d" using held by blast
    have "d \<in> set (drop (length (us_sent (sd_socket sd))) (us_sent (sd_socket sd')))"
      using pump_resends [OF assms(7) _ _ s d, of A h "()"] assms(6,8) skey by simp
    from assms(9) [OF this] obtain src t env where "EDatagram d src t env \<in> set (js @ js')" by auto
    moreover obtain h' ts p where "open_body A key Dir_Send d = Inr (h', B_Data ts p)" "hdr_seq h' = s"
      using held_opens [OF assms(1,2)] d assms(3) by blast
    ultimately have "arrived_from A key (js @ js') s (B_Data ts p)" unfolding arrived_from_def by blast
    then show ?thesis by blast
  qed
  from entry_releases [OF assms(1,2) assms(10) [unfolded sd'] assms(11) this] assms(12) show ?thesis by blast
qed

section \<open>Occupancy\<close>

text \<open>
  The endpoint never sets the occupancy of a state machine, so it stays at its initial zero.
\<close>

lemma release_loop_buffered: "rx_buffered_ms (fst (release_loop c rx)) = rx_buffered_ms rx"
proof (induction c rx rule: release_loop.induct)
  case (1 c rx)
  then show ?case by (subst release_loop.simps) (auto simp: Let_def split: option.splits)
qed

lemma release_contiguous_buffered: "rx_buffered_ms (fst (release_contiguous rx now)) = rx_buffered_ms rx"
  using release_loop_buffered [of "gt_contiguous (rx_gaps rx)" rx]
  by (simp add: release_contiguous_def Let_def split_beta)

lemma check_finish_buffered: "rx_buffered_ms (fst (check_finish rx now)) = rx_buffered_ms rx"
  by (simp add: check_finish_def ack_end_def finish_rel_def release_contiguous_buffered split: option.splits)

lemma handle_buffered: "rx_buffered_ms (fst (recv_handle rx s b now)) = rx_buffered_ms rx"
  by (cases b)
    (simp_all add: recv_handle_def on_body_def on_data_def maybe_ack_def finish_rel_def check_finish_buffered
      release_contiguous_buffered Let_def split_beta)

lemma tick_buffered: "rx_buffered_ms (fst (recv_tick rx now)) = rx_buffered_ms rx"
  by (simp add: recv_tick_def maybe_ack_def finish_rel_def emit_nacks_def Let_def split_beta)

interpretation occupancy: state_invariant "entry_step A r" "Entry_new key cfg t1 t0"
  "\<lambda>e. en_key e = key \<and> rx_buffered_ms (en_state e) = 0" for A r key cfg t1 t0
proof
  show "en_key (Entry_new key cfg t1 t0) = key \<and> rx_buffered_ms (en_state (Entry_new key cfg t1 t0)) = 0"
    by (simp add: Entry_new_def XferReceiver_new_def)
  show "en_key (fst (entry_step A r e i)) = key \<and> rx_buffered_ms (en_state (fst (entry_step A r e i))) = 0"
    if "en_key e = key \<and> rx_buffered_ms (en_state e) = 0" for e i
    using that entry_step_key [of A r e i]
    by (cases i)
      (auto simp: entry_datagram_eq entry_tick_def handle_buffered tick_buffered Let_def split_beta
        split: sum.splits option.splits)
qed

text \<open>The body of a reply, given the event it answers and the answers of the environment.\<close>

definition reply_body :: "BufferFeedback \<Rightarrow> u64 \<Rightarrow> instant \<Rightarrow> RecvEvent \<Rightarrow> Body option" where
  "reply_body fb newest now ev =
     (case ev of
        SendNack m \<Rightarrow> Some (B_Nack m)
      | SendAck c h ms \<Rightarrow> Some (B_Ack c h (ack_buffered_ms fb ms newest now))
      | SendEndAck \<Rightarrow> Some B_EndAck
      | _ \<Rightarrow> None)"

lemma apply_events_reply:
  assumes "d \<in> set (replies (snd (apply_events A rid env e evs)))"
  shows "\<exists>ev \<in> set evs. \<exists>k e' newest b. en_key e' = en_key e
    \<and> reply_body (en_feedback e) newest (fst (env k)) ev = Some b \<and> snd (reply_with A e' rid b) = [Reply d]"
  using assms
proof (induction evs arbitrary: env e)
  case (Cons ev evs)
  let ?e = "fst (apply_one A rid (env 0) e ev)"
  consider "d \<in> set (replies (snd (apply_one A rid (env 0) e ev)))" | "d \<in> set (replies (snd (apply_events A rid (env \<circ> Suc) ?e evs)))"
    using Cons.prems by auto
  then show ?case
  proof cases
    case 1
    have one: "snd (reply_with A e rid b) = [Reply d]" if "d \<in> set (replies (snd (reply_with A e rid b)))" for b
      using that by (auto simp: reply_with_def Let_def split_beta split: option.splits)
    from 1 have "\<exists>b. reply_body (en_feedback e) (en_newest_data_ms e) (fst (env 0)) ev = Some b
        \<and> snd (reply_with A e rid b) = [Reply d]"
      using one by (cases ev) (auto simp: apply_one_def reply_body_def Let_def split_beta split: if_splits)
    then have "\<exists>k e' newest b. en_key e' = en_key e \<and> reply_body (en_feedback e) newest (fst (env k)) ev = Some b
        \<and> snd (reply_with A e' rid b) = [Reply d]" by blast
    then show ?thesis by simp
  next
    case 2
    from Cons.IH [OF this] obtain ev' k e' newest b where "ev' \<in> set evs" "en_key e' = en_key ?e"
      "reply_body (en_feedback ?e) newest (fst ((env \<circ> Suc) k)) ev' = Some b" "snd (reply_with A e' rid b) = [Reply d]"
      by blast
    then show ?thesis
      by (intro bexI [of _ ev'] exI [of _ "Suc k"] exI [of _ e'] exI [of _ newest] exI [of _ b])
        (simp_all add: apply_one_key apply_one_feedback)
  qed
qed simp

lemma reply_opens:
  assumes "aead_correct A" and "request_id_wf rid" and "snd (reply_with A e rid b) = [Reply d]"
    and "open_body A (en_key e) Dir_Recv d = Inr (h, b')"
  shows "b' = b"
proof -
  obtain p where p: "encode_body b = Inr p"
    "crypto_seal A (en_key e) (Header_new (Body_kind b) rid (en_control_seq e)) Dir_Recv p = Inr d"
    using assms(3) by (auto simp: reply_with_def Entry_seal_def Let_def split: sum.splits)
  have "crypto_open A (en_key e) d Dir_Recv = Inr (h, q) \<Longrightarrow> PacketKind_direction (Body_kind b) = Dir_Recv" for q
    using p(2) by (auto simp: crypto_open_def crypto_seal_Inr_iff rbind_Inr_iff Header_parse_to_bytes assms(2) split: if_splits)
  then have "PacketKind_direction (Body_kind b) = Dir_Recv" using assms(4) by (auto simp: open_body_Inr_iff)
  from open_body_sealed [OF assms(1,2) p(1) this p(2)] assms(4) show ?thesis by simp
qed

text \<open>An acknowledgement sealed by a tick when the last report is out of date says that nothing is buffered.\<close>

lemma stale_ack:
  assumes "aead_correct A" and "request_id_wf r" and "e = final (entry_step A r) (Entry_new key rcfg t1 t0) js"
    and "d \<in> set (replies (snd (entry_step A r e (ETick now env))))"
    and "\<And>k. fresh_playhead_ms (en_feedback e) (fst (env k)) BUFFER_REPORT_TTL = None"
    and "open_body A key Dir_Recv d = Inr (h, B_Ack c hi ms)"
  shows "ms = 0"
proof -
  have inv: "en_key e = key" "rx_buffered_ms (en_state e) = 0"
    using occupancy.holds [of A r key rcfg t1 t0 js] assms(3) by simp_all
  let ?e = "e\<lparr>en_state := fst (recv_tick (en_state e) now)\<rparr>" and ?evs = "snd (recv_tick (en_state e) now)"
  have "d \<in> set (replies (snd (apply_events A r env ?e ?evs)))"
    using assms(4) by (simp add: entry_tick_def split_beta Let_def)
  from apply_events_reply [OF this] obtain ev k e' newest b where b: "ev \<in> set ?evs" "en_key e' = key"
    "reply_body (en_feedback e) newest (fst (env k)) ev = Some b" "snd (reply_with A e' r b) = [Reply d]"
    using inv by auto
  have "b = B_Ack c hi ms" using reply_opens [OF assms(1,2) b(4)] assms(6) b(2) by auto
  then obtain ms0 where ev: "ev = SendAck c hi ms0" "ms = ack_buffered_ms (en_feedback e) ms0 newest (fst (env k))"
    using b(3) by (auto simp: reply_body_def split: RecvEvent.splits)
  have "ms0 = 0"
    using b(1) ev(1) inv(2)
    by (auto simp: recv_tick_def finish_rel_def emit_nacks_def maybe_ack_def Let_def split_beta split: if_splits)
  then show ?thesis using ev(2) assms(5) by (simp add: ack_buffered_ms_def)
qed

lemma dispatch_paused: "tx_paused (sd_state (fst (dispatch A sd evs))) = tx_paused (sd_state sd)"
proof (induction evs arbitrary: sd)
  case (Cons ev evs)
  have "tx_paused (sd_state (fst (dispatch_one A sd ev))) = tx_paused (sd_state sd)"
    by (auto simp: dispatch_one_def record_sealed_def Let_def split_beta
        split: SendEvent.splits SendFailure.splits sum.splits prod.splits)
  then show ?case using Cons by (cases "dispatch_one A sd ev"; cases "snd (dispatch_one A sd ev)") auto
qed simp

lemma tick_paused: "tx_paused (fst (send_tick tx now)) = tx_paused tx"
  by (simp add: send_tick_cases emit_keepalive_eq)

text \<open>
  C28: a sink that stops reporting cannot hold the tap back: once its last play head report is more
  than two seconds old, the acknowledgement of a tick reports nothing buffered, and a tap that
  receives it is not paused any more, whatever it was told before.
\<close>

theorem stale_report_releases_tap:
  assumes "aead_correct A" and "request_id_wf r" and "e = final (entry_step A r) (Entry_new key rcfg t1 t0) js"
    and "d \<in> set (replies (snd (entry_step A r e (ETick now env))))"
    and "\<And>k. from_secs 2 < duration_since (fst (env k))
      (bf_epoch (en_feedback e) + int (from_millis (unat (bf_written_at_ms (en_feedback e)))))"
    and "open_body A key Dir_Recv d = Inr (h, B_Ack c hi ms)"
    and "sd_key sd = key" and "0 < buffer_high_water_ms (tx_cfg (sd_state sd))" and "pi_answer inp = Received d"
  shows "\<not> tx_paused (sd_state (fst (pump_once A sd inp)))"
proof -
  have stale: "fresh_playhead_ms (en_feedback e) (fst (env k)) BUFFER_REPORT_TTL = None" for k
    using assms(5) [of k] by (simp add: fresh_playhead_ms_def BUFFER_REPORT_TTL_def Let_def)
  have ms: "ms = 0" by (rule stale_ack [OF assms(1-4) stale assms(6)])
  obtain sd1 res where p: "pump_recv A sd inp = (sd1, res)" by force
  have "\<not> tx_paused (sd_state (fst (pump_recv A sd inp)))"
    using assms(6-9) ms
    by (auto simp: pump_recv_def split_beta Let_def dispatch_paused paused_after_ack word_gt_0)
  then show ?thesis using p by (cases res) (simp_all add: pump_once_def dispatch_paused tick_paused split_beta Let_def)
qed

section \<open>An instance\<close>

text \<open>A tap that has sent three frames and a sink that did not get the second.\<close>

definition demo_nack :: bytes where
  "demo_nack = demo_sealed Dir_Recv 0 (B_Nack [2]) (to_be 2 (1 :: u16) @ to_be 4 (2 :: u32))"

definition gap_tap :: Sender where
  "gap_tap = final (tap_step demo_aead) demo_tap [TapPush 0 [1] 0, TapPush 0 [2] 0, TapPush 0 [3] 0]"

definition gap_read :: "bytes \<Rightarrow> EntryInput" where
  "gap_read d = EDatagram d (V4 [10, 0, 0, 1] 7) 5 (\<lambda>_. (5, True))"

definition gap_sink :: Entry where
  "gap_sink = final (entry_step demo_aead demo_id) (Entry_new demo_key audio_engine 0 0)
     [gap_read (demo_frame 1 1), gap_read (demo_frame 3 3)]"

lemma demo_nack_opens:
  "open_body demo_aead demo_key Dir_Recv demo_nack = Inr (Header_new PK_Nack demo_id 0, B_Nack [2])"
  using demo_opens [of "B_Nack [2]" "to_be 2 (1 :: u16) @ to_be 4 (2 :: u32)" Dir_Recv 0]
  by (simp add: demo_nack_def MAX_NACK_ENTRIES_def del: to_be.simps)

lemma demo_frame_seal:
  "seal_body demo_aead sd s (B_Data 0 [x]) = Inr (demo_frame s x)"
  if "sd_key sd = demo_key" "sd_request_id sd = demo_id"
  using that demo_seal [of "B_Data 0 [x]" s Dir_Send]
  by (simp add: seal_body_def demo_frame_def MAX_PAYLOAD_def del: to_be.simps)

lemma gap_tap_sent:
  "us_sent (sd_socket gap_tap) = [demo_frame 1 1, demo_frame 2 2, demo_frame 3 3]"
  "rr_entries (tx_ring (sd_state gap_tap)) = [(1, demo_frame 1 1), (2, demo_frame 2 2), (3, demo_frame 3 3)]"
  by (simp_all add: gap_tap_def tap_new_def UdpSocket_new_def quiet_net_def tx_eval push_frame_def
      dispatch_one_def demo_frame_seal socket_send_def record_sealed_def rr_push_def demo_frame_length
      evict_to_budget.simps Let_def)

lemma gap_sink_fields:
  "rx_rel_state (en_state gap_sink) = R_Streaming" "\<not> rx_closed (en_state gap_sink)"
  "rx_last_packet_at (en_state gap_sink) = 5" "rx_last_rel_progress_at (en_state gap_sink) = 5"
  "rx_cfg (en_state gap_sink) = audio_engine" "rx_nacks (en_state gap_sink) = []"
  "rx_sender_lost_below (en_state gap_sink) = 0" "gt_contiguous (rx_gaps (en_state gap_sink)) = 1"
  "gt_ahead (rx_gaps (en_state gap_sink)) = [3]"
  by (simp_all add: gap_sink_def gap_read_def entry_datagram_eq demo_frame_opens Entry_new_def rx_eval
      apply_one_def Let_def)
    (simp add: word_le_nat_alt)

lemma gap_sink_gaps: "gaps_of gap_sink = [2]"
  by (simp add: gaps_of_def missing_def gap_sink_fields missing_fill.simps MAX_NACK_ENTRIES_def)

lemma gap_recoverable: "recoverable gap_sink gap_tap 50000000"
  by (simp add: recoverable_def gap_sink_gaps gap_sink_fields gap_tap_sent rr_get_def due_def hopeless_def attempts_def word_le_nat_alt
      audio_engine_def nack_delay_def duration_since_def from_millis_def from_secs_def MAX_NACK_ENTRIES_def Let_def)

theorem due_gaps_are_requested_witness:
  "\<exists>n h. n \<in> set (replies (snd (entry_step demo_aead demo_id gap_sink (ETick 50000000 (\<lambda>_. (50000000, True))))))
     \<and> open_body demo_aead demo_key Dir_Recv n = Inr (h, B_Nack [2])"
proof -
  let ?rx = "en_state gap_sink"
  have "gt_invar (rx_gaps ?rx)" unfolding gap_sink_def by (rule entry_gt_invar)
  then have gaps: "lowest_gaps ?rx = [2]"
    using gap_sink_gaps by (simp add: lowest_gaps_def gaps_of_def missing_first_gaps)
  have due: "due_gaps ?rx 50000000 = [2]"
    using gap_recoverable by (simp add: due_gaps_def gaps gap_sink_gaps recoverable_def Let_def)
  have "stream_live ?rx 50000000" "\<not> list_ex (hopeless (rx_cfg ?rx) (rx_sender_lost_below ?rx) (rx_nacks ?rx)) (lowest_gaps ?rx)"
    using gap_recoverable by (simp_all add: stream_live_def recoverable_def gaps gap_sink_gaps Let_def)
  from due_gaps_are_requested [OF demo_aead_correct demo_aead_total demo_id_wf gap_sink_def refl this] due
  show ?thesis by auto
qed

lemma gap_pump:
  "pump_once demo_aead gap_tap \<lparr>pi_answer = Received demo_nack, pi_handle_at = 6, pi_tick_at = 6\<rparr>
     = (gap_tap\<lparr>sd_socket := (sd_socket gap_tap)\<lparr>us_calls := 4, us_sent := us_sent (sd_socket gap_tap) @ [demo_frame 2 2]\<rparr>,
          sd_state := (sd_state gap_tap)\<lparr>tx_got_ack := True\<rparr>\<rparr>, Inr ())"
  by (simp add: pump_once_def pump_recv_def gap_tap_def tap_new_def UdpSocket_new_def quiet_net_def tx_eval push_frame_def
      dispatch_one_def demo_frame_seal socket_send_def record_sealed_def rr_push_def demo_frame_length
      evict_to_budget.simps demo_nack_opens send_handle_def send_tick_cases rr_get_def List.map_filter_simps
      first_ack_expired_def Let_def)

theorem nack_round_trip_repairs_witness:
  "unat (3 :: u32) \<le> length (offered_rel (trace (entry_step demo_aead demo_id) (Entry_new demo_key audio_engine 0 0)
     ([gap_read (demo_frame 1 1), gap_read (demo_frame 3 3)] @ [gap_read (demo_frame 2 2)])))"
proof (rule nack_round_trip_repairs [OF demo_aead_correct demo_id_wf gap_tap_def gap_sink_def gap_recoverable
      demo_nack_opens [folded gap_sink_gaps] _ gap_pump])
  show "\<exists>src t env. EDatagram d src t env \<in> set [gap_read (demo_frame 2 2)]"
    if "d \<in> set (drop (length (us_sent (sd_socket gap_tap))) (us_sent (sd_socket (gap_tap\<lparr>sd_socket := (sd_socket gap_tap)
        \<lparr>us_calls := 4, us_sent := us_sent (sd_socket gap_tap) @ [demo_frame 2 2]\<rparr>,
          sd_state := (sd_state gap_tap)\<lparr>tx_got_ack := True\<rparr>\<rparr>))))" for d
    using that by (simp add: gap_read_def)
  show "3 \<in> arrived (rx_gaps (en_state gap_sink))" by (simp add: arrived_def gap_sink_fields)
  show "authentic_to_sink demo_aead demo_key ([gap_read (demo_frame 1 1), gap_read (demo_frame 3 3)] @ [gap_read (demo_frame 2 2)])
     (us_sent (sd_socket (gap_tap\<lparr>sd_socket := (sd_socket gap_tap)
        \<lparr>us_calls := 4, us_sent := us_sent (sd_socket gap_tap) @ [demo_frame 2 2]\<rparr>,
          sd_state := (sd_state gap_tap)\<lparr>tx_got_ack := True\<rparr>\<rparr>)))"
    by (auto simp: authentic_to_sink_def gap_read_def gap_tap_sent)
  show "Aborted x \<notin> set (reported (trace (entry_step demo_aead demo_id) (Entry_new demo_key audio_engine 0 0)
     ([gap_read (demo_frame 1 1), gap_read (demo_frame 3 3)] @ [gap_read (demo_frame 2 2)])))" for x
    by (simp add: gap_read_def entry_datagram_eq demo_frame_opens Entry_new_def rx_eval apply_one_def Let_def)
  show "length (tap_frames (trace (tap_step demo_aead) demo_tap ([TapPush 0 [1] 0, TapPush 0 [2] 0, TapPush 0 [3] 0]
      @ [TapPump \<lparr>pi_answer = Received demo_nack, pi_handle_at = 6, pi_tick_at = 6\<rparr>]))) < 2 ^ 32 - 1"
    by (simp add: tap_frames_def trace_append pump_no_data tap_new_def UdpSocket_new_def quiet_net_def tx_eval
        push_frame_def dispatch_one_def demo_frame_seal socket_send_def record_sealed_def rr_push_def demo_frame_length
        evict_to_budget.simps Let_def del: append_Cons append_Nil)
qed simp

text \<open>A sink that has never reported, three seconds after it was armed.\<close>

definition demo_ack :: bytes where
  "demo_ack = demo_sealed Dir_Recv 0 (B_Ack 1 1 0) (to_be 4 (1 :: u32) @ to_be 4 (1 :: u32) @ to_be 2 (0 :: u16))"

definition quiet_sink :: Entry where
  "quiet_sink = final (entry_step demo_aead demo_id) (Entry_new demo_key audio_engine 0 0) [gap_read (demo_frame 1 1)]"

definition paused_tap :: Sender where
  "paused_tap = demo_tap\<lparr>sd_state := (XferSender_new SenderConfig_default)\<lparr>tx_paused := True\<rparr>\<rparr>"

lemma demo_ack_opens:
  "open_body demo_aead demo_key Dir_Recv demo_ack = Inr (Header_new PK_Ack demo_id 0, B_Ack 1 1 0)"
  using demo_opens [of "B_Ack 1 1 0" "to_be 4 (1 :: u32) @ to_be 4 (1 :: u32) @ to_be 2 (0 :: u16)" Dir_Recv 0]
  by (simp add: demo_ack_def del: to_be.simps)

lemma quiet_sink_acks:
  "demo_ack \<in> set (replies (snd (entry_step demo_aead demo_id quiet_sink (ETick 3000000000 (\<lambda>_. (3000000000, True))))))"
  using demo_seal [of "B_Ack 1 1 0" 0 Dir_Recv]
  by (simp add: quiet_sink_def gap_read_def entry_datagram_eq demo_frame_opens Entry_new_def rx_eval apply_one_def Let_def
      entry_tick_def recv_tick_def emit_nacks_def missing_def reply_with_def Entry_seal_def ControlSeq_FIRST_def demo_ack_def
      ack_buffered_ms_def fresh_playhead_ms_def BUFFER_REPORT_TTL_def BufferFeedback_default_def del: to_be.simps)

theorem stale_report_releases_tap_witness:
  "tx_paused (sd_state paused_tap)
   \<and> \<not> tx_paused (sd_state (fst (pump_once demo_aead paused_tap \<lparr>pi_answer = Received demo_ack, pi_handle_at = 0, pi_tick_at = 0\<rparr>)))"
proof
  show "tx_paused (sd_state paused_tap)" by (simp add: paused_tap_def)
  show "\<not> tx_paused (sd_state (fst (pump_once demo_aead paused_tap \<lparr>pi_answer = Received demo_ack, pi_handle_at = 0, pi_tick_at = 0\<rparr>)))"
    by (rule stale_report_releases_tap [OF demo_aead_correct demo_id_wf quiet_sink_def quiet_sink_acks _ demo_ack_opens])
      (simp_all add: quiet_sink_def gap_read_def entry_datagram_eq demo_frame_opens Entry_new_def rx_eval apply_one_def Let_def
        BufferFeedback_default_def paused_tap_def tap_new_def SenderConfig_default_def)
qed

end
