(* ===== verification/Pf4_Send_Spec.thy ===== *)
theory Pf4_Send_Spec
  imports Pf4_Sender
begin

text \<open>
  The sending half of a transfer, specified without clocks, timers, byte counters or words: how many
  frames have been numbered, how many acknowledged, whether the sink holds the sender back, and the
  stock of datagrams kept for retransmission with the number up to which frames are beyond recall.
  Everything is determined but the time: a tick may do nothing, remind the sink, or give up for a
  reason that holds.  The sending state machine is shown to refine this specification, and what its
  failures mean follows from it.
\<close>

record send_spec =
  sp_phase :: SendState
  sp_sent :: nat
  sp_controls :: u32
  sp_acked :: nat
  sp_held :: bool
  sp_heard :: bool
  sp_stock :: "(XferSeq \<times> bytes) list"
  sp_floor :: u32

definition spec_new :: send_spec where
  "spec_new = \<lparr>sp_phase = S_Streaming, sp_sent = 0, sp_controls = 0, sp_acked = 0, sp_held = False,
     sp_heard = False, sp_stock = [], sp_floor = 0\<rparr>"

text \<open>What the stock may hold, and the least that has to go for it to fit, oldest first.\<close>

definition fits :: "SenderConfig \<Rightarrow> (XferSeq \<times> bytes) list \<Rightarrow> bool" where
  "fits cfg es \<longleftrightarrow> length es \<le> max (retrans_ring_frames cfg) 1 \<and> entries_bytes es \<le> max (retrans_ring_bytes cfg) 1"

definition trimmed :: "SenderConfig \<Rightarrow> (XferSeq \<times> bytes) list \<Rightarrow> (XferSeq \<times> bytes) list \<Rightarrow> (XferSeq \<times> bytes) list \<Rightarrow> bool" where
  "trimmed cfg es old kept \<longleftrightarrow> es = old @ kept \<and> fits cfg kept \<and> (\<forall>older e. old = older @ [e] \<longrightarrow> \<not> fits cfg (e # kept))"

text \<open>Room in the send window.\<close>

definition may_push :: "SenderConfig \<Rightarrow> send_spec \<Rightarrow> bool" where
  "may_push cfg q \<longleftrightarrow> sp_phase q = S_Streaming \<and> \<not> sp_held q \<and> sp_sent q - sp_acked q < unat (max_outstanding cfg)"

definition resends :: "(XferSeq \<times> bytes) list \<Rightarrow> XferSeq list \<Rightarrow> SendEvent list" where
  "resends stock missing = (let ds = List.map_filter (map_of stock) missing in if ds = [] then [] else [Resend ds])"

fun is_report :: "Body \<Rightarrow> bool" where
  "is_report (B_Ack c h b) = True"
| "is_report (B_Nack ms) = True"
| "is_report B_EndAck = True"
| "is_report _ = False"

text \<open>The numbers end at the last but one of 32 bits; the counter sticks there.\<close>

inductive sends :: "SenderConfig \<Rightarrow> send_spec \<Rightarrow> SendInput \<Rightarrow> SendEvent list \<Rightarrow> send_spec \<Rightarrow> bool" for cfg q where
  number: "may_push cfg q \<Longrightarrow>
    sends cfg q (PushFrame ts p now) [Emit (of_nat (Suc (sp_sent q))) (B_Data ts p)]
      (q\<lparr>sp_sent := min (Suc (sp_sent q)) (2 ^ 32 - 2)\<rparr>)"
| refuse: "\<not> may_push cfg q \<Longrightarrow> sends cfg q (PushFrame ts p now) [] q"
| keep: "trimmed cfg (sp_stock q @ [(s, d)]) old kept \<Longrightarrow>
    sends cfg q (RecordSealed s d) [] (q\<lparr>sp_stock := kept, sp_floor := fold max (map fst old) (sp_floor q)\<rparr>)"
| declare_end: "sp_phase q = S_Streaming \<Longrightarrow>
    sends cfg q (Finish now) [Emit (sp_controls q + 1) (B_End (of_nat (sp_sent q)))]
      (q\<lparr>sp_phase := S_Finalizing, sp_controls := sp_controls q + 1\<rparr>)"
| end_declared: "sp_phase q \<noteq> S_Streaming \<Longrightarrow> sends cfg q (Finish now) [] q"
| ack: "sends cfg q (Handle (B_Ack c h b) now) []
    (q\<lparr>sp_heard := True, sp_acked := max (sp_acked q) (unat h),
       sp_held := (b \<ge> buffer_high_water_ms cfg \<or> b > buffer_low_water_ms cfg \<and> sp_held q),
       sp_stock := dropWhile (\<lambda>e. fst e \<le> c) (sp_stock q), sp_floor := max (sp_floor q) c\<rparr>)"
| nack: "sends cfg q (Handle (B_Nack missing) now) (resends (sp_stock q) missing) (q\<lparr>sp_heard := True\<rparr>)"
| end_ack: "sends cfg q (Handle B_EndAck now) [Completed] (q\<lparr>sp_phase := S_Done\<rparr>)"
| ignore: "\<not> is_report body \<Longrightarrow> sends cfg q (Handle body now) [] q"
| idle: "sends cfg q (Tick now) [] q"
| remind: "sp_phase q = S_Finalizing \<or> sp_phase q = S_Streaming \<and> sp_held q \<Longrightarrow>
    sends cfg q (Tick now) [Emit (sp_controls q + 1) (B_Keepalive (sp_floor q))] (q\<lparr>sp_controls := sp_controls q + 1\<rparr>)"
| no_ack: "sp_phase q \<noteq> S_Done \<Longrightarrow> \<not> sp_heard q \<Longrightarrow> 0 < sp_sent q \<Longrightarrow>
    sends cfg q (Tick now) [Failed NoAck] (q\<lparr>sp_phase := S_Done\<rparr>)"
| no_end_ack: "sp_phase q = S_Finalizing \<Longrightarrow> sends cfg q (Tick now) [Failed FinalizeTimeout] (q\<lparr>sp_phase := S_Done\<rparr>)"


section \<open>The ring against its specification\<close>

lemma map_of_entries: "rr_get r s = map_of (rr_entries r) s"
proof -
  have "map_option snd (List.find (\<lambda>e. fst e = s) xs) = map_of xs s" for xs :: "(XferSeq \<times> bytes) list"
    by (induction xs) auto
  then show ?thesis by (simp add: rr_get_def)
qed

lemma evict_to_budget_trims:
  assumes "rr_counts r" and "rr_max_frames r = max (retrans_ring_frames cfg) 1" and "rr_max_bytes r = max (retrans_ring_bytes cfg) 1"
  shows "\<exists>old. trimmed cfg (rr_entries r) old (rr_entries (evict_to_budget r))
    \<and> rr_lost_below (evict_to_budget r) = fold max (map fst old) (rr_lost_below r)"
  using assms
proof (induction r rule: evict_to_budget.induct)
  case (1 r)
  have fit: "fits cfg (rr_entries r) \<longleftrightarrow> \<not> (length (rr_entries r) > rr_max_frames r \<or> rr_bytes r > rr_max_bytes r)"
    using "1.prems" by (auto simp: fits_def rr_counts_def not_less)
  show ?case
  proof (cases "fits cfg (rr_entries r)")
    case True
    then have "evict_to_budget r = r" using fit by (simp add: evict_to_budget.simps [of r])
    then show ?thesis using True by (intro exI [of _ "[]"]) (simp add: trimmed_def)
  next
    case False
    then obtain s d es where r: "rr_entries r = (s, d) # es" by (cases "rr_entries r") (auto simp: fits_def)
    let ?r = "fst (evict_oldest r)"
    have e: "snd (evict_oldest r) = Some s" "rr_entries ?r = es" "rr_lost_below ?r = max s (rr_lost_below r)"
      using r by (auto simp: evict_oldest_def max_def)
    have step: "evict_to_budget r = evict_to_budget ?r" using False fit e(1) by (simp add: evict_to_budget.simps [of r])
    obtain old where old: "trimmed cfg es old (rr_entries (evict_to_budget ?r))"
      "rr_lost_below (evict_to_budget ?r) = fold max (map fst old) (max s (rr_lost_below r))"
      using "1.IH" [of s] False fit e "1.prems" by (auto simp: rr_counts_evict_oldest evict_oldest_simps)
    have "trimmed cfg (rr_entries r) ((s, d) # old) (rr_entries (evict_to_budget r))"
      using old(1) False r unfolding step trimmed_def by (auto simp: Cons_eq_append_conv)
    then show ?thesis using old(2) step by (intro exI [of _ "(s, d) # old"]) simp
  qed
qed

lemma evict_through_entries: "rr_entries (evict_through c r) = dropWhile (\<lambda>e. fst e \<le> c) (rr_entries r)"
proof (induction c r rule: evict_through.induct)
  case (1 c r)
  then show ?case by (auto simp: evict_through.simps [of c r] evict_oldest_simps not_le split: list.splits)
qed

lemma ack_through_entries: "rr_entries (ack_through r c) = dropWhile (\<lambda>e. fst e \<le> c) (rr_entries r)"
  by (simp add: ack_through_def Let_def evict_through_entries)

section \<open>The state machine against its specification\<close>

definition send_abs :: "XferSender \<Rightarrow> send_spec" where
  "send_abs tx = \<lparr>sp_phase = tx_state tx, sp_sent = unat (tx_next_seq tx) - 1, sp_controls = tx_control_counter tx,
     sp_acked = unat (tx_acked_highest tx), sp_held = tx_paused tx, sp_heard = tx_got_ack tx,
     sp_stock = rr_entries (tx_ring tx), sp_floor = rr_lost_below (tx_ring tx)\<rparr>"

lemma send_abs_new: "send_abs (XferSender_new cfg) = spec_new"
  by (simp add: send_abs_def spec_new_def XferSender_new_def RetransRing_new_def XferSeq_FIRST_def)

text \<open>Numbers start at 1, and a sender that has dated its first frame has numbered one.\<close>

definition counting :: "SenderConfig \<Rightarrow> XferSender \<Rightarrow> bool" where
  "counting cfg tx \<longleftrightarrow> tx_cfg tx = cfg \<and> 0 < unat (tx_next_seq tx)
     \<and> (tx_first_data_at tx \<noteq> None \<longrightarrow> 1 < unat (tx_next_seq tx))"

lemma counting_step:
  assumes "counting cfg tx"
  shows "counting cfg (fst (send_step tx i))"
proof (cases i)
  case (PushFrame ts p now)
  then show ?thesis using assms
    by (cases "can_send tx") (auto simp: counting_def push_frame_closed push_frame_open unat_XferSeq_next)
next
  case (Handle b now)
  then show ?thesis using assms by (cases b) (simp_all add: counting_def send_handle_def Let_def)
qed (use assms in \<open>auto simp: counting_def record_sealed_def send_finish_eq send_tick_cases emit_keepalive_eq\<close>)

interpretation counting: state_invariant send_step "XferSender_new cfg" "counting cfg" for cfg
  by unfold_locales (simp add: counting_def XferSender_new_def XferSeq_FIRST_def, rule counting_step)

lemma may_push_iff: "counting cfg tx \<Longrightarrow> may_push cfg (send_abs tx) \<longleftrightarrow> can_send tx"
  by (simp add: may_push_def send_abs_def can_send_iff counting_def)

lemma push_refines:
  assumes "counting cfg tx"
  shows "sends cfg (send_abs tx) (PushFrame ts p now) (snd (opt_events (push_frame tx ts p now)))
    (send_abs (fst (opt_events (push_frame tx ts p now))))"
proof (cases "can_send tx")
  case True
  have n: "of_nat (Suc (sp_sent (send_abs tx))) = tx_next_seq tx"
    using assms by (simp add: send_abs_def counting_def)
  have "send_abs (fst (opt_events (push_frame tx ts p now)))
      = (send_abs tx)\<lparr>sp_sent := min (Suc (sp_sent (send_abs tx))) (2 ^ 32 - 2)\<rparr>"
    using True assms by (simp add: push_frame_open send_abs_def counting_def unat_XferSeq_next)
  then show ?thesis
    using sends.number [of cfg "send_abs tx" ts p now] may_push_iff [OF assms] True n by (simp add: push_frame_open)
next
  case False
  then show ?thesis using sends.refuse [of cfg "send_abs tx" ts p now] may_push_iff [OF assms] by (simp add: push_frame_closed)
qed

lemma record_refines:
  assumes "ring_ok cfg tx"
  shows "sends cfg (send_abs tx) (RecordSealed s d) [] (send_abs (record_sealed tx s d))"
proof -
  let ?r = "tx_ring tx" and ?x = "(tx_ring tx)\<lparr>rr_bytes := rr_bytes (tx_ring tx) + length d, rr_entries := rr_entries (tx_ring tx) @ [(s, d)]\<rparr>"
  have "rr_counts ?x" "rr_max_frames ?x = max (retrans_ring_frames cfg) 1" "rr_max_bytes ?x = max (retrans_ring_bytes cfg) 1"
    using assms by (simp_all add: ring_ok_def rr_invar_def rr_counts_def)
  from evict_to_budget_trims [OF this] obtain old where
    old: "trimmed cfg (rr_entries ?r @ [(s, d)]) old (rr_entries (rr_push ?r s d))"
    "rr_lost_below (rr_push ?r s d) = fold max (map fst old) (rr_lost_below ?r)"
    unfolding rr_push_def by auto
  then show ?thesis
    using sends.keep [of cfg "send_abs tx" s d old "rr_entries (rr_push ?r s d)"] by (simp add: send_abs_def record_sealed_def)
qed

lemma handle_refines:
  assumes "counting cfg tx"
  shows "sends cfg (send_abs tx) (Handle b now) (snd (send_handle tx b now)) (send_abs (fst (send_handle tx b now)))"
proof (cases b)
  case (B_Ack c h ms)
  have "send_abs (fst (send_handle tx b now)) = (send_abs tx)\<lparr>sp_heard := True, sp_acked := max (sp_acked (send_abs tx)) (unat h),
       sp_held := (ms \<ge> buffer_high_water_ms cfg \<or> ms > buffer_low_water_ms cfg \<and> sp_held (send_abs tx)),
       sp_stock := dropWhile (\<lambda>e. fst e \<le> c) (sp_stock (send_abs tx)), sp_floor := max (sp_floor (send_abs tx)) c\<rparr>"
    using assms unfolding B_Ack
    by (auto simp: send_abs_def send_handle_def Let_def ack_through_entries rr_lost_below_ack counting_def max_def
        word_less_nat_alt word_le_nat_alt)
  moreover have "snd (send_handle tx b now) = []" by (simp add: B_Ack send_handle_def Let_def)
  ultimately show ?thesis unfolding B_Ack using sends.ack [of cfg "send_abs tx" c h ms now] by simp
next
  case (B_Nack ms)
  have "rr_get (tx_ring tx) = map_of (rr_entries (tx_ring tx))" by (rule ext) (rule map_of_entries)
  then show ?thesis unfolding B_Nack using sends.nack [of cfg "send_abs tx" ms now]
    by (cases "List.map_filter (map_of (rr_entries (tx_ring tx))) ms = []")
      (simp_all add: send_handle_def send_abs_def resends_def Let_def)
next
  case B_EndAck
  then show ?thesis using sends.end_ack [of cfg "send_abs tx" now] by (simp add: send_handle_def send_abs_def)
qed (use sends.ignore [of b cfg "send_abs tx" now] in \<open>simp_all add: send_handle_def\<close>)

lemma finish_refines:
  "sends cfg (send_abs tx) (Finish now) (snd (opt_events (send_finish tx now))) (send_abs (fst (opt_events (send_finish tx now))))"
proof (cases "tx_state tx = S_Streaming")
  case True
  have "of_nat (unat (sat_sub (tx_next_seq tx) 1)) = sat_sub (tx_next_seq tx) 1" by simp
  then have "of_nat (unat (tx_next_seq tx) - 1) = sat_sub (tx_next_seq tx) 1" by (simp only: unat_sat_sub unat_1)
  then show ?thesis using True sends.declare_end [of "send_abs tx" cfg now] by (simp add: send_finish_eq send_abs_def)
next
  case False
  then show ?thesis using sends.end_declared [of "send_abs tx" cfg now] by (simp add: send_finish_eq send_abs_def)
qed

lemma tick_refines:
  assumes "counting cfg tx"
  shows "sends cfg (send_abs tx) (Tick now) (snd (send_tick tx now)) (send_abs (fst (send_tick tx now)))"
proof -
  have idle: "sends cfg (send_abs tx) (Tick now) [] (send_abs tx)" by (rule sends.idle)
  have no_ack: "sends cfg (send_abs tx) (Tick now) [Failed NoAck] (send_abs (tx\<lparr>tx_state := S_Done\<rparr>))"
    if "tx_state tx \<noteq> S_Done" "first_ack_expired tx now"
    using sends.no_ack [of "send_abs tx" cfg now] that assms
    by (auto simp: send_abs_def first_ack_expired_def counting_def split: option.splits)
  have late: "sends cfg (send_abs tx) (Tick now) [Failed FinalizeTimeout] (send_abs (tx\<lparr>tx_state := S_Done\<rparr>))"
    if "tx_state tx = S_Finalizing"
    using sends.no_end_ack [of "send_abs tx" cfg now] that by (simp add: send_abs_def)
  have remind: "sends cfg (send_abs tx) (Tick now) (snd (emit_keepalive tx now)) (send_abs (fst (emit_keepalive tx now)))"
    if "tx_state tx = S_Finalizing \<or> tx_state tx = S_Streaming \<and> tx_paused tx"
    using sends.remind [of "send_abs tx" cfg now] that by (simp add: send_abs_def emit_keepalive_eq)
  show ?thesis using idle no_ack late remind by (cases "tx_state tx") (simp_all add: send_tick_cases)
qed

lemma send_step_refines:
  assumes "tx = final send_step (XferSender_new cfg) is"
  shows "sends cfg (send_abs tx) i (snd (send_step tx i)) (send_abs (fst (send_step tx i)))"
proof -
  have "counting cfg tx" "ring_ok cfg tx" unfolding assms by (rule counting.holds, rule ring_bound.holds)
  then show ?thesis
    by (cases i) (simp_all add: push_refines record_refines finish_refines handle_refines tick_refines)
qed

interpretation send_refinement: simulation send_step "XferSender_new cfg" "sends cfg" send_abs "\<lambda>es. es" for cfg
  by unfold_locales (simp_all add: send_step_refines)


section \<open>What the specification says of failures\<close>

fun acknowledges :: "SendInput \<Rightarrow> bool" where
  "acknowledges (Handle (B_Ack c h b) now) = True"
| "acknowledges (Handle (B_Nack ms) now) = True"
| "acknowledges _ = False"

definition spec_meaning :: "SendInput list \<Rightarrow> SendEvent list \<Rightarrow> send_spec \<Rightarrow> bool" where
  "spec_meaning is es q \<longleftrightarrow> (sp_heard q \<longleftrightarrow> (\<exists>i \<in> set is. acknowledges i))
     \<and> (0 < sp_sent q \<longleftrightarrow> data_emits es \<noteq> [])
     \<and> (sp_phase q = S_Finalizing \<longrightarrow> ends es \<noteq> [])
     \<and> (sp_phase q \<noteq> S_Done \<longrightarrow> Completed \<notin> set es \<and> (\<forall>f. Failed f \<notin> set es))"

lemma spec_meaning_step:
  assumes "sends cfg q i es' q'" and "spec_meaning is es q"
  shows "spec_meaning (is @ [i]) (es @ es') q'"
  using assms
proof (induction rule: sends.induct)
  case (ignore body now)
  then show ?case by (cases body) (auto simp: spec_meaning_def)
next
  case (nack missing now)
  then show ?case by (auto simp: spec_meaning_def resends_def Let_def)
qed (auto simp: spec_meaning_def)

lemma spec_runs_meaning: "runs (sends cfg) spec_new is es q \<Longrightarrow> spec_meaning is es q"
proof (induction rule: runs.induct)
  case runs_nil
  then show ?case by (simp add: spec_meaning_def spec_new_def)
next
  case (runs_snoc "is" es q i es' q')
  then show ?case using spec_meaning_step by blast
qed

lemma failure_step:
  assumes "sends cfg q i es q'" and "Failed f \<in> set es"
  shows "es = [Failed f] \<and> sp_phase q \<noteq> S_Done \<and> sp_phase q' = S_Done
    \<and> (case f of NoAck \<Rightarrow> \<not> sp_heard q \<and> 0 < sp_sent q | FinalizeTimeout \<Rightarrow> sp_phase q = S_Finalizing)"
  using assms by (induction rule: sends.induct) (auto simp: resends_def Let_def split: if_splits)

section \<open>Properties\<close>

text \<open>
  C5: over every sequence of calls the sending state machine is a run of the specification, event for
  event: frames are numbered in order while the window is open and the sink does not hold the sender
  back, the stock holds the newest datagrams that fit and lets no more go than it has to, an
  acknowledgement drops what it covers, a request is answered with exactly what is in stock, the
  end is declared once with the number of frames, keepalives announce the number up to which
  frames are beyond recall, and the sender gives up only when it may.
\<close>

theorem sender_refines_spec:
  "runs (sends cfg) spec_new is (trace send_step (XferSender_new cfg) is) (send_abs (final send_step (XferSender_new cfg) is))"
  using send_refinement.refines [of cfg "is"] by (simp only: send_abs_new)

text \<open>
  C21: a failure is justified and final.  A call that reports \<open>NoAck\<close> comes after a frame was emitted and
  before any acknowledgement or request was handled; one that reports \<open>FinalizeTimeout\<close> comes after
  \<open>End\<close> was emitted.  Neither comes after the transfer was completed or failed, the failure is
  all the call returns, and the sender is done.
\<close>

theorem failures_justified:
  assumes "Failed f \<in> set (snd (send_step (final send_step (XferSender_new cfg) is) i))"
  shows "snd (send_step (final send_step (XferSender_new cfg) is) i) = [Failed f]
    \<and> is_done (fst (send_step (final send_step (XferSender_new cfg) is) i))
    \<and> Completed \<notin> set (trace send_step (XferSender_new cfg) is)
    \<and> (\<forall>g. Failed g \<notin> set (trace send_step (XferSender_new cfg) is))
    \<and> (case f of
         NoAck \<Rightarrow> data_emits (trace send_step (XferSender_new cfg) is) \<noteq> [] \<and> \<not> (\<exists>j \<in> set is. acknowledges j)
       | FinalizeTimeout \<Rightarrow> ends (trace send_step (XferSender_new cfg) is) \<noteq> [])"
proof -
  let ?tx = "final send_step (XferSender_new cfg) is"
  have m: "spec_meaning is (trace send_step (XferSender_new cfg) is) (send_abs ?tx)"
    using send_refinement.refines [of cfg "is"] spec_runs_meaning by (simp only: send_abs_new)
  have f: "snd (send_step ?tx i) = [Failed f]" "sp_phase (send_abs ?tx) \<noteq> S_Done"
    "sp_phase (send_abs (fst (send_step ?tx i))) = S_Done"
    "case f of NoAck \<Rightarrow> \<not> sp_heard (send_abs ?tx) \<and> 0 < sp_sent (send_abs ?tx) | FinalizeTimeout \<Rightarrow> sp_phase (send_abs ?tx) = S_Finalizing"
    using failure_step [OF send_step_refines [OF refl] assms] by auto
  have "is_done (fst (send_step ?tx i))" using f(3) by (simp add: send_abs_def is_done_def)
  then show ?thesis using m f(1,2,4) unfolding spec_meaning_def by (cases f) auto
qed

theorem failures_justified_witness:
  "data_emits (trace send_step (XferSender_new SenderConfig_default) [PushFrame 0 [1] 0, Tick 1000]) \<noteq> []
   \<and> is_done (final send_step (XferSender_new SenderConfig_default) [PushFrame 0 [1] 0, Tick 1000, Tick 2000000001])"
proof -
  let ?tx = "final send_step (XferSender_new SenderConfig_default) [PushFrame 0 [1] 0, Tick 1000]"
  have "Failed NoAck \<in> set (snd (send_step ?tx (Tick 2000000001)))"
    by (simp add: tx_eval push_frame_def send_tick_cases first_ack_expired_def duration_since_def from_secs_def Let_def)
  from failures_justified [OF this] show ?thesis by (simp add: split_beta)
qed

end
