(* ===== verification/Pf4_Example.thy ===== *)
theory Pf4_Example
  imports Pf4_System
begin

text \<open>
  A small transfer in full, for the instances of the properties that span the components: what its
  tap sends, what the sink makes of it, and the acknowledgement that closes it.
\<close>

section \<open>A concrete transfer\<close>

text \<open>
  One frame and the end, sent by a tap and delivered to a sink, for the instances below: the
  tap's two datagrams are handed to the sink's endpoint in order.
\<close>

definition demo_tap_run :: "TapInput list" where
  "demo_tap_run = [TapPush 0 [1] 0, TapFinish 1]"

definition demo_wire :: "bytes list" where
  "demo_wire = us_sent (sd_socket (final (tap_step demo_aead) demo_tap demo_tap_run))"

definition demo_reads :: "EpInput list" where
  "demo_reads = map (\<lambda>d. EpRead d (V4 [10, 0, 0, 1] 7) 5 (\<lambda>_. (5, True))) demo_wire"

text \<open>Before it, another request was armed and given up.\<close>

definition demo_before :: "EpInput list" where
  "demo_before = [EpArm (RequestId (replicate 16 1)) demo_key audio_engine 0 0,
     EpDrop \<lparr>ar_request_id = RequestId (replicate 16 1)\<rparr>]"

lemma demo_tap_trace:
  "trace (tap_step demo_aead) demo_tap demo_tap_run = [Emit 1 (B_Data 0 [1]), Emit 1 (B_End 1)]"
  by (simp add: demo_tap_run_def tap_new_def UdpSocket_new_def quiet_net_def tx_eval push_frame_def
      dispatch_one_def seal_body_def crypto_seal_def SessionKey_seal_def demo_aead_def socket_send_def
      MAX_PAYLOAD_def send_finish_def control_seq_def record_sealed_def rr_push_def evict_to_budget.simps Let_def)

text \<open>The two datagrams.\<close>

lemma demo_wire_eq:
  "demo_wire = [demo_sealed Dir_Send 1 (B_Data 0 [1]) (to_be 8 (0 :: u64) @ [1]),
                demo_sealed Dir_Send 1 (B_End 1) (to_be 4 (1 :: u32))]"
  using demo_seal [of "B_Data 0 [1]" 1 Dir_Send] demo_seal [of "B_End 1" 1 Dir_Send]
  by (simp add: demo_wire_def demo_tap_run_def tap_new_def UdpSocket_new_def quiet_net_def tx_eval
      push_frame_def dispatch_one_def seal_body_def socket_send_def
      MAX_PAYLOAD_def send_finish_def control_seq_def record_sealed_def rr_push_def
      evict_to_budget.simps Let_def del: to_be.simps)

lemma demo_wire_opens:
  "open_body demo_aead demo_key Dir_Send (demo_sealed Dir_Send 1 (B_Data 0 [1]) (to_be 8 (0 :: u64) @ [1]))
     = Inr (Header_new PK_Data demo_id 1, B_Data 0 [1])"
  "open_body demo_aead demo_key Dir_Send (demo_sealed Dir_Send 1 (B_End 1) (to_be 4 (1 :: u32)))
     = Inr (Header_new PK_End demo_id 1, B_End 1)"
  using demo_opens [of "B_Data 0 [1]" "to_be 8 (0 :: u64) @ [1]" Dir_Send 1]
    demo_opens [of "B_End 1" "to_be 4 (1 :: u32)" Dir_Send 1]
  by (simp_all add: MAX_PAYLOAD_def del: to_be.simps)

lemma demo_wire_reads:
  "read_from (demo_sealed Dir_Send 1 (B_Data 0 [1]) (to_be 8 (0 :: u64) @ [1]))
     = demo_sealed Dir_Send 1 (B_Data 0 [1]) (to_be 8 (0 :: u64) @ [1])"
  "read_from (demo_sealed Dir_Send 1 (B_End 1) (to_be 4 (1 :: u32))) = demo_sealed Dir_Send 1 (B_End 1) (to_be 4 (1 :: u32))"
  "request_id_of (demo_sealed Dir_Send 1 (B_Data 0 [1]) (to_be 8 (0 :: u64) @ [1])) = Inr demo_id"
  "request_id_of (demo_sealed Dir_Send 1 (B_End 1) (to_be 4 (1 :: u32))) = Inr demo_id"
  using demo_length [of "B_Data 0 [1]" "to_be 8 (0 :: u64) @ [1]" Dir_Send 1]
    demo_length [of "B_End 1" "to_be 4 (1 :: u32)" Dir_Send 1]
    demo_routes [of "B_Data 0 [1]" "to_be 8 (0 :: u64) @ [1]" Dir_Send 1]
    demo_routes [of "B_End 1" "to_be 4 (1 :: u32)" Dir_Send 1]
  by (simp_all add: MAX_PAYLOAD_def read_from_def READ_BUF_def del: to_be.simps)

lemma demo_other_id: "demo_id \<noteq> RequestId (replicate 16 1)"
  by (simp add: demo_id_def)

lemma demo_armed_once: "armed_once demo_aead demo_before demo_id demo_reads"
  using demo_other_id by (auto simp: armed_once_def demo_before_def demo_reads_def rearmed_def arm_def ArmedRequest_drop_def disarm_def)

lemma demo_sink_effects:
  "sink_effects demo_aead demo_before demo_id demo_key audio_engine 0 0 demo_reads =
     [ToUnrel \<lparr>fr_seq = 1, fr_ts = 0, fr_payload = [1]\<rparr>, ToRel \<lparr>fr_seq = 1, fr_ts = 0, fr_payload = [1]\<rparr>,
      Outcome (Complete 1), Reply (demo_sealed Dir_Recv 0 B_EndAck [])]"
proof -
  have free: "final (endpoint_step demo_aead) Map.empty demo_before demo_id = None"
    using demo_armed_once by (simp add: armed_once_def)
  show ?thesis
    unfolding sink_effects_def slot_run_from(2) [OF refl] free
    using demo_seal [of B_EndAck 0 Dir_Recv]
    by (simp add: demo_reads_def demo_wire_eq demo_wire_reads entry_datagram_eq demo_wire_opens Entry_new_def rx_eval
      apply_one_def reply_with_def Entry_seal_def ControlSeq_FIRST_def Let_def del: to_be.simps)
qed

lemma demo_authentic: "authentic_reads demo_aead demo_key demo_reads demo_wire"
  by (auto simp: authentic_reads_def demo_reads_def demo_wire_eq demo_wire_reads simp del: to_be.simps)

section \<open>The acknowledgement\<close>

definition demo_tap_run' :: "TapInput list" where
  "demo_tap_run' = demo_tap_run
     @ [TapPump \<lparr>pi_answer = Received (demo_sealed Dir_Recv 0 B_EndAck []), pi_handle_at = 6, pi_tick_at = 6\<rparr>]"

lemma demo_end_ack_opens:
  "open_body demo_aead demo_key Dir_Recv (demo_sealed Dir_Recv 0 B_EndAck []) = Inr (Header_new PK_EndAck demo_id 0, B_EndAck)"
  using demo_opens [of B_EndAck "[]" Dir_Recv 0] by simp

lemma demo_opened: "opened_by demo_aead demo_key demo_tap_run' B_EndAck"
  using demo_end_ack_opens by (auto simp: opened_by_def demo_tap_run'_def)

lemma demo_acked:
  "us_sent (sd_socket (final (tap_step demo_aead) demo_tap demo_tap_run')) = demo_wire"
  "trace (tap_step demo_aead) demo_tap demo_tap_run' = [Emit 1 (B_Data 0 [1]), Emit 1 (B_End 1), Completed]"
proof -
  let ?inp = "\<lparr>pi_answer = Received (demo_sealed Dir_Recv 0 B_EndAck []), pi_handle_at = 6, pi_tick_at = 6\<rparr>"
  have key: "sd_key (final (tap_step demo_aead) demo_tap demo_tap_run) = demo_key"
    using tap_run_drives [of demo_aead SenderConfig_default demo_key demo_id demo_tap_run quiet_net "V4 [127, 0, 0, 1] 9000"]
    unfolding drives_def by blast
  have pump: "sd_socket (fst (pump_once demo_aead sd ?inp)) = sd_socket sd
      \<and> pump_events demo_aead sd ?inp = [Completed]" if "sd_key sd = demo_key" for sd
    using that demo_end_ack_opens by (simp add: pump_once_def pump_recv_def pump_events_def recv_events_def send_handle_def
        send_tick_cases dispatch_one_def)
  show "us_sent (sd_socket (final (tap_step demo_aead) demo_tap demo_tap_run')) = demo_wire"
    using pump [OF key] by (simp add: demo_tap_run'_def final_append demo_wire_def)
  show "trace (tap_step demo_aead) demo_tap demo_tap_run' = [Emit 1 (B_Data 0 [1]), Emit 1 (B_End 1), Completed]"
    using pump [OF key] by (simp add: demo_tap_run'_def trace_append demo_tap_trace)
qed

end
