(* ===== verification/Pf4_World.thy ===== *)
theory Pf4_World
  imports Pf4_Example
begin

text \<open>
  The whole installation as one transition system: any number of taps, each with its own request
  id and key, one sink endpoint, and the wire between them.  The wire keeps everything that was
  ever put on it, so a datagram may be lost, delayed, repeated or delivered to anyone; and
  somebody who does not know the keys may put anything on it that does not open under one of them, or
  that was on it already.  That nothing else on the wire opens is what the authentication tag
  promises; what the other theories assume of a run (\<open>authentic_to_sink\<close>, \<open>authentic_to_tap\<close>) is proved here
  as an invariant of every reachable state.
\<close>

section \<open>The transition system\<close>

record World =
  wd_taps :: "RequestId \<rightharpoonup> Sender"
  wd_sink :: Endpoint
  wd_wire :: "bytes set"

definition World_new :: World where
  "World_new = \<lparr>wd_taps = Map.empty, wd_sink = Map.empty, wd_wire = {}\<rparr>"

datatype WorldInput =
  WStart RequestId SenderConfig SocketAddr
| WTap RequestId TapInput
| WSink EpInput
| WInject bytes

datatype WorldEvent = FromTap RequestId SendEvent | FromSink EpEvent

text \<open>Sockets read from the wire, up to the size of their buffers.\<close>

fun tap_gets :: "bytes set \<Rightarrow> TapInput \<Rightarrow> bool" where
  "tap_gets wire (TapPump inp) = (case pi_answer inp of Received d \<Rightarrow> d \<in> read_from ` wire | _ \<Rightarrow> True)"
| "tap_gets wire _ = True"

fun sink_gets :: "(RequestId \<Rightarrow> SessionKey) \<Rightarrow> bytes set \<Rightarrow> EpInput \<Rightarrow> bool" where
  "sink_gets keys wire (EpRead d src now env) = (d \<in> wire)"
| "sink_gets keys wire (EpArm r key cfg t1 t0) = (key = keys r \<and> request_id_wf r)"
| "sink_gets keys wire _ = True"

definition harmless :: "aead \<Rightarrow> (RequestId \<Rightarrow> SessionKey) \<Rightarrow> bytes set \<Rightarrow> bytes \<Rightarrow> bool" where
  "harmless A keys wire d \<longleftrightarrow>
     (\<forall>r dir. is_ok (open_body A (keys r) dir (read_from d)) \<longrightarrow> read_from d \<in> wire)"

definition sent_by :: "EpEvent list \<Rightarrow> bytes set" where
  "sent_by es = {d. \<exists>peer. EpSent d peer \<in> set es}"

inductive world_step ::
  "aead \<Rightarrow> net \<Rightarrow> (RequestId \<Rightarrow> SessionKey) \<Rightarrow> World \<Rightarrow> WorldInput \<Rightarrow> WorldEvent list \<Rightarrow> World \<Rightarrow> bool"
  for A N keys w
where
  start: "wd_taps w r = None \<Longrightarrow> request_id_wf r \<Longrightarrow>
    world_step A N keys w (WStart r cfg peer) [] (w\<lparr>wd_taps := (wd_taps w)(r \<mapsto> tap_new N r (keys r) cfg peer)\<rparr>)"
| tap: "wd_taps w r = Some sd \<Longrightarrow> tap_gets (wd_wire w) i \<Longrightarrow> tap_step A sd i = (sd', es) \<Longrightarrow>
    world_step A N keys w (WTap r i) (map (FromTap r) es)
      (w\<lparr>wd_taps := (wd_taps w)(r \<mapsto> sd'), wd_wire := wd_wire w \<union> set (us_sent (sd_socket sd'))\<rparr>)"
| sink: "sink_gets keys (wd_wire w) i \<Longrightarrow> endpoint_step A (wd_sink w) i = (ep, es) \<Longrightarrow>
    world_step A N keys w (WSink i) (map FromSink es) (w\<lparr>wd_sink := ep, wd_wire := wd_wire w \<union> sent_by es\<rparr>)"
| inject: "harmless A keys (wd_wire w) d \<Longrightarrow>
    world_step A N keys w (WInject d) [] (w\<lparr>wd_wire := insert d (wd_wire w)\<rparr>)"

section \<open>Histories\<close>

text \<open>What one tap, and the sink, have been given and have put out in a run.\<close>

fun tap_inputs :: "RequestId \<Rightarrow> WorldInput list \<Rightarrow> TapInput list" where
  "tap_inputs r [] = []"
| "tap_inputs r (WTap r' i # ls) = (if r' = r then i # tap_inputs r ls else tap_inputs r ls)"
| "tap_inputs r (_ # ls) = tap_inputs r ls"

fun sink_inputs :: "WorldInput list \<Rightarrow> EpInput list" where
  "sink_inputs [] = []"
| "sink_inputs (WSink i # ls) = i # sink_inputs ls"
| "sink_inputs (_ # ls) = sink_inputs ls"

fun tap_events :: "RequestId \<Rightarrow> WorldEvent list \<Rightarrow> SendEvent list" where
  "tap_events r [] = []"
| "tap_events r (FromTap r' ev # es) = (if r' = r then ev # tap_events r es else tap_events r es)"
| "tap_events r (_ # es) = tap_events r es"

fun sink_events :: "WorldEvent list \<Rightarrow> EpEvent list" where
  "sink_events [] = []"
| "sink_events (FromSink ev # es) = ev # sink_events es"
| "sink_events (_ # es) = sink_events es"

lemma tap_inputs_append [simp]: "tap_inputs r (ls @ ms) = tap_inputs r ls @ tap_inputs r ms"
  by (induction r ls rule: tap_inputs.induct) simp_all

lemma sink_inputs_append [simp]: "sink_inputs (ls @ ms) = sink_inputs ls @ sink_inputs ms"
  by (induction ls rule: sink_inputs.induct) simp_all

lemma tap_events_append [simp]: "tap_events r (es @ fs) = tap_events r es @ tap_events r fs"
  by (induction r es rule: tap_events.induct) simp_all

lemma sink_events_append [simp]: "sink_events (es @ fs) = sink_events es @ sink_events fs"
  by (induction es rule: sink_events.induct) simp_all

lemma events_of_tap [simp]:
  "tap_events r (map (FromTap r') es) = (if r' = r then es else [])" "sink_events (map (FromTap r') es) = []"
  by (induction es) auto

lemma events_of_sink [simp]: "tap_events r (map FromSink fs) = []" "sink_events (map FromSink fs) = fs"
  by (induction fs) simp_all

text \<open>Every part of the world has run on its own history.\<close>

definition tap_ran ::
  "aead \<Rightarrow> net \<Rightarrow> (RequestId \<Rightarrow> SessionKey) \<Rightarrow> RequestId \<Rightarrow> TapInput list \<Rightarrow> SendEvent list \<Rightarrow> Sender option \<Rightarrow> bool" where
  "tap_ran A N keys r tis es sd \<longleftrightarrow>
     (case sd of
        None \<Rightarrow> tis = [] \<and> es = []
      | Some sd \<Rightarrow> request_id_wf r \<and> (\<exists>cfg peer. run (tap_step A) (tap_new N r (keys r) cfg peer) tis = (sd, es)))"

definition parts_ran ::
  "aead \<Rightarrow> net \<Rightarrow> (RequestId \<Rightarrow> SessionKey) \<Rightarrow> WorldInput list \<Rightarrow> WorldEvent list \<Rightarrow> World \<Rightarrow> bool" where
  "parts_ran A N keys ls es w \<longleftrightarrow>
     run (endpoint_step A) Map.empty (sink_inputs ls) = (wd_sink w, sink_events es)
     \<and> (\<forall>r. tap_ran A N keys r (tap_inputs r ls) (tap_events r es) (wd_taps w r))
     \<and> (\<forall>i \<in> set (sink_inputs ls). sink_gets keys (wd_wire w) i)
     \<and> (\<forall>r. \<forall>i \<in> set (tap_inputs r ls). tap_gets (wd_wire w) i)"

lemma tap_gets_mono: "tap_gets wire i \<Longrightarrow> wire \<subseteq> wire' \<Longrightarrow> tap_gets wire' i"
  by (cases i) (auto split: recv_answer.splits)

lemma sink_gets_mono: "sink_gets keys wire i \<Longrightarrow> wire \<subseteq> wire' \<Longrightarrow> sink_gets keys wire' i"
  by (cases i) auto

lemma wire_grows: "world_step A N keys w l es w' \<Longrightarrow> wd_wire w \<subseteq> wd_wire w'"
  by (induction rule: world_step.induct) auto

lemma tap_ran_step:
  "tap_ran A N keys r tis es (Some sd) \<Longrightarrow> tap_step A sd i = (sd', fs) \<Longrightarrow> tap_ran A N keys r (tis @ [i]) (es @ fs) (Some sd')"
  unfolding tap_ran_def option.case by (auto simp: run_append) (metis fst_conv snd_conv)

lemma tap_ran_start:
  "tap_ran A N keys r tis es None \<Longrightarrow> request_id_wf r \<Longrightarrow> tap_ran A N keys r tis es (Some (tap_new N r (keys r) cfg peer))"
  by (auto simp: tap_ran_def)

lemma parts_ran_step:
  assumes "world_step A N keys w l es' w'" and inv: "parts_ran A N keys ls es w"
  shows "parts_ran A N keys (ls @ [l]) (es @ es') w'"
proof -
  have old: "\<forall>i \<in> set (sink_inputs ls). sink_gets keys (wd_wire w') i"
    "\<forall>r. \<forall>i \<in> set (tap_inputs r ls). tap_gets (wd_wire w') i"
    using inv wire_grows [OF assms(1)] sink_gets_mono tap_gets_mono unfolding parts_ran_def by blast+
  from assms(1) inv old show ?thesis
  proof (induction rule: world_step.induct)
    case (tap r sd i sd' fs)
    have "tap_gets (wd_wire w \<union> set (us_sent (sd_socket sd'))) i" by (rule tap_gets_mono [OF tap.hyps(2)]) simp
    moreover have "tap_ran A N keys r (tap_inputs r ls @ [i]) (tap_events r es @ fs) (Some sd')"
      by (rule tap_ran_step [OF _ tap.hyps(3)]) (use tap in \<open>metis parts_ran_def\<close>)
    ultimately show ?case using tap by (auto simp: parts_ran_def)
  next
    case (sink i ep fs)
    have "sink_gets keys (wd_wire w \<union> sent_by fs) i" by (rule sink_gets_mono [OF sink.hyps(1)]) simp
    then show ?case using sink by (auto simp: parts_ran_def run_append)
  next
    case (start r cfg peer)
    then have "tap_ran A N keys r (tap_inputs r ls) (tap_events r es) None" by (metis parts_ran_def)
    then show ?case using start tap_ran_start by (auto simp: parts_ran_def)
  qed (auto simp: parts_ran_def)
qed


section \<open>What opens was sealed\<close>

text \<open>
  A datagram is genuine when it was sent by a tap for its transfer, or is a reply of the sink
  for the request it was sealed for.
\<close>

definition genuine ::
  "aead \<Rightarrow> (RequestId \<Rightarrow> SessionKey) \<Rightarrow> (RequestId \<rightharpoonup> Sender) \<Rightarrow> EpEvent list \<Rightarrow> bytes \<Rightarrow> bool" where
  "genuine A keys taps es d \<longleftrightarrow>
     (\<exists>r sd. taps r = Some sd \<and> d \<in> set (us_sent (sd_socket sd)))
     \<or> (\<exists>r. request_id_wf r \<and> sealed_by A (keys r) r d \<and> d \<in> set (replies (effects_of r es)))"

definition wire_ok ::
  "aead \<Rightarrow> (RequestId \<Rightarrow> SessionKey) \<Rightarrow> WorldEvent list \<Rightarrow> World \<Rightarrow> bool" where
  "wire_ok A keys es w \<longleftrightarrow> (\<forall>d \<in> wd_wire w. \<forall>r dir. is_ok (open_body A (keys r) dir (read_from d))
     \<longrightarrow> genuine A keys (wd_taps w) (sink_events es) (read_from d))"

lemma read_from_twice [simp]: "read_from (read_from d) = read_from d"
  by (simp add: read_from_def)

lemma sealed_by_whole: "aead_correct A \<Longrightarrow> request_id_wf r \<Longrightarrow> sealed_by A key r d \<Longrightarrow> read_from d = d"
  by (auto simp: sealed_by_def sink_sealed_def intro: sealed_read_whole)

lemma genuine_mono:
  assumes "genuine A keys taps es d" and "\<And>r sd. taps r = Some sd \<Longrightarrow> \<exists>sd'. taps' r = Some sd'
      \<and> set (us_sent (sd_socket sd)) \<subseteq> set (us_sent (sd_socket sd'))"
  shows "genuine A keys taps' (es @ fs) d"
  using assms unfolding genuine_def by fastforce

text \<open>The header is read in the clear: a datagram opens in one direction only, whatever the key.\<close>

lemma open_header_unique:
  assumes "open_body A key dir d = Inr (h, b)" and "open_body A key' dir' d = Inr (h', b')"
  shows "h' = h" and "dir' = dir"
proof -
  have parse: "\<exists>c. Header_parse d = Inr (h, c) \<and> PacketKind_direction (hdr_kind h) = dir"
    if "open_body A key dir d = Inr (h, b)" for key dir h b
    using that by (auto simp: open_body_Inr_iff crypto_open_Inr_iff Header_parse_to_bytes)
  from parse [OF assms(1)] parse [OF assms(2)] show "h' = h" "dir' = dir" by auto
qed

lemma tap_sent_parses:
  assumes "aead_correct A" and "tap_ran A N keys r tis es (Some sd)" and "d \<in> set (us_sent (sd_socket sd))"
  shows "read_from d = d" and "is_ok (open_body A key dir d) \<Longrightarrow> dir = Dir_Send"
    and "request_id_of d = Inr r"
proof -
  obtain cfg peer where r: "request_id_wf r" and sd: "run (tap_step A) (tap_new N r (keys r) cfg peer) tis = (sd, es)"
    using assms(2) by (auto simp: tap_ran_def)
  obtain "is" where "drives A cfg (keys r) r tis is es sd"
    using tap_run_drives [of A cfg "keys r" r tis N peer] sd by auto
  then obtain s b p where d: "encode_body b = Inr p" "crypto_seal A (keys r) (Header_new (Body_kind b) r s) Dir_Send p = Inr d"
    using assms(3) unfolding drives_def sealed_emit_def by blast
  show "read_from d = d" by (rule sealed_read_whole [OF assms(1) r d])
  obtain s b where o': "open_body A (keys r) Dir_Send d = Inr (Header_new (Body_kind b) r s, b)"
    using wire_opens [OF assms(1) r, of d N "keys r" cfg peer tis] assms(3) sd by auto
  then show "request_id_of d = Inr r" using open_routes by (fastforce simp: open_body_Inr_iff)
  show "dir = Dir_Send" if "is_ok (open_body A key dir d)"
    using that open_header_unique(2) [OF o'] by (cases "open_body A key dir d") auto
qed


lemma reply_parses:
  assumes "aead_correct A" and "request_id_wf r" and "sealed_by A key r d" and "is_ok (open_body A key' dir d)"
  shows "dir = Dir_Recv" and "request_id_of d = Inr r"
proof -
  obtain k b p where d: "encode_body b = Inr p" "PacketKind_direction (Body_kind b) = Dir_Recv"
    "crypto_seal A key (Header_new (Body_kind b) r (of_nat k)) Dir_Recv p = Inr d"
    using assms(3) by (auto simp: sealed_by_def sink_sealed_def)
  have o': "open_body A key Dir_Recv d = Inr (Header_new (Body_kind b) r (of_nat k), b)"
    by (rule open_body_sealed [OF assms(1,2) d])
  then show "dir = Dir_Recv" using assms(4) open_header_unique(2) [OF o'] by (cases "open_body A key' dir d") auto
  show "request_id_of d = Inr r" using o' open_routes by (fastforce simp: open_body_Inr_iff)
qed

lemma wire_ok_step:
  assumes A: "aead_correct A" and step: "world_step A N keys w l es' w'"
    and ran: "parts_ran A N keys ls es w" and ok: "wire_ok A keys es w"
  shows "wire_ok A keys (es @ es') w'"
  using step
proof (cases rule: world_step.cases)
  case (start r cfg peer)
  have "genuine A keys (wd_taps w') (sink_events es) d" if "genuine A keys (wd_taps w) (sink_events es) d" for d
    by (rule genuine_mono [OF that, where fs = "[]", simplified]) (use start in \<open>auto split: if_splits\<close>)
  then show ?thesis using ok start by (auto simp: wire_ok_def)
next
  case (tap r sd i sd' fs)
  have grow: "set (us_sent (sd_socket sd)) \<subseteq> set (us_sent (sd_socket sd'))"
    using tap_step_grows [of sd A i] tap(6) by (auto dest: set_mono_prefix)
  have old: "genuine A keys (wd_taps w') (sink_events es) d" if "genuine A keys (wd_taps w) (sink_events es) d" for d
    by (rule genuine_mono [OF that, where fs = "[]", simplified]) (use grow tap in \<open>auto split: if_splits\<close>)
  have "tap_ran A N keys r (tap_inputs r ls @ [i]) (tap_events r es @ fs) (Some sd')"
    by (rule tap_ran_step [OF _ tap(6)]) (use ran tap(4) in \<open>metis parts_ran_def\<close>)
  then have "read_from d = d" if "d \<in> set (us_sent (sd_socket sd'))" for d
    using tap_sent_parses(1) [OF A] that by blast
  then have "genuine A keys (wd_taps w') (sink_events es) (read_from d)" if "d \<in> set (us_sent (sd_socket sd'))" for d
    using that tap by (auto simp: genuine_def)
  then show ?thesis using ok old tap by (auto simp: wire_ok_def)
next
  case (sink i ep fs)
  have ep: "wd_sink w = final (endpoint_step A) Map.empty (sink_inputs ls)" using ran by (simp add: parts_ran_def)
  have new: "genuine A keys (wd_taps w) (sink_events es @ fs) (read_from d)" if sent: "EpSent d p \<in> set fs" for d p
  proof -
    have fin: "finite (dom (wd_sink w))" unfolding ep using table.holds by blast
    obtain r e where e: "wd_sink w r = Some e" "sealed_by A (en_key e) r d" "d \<in> set (replies (effects_of r fs))"
      using sent_is_reply [OF fin, of d p A i] sent sink(5) by auto
    have "armed_with (sink_inputs ls) r (en_key e)"
      using peers.holds [of A "sink_inputs ls"] e(1) ep unfolding peers_ok_def by auto
    then have "en_key e = keys r" "request_id_wf r" using ran unfolding parts_ran_def armed_with_def by fastforce+
    then show ?thesis using e sealed_by_whole [OF A] unfolding genuine_def by auto
  qed
  have old: "genuine A keys (wd_taps w) (sink_events es @ fs) d" if "genuine A keys (wd_taps w) (sink_events es) d" for d
    using genuine_mono [OF that] by auto
  show ?thesis using ok old new sink by (auto simp: wire_ok_def sent_by_def)
next
  case (inject d)
  have "genuine A keys (wd_taps w) (sink_events es) (read_from d)" if "is_ok (open_body A (keys r) dir (read_from d))" for r dir
  proof -
    have "read_from d \<in> wd_wire w" using inject(4) that by (auto simp: harmless_def)
    then show ?thesis using ok that unfolding wire_ok_def by (metis read_from_twice)
  qed
  then show ?thesis using ok inject by (auto simp: wire_ok_def)
qed


section \<open>Every reachable world\<close>

text \<open>\<open>reachable\<close> worlds with the history that led to them.\<close>

abbreviation world_runs ::
  "aead \<Rightarrow> net \<Rightarrow> (RequestId \<Rightarrow> SessionKey) \<Rightarrow> WorldInput list \<Rightarrow> WorldEvent list \<Rightarrow> World \<Rightarrow> bool" where
  "world_runs A N keys \<equiv> runs (world_step A N keys) World_new"

lemma world_invariant:
  assumes A: "aead_correct A" and "world_runs A N keys ls es w"
  shows "parts_ran A N keys ls es w \<and> wire_ok A keys es w"
  using assms(2)
proof (induction rule: runs.induct)
  case runs_nil
  then show ?case by (simp add: parts_ran_def tap_ran_def wire_ok_def World_new_def)
next
  case (runs_snoc ls es w l es' w')
  then show ?case using parts_ran_step wire_ok_step [OF A] by blast
qed

text \<open>
  The tap of a request id in a run: it has sent what its history says; an id for which no tap was
  started is one whose tap has done nothing.
\<close>

lemma world_tap:
  assumes "parts_ran A N keys ls es w"
  obtains cfg peer where "tap_events r es = trace (tap_step A) (tap_new N r (keys r) cfg peer) (tap_inputs r ls)"
    and "\<forall>sd. wd_taps w r = Some sd \<longrightarrow> sd = final (tap_step A) (tap_new N r (keys r) cfg peer) (tap_inputs r ls)"
proof -
  have ran: "tap_ran A N keys r (tap_inputs r ls) (tap_events r es) (wd_taps w r)" using assms by (simp add: parts_ran_def)
  show thesis
  proof (cases "wd_taps w r")
    case None
    then show ?thesis using ran that [of undefined undefined] by (auto simp: tap_ran_def)
  next
    case (Some sd)
    then obtain cfg peer where "run (tap_step A) (tap_new N r (keys r) cfg peer) (tap_inputs r ls) = (sd, tap_events r es)"
      using ran by (auto simp: tap_ran_def)
    then show ?thesis using that [of cfg peer] Some by auto
  qed
qed

text \<open>What the sink reads for a request and opens under its key comes from the request's tap.\<close>

lemma world_authentic_to_sink:
  assumes A: "aead_correct A" and ran: "parts_ran A N keys ls es w" and ok: "wire_ok A keys es w"
    and rd: "read_by (sink_inputs ls) js" and mine: "request_id_of d = Inr r"
    and d: "EDatagram d src now env \<in> set js" "is_ok (open_body A (keys r) Dir_Send d)"
  shows "\<exists>sd. wd_taps w r = Some sd \<and> d \<in> set (us_sent (sd_socket sd))"
proof -
  obtain d0 where d0: "EpRead d0 src now env \<in> set (sink_inputs ls)" "d = read_from d0" using rd d(1) unfolding read_by_def by blast
  then have "d0 \<in> wd_wire w" using ran unfolding parts_ran_def by fastforce
  then have "genuine A keys (wd_taps w) (sink_events es) d" using ok d(2) d0(2) unfolding wire_ok_def by blast
  then consider r' sd where "wd_taps w r' = Some sd" "d \<in> set (us_sent (sd_socket sd))"
    | r' where "request_id_wf r'" "sealed_by A (keys r') r' d" unfolding genuine_def by blast
  then show ?thesis
  proof cases
    case 1
    have "tap_ran A N keys r' (tap_inputs r' ls) (tap_events r' es) (Some sd)" using ran 1(1) by (metis parts_ran_def)
    then have "request_id_of d = Inr r'" by (rule tap_sent_parses(3) [OF A _ 1(2)])
    then show ?thesis using mine 1 by auto
  next
    case 2
    then show ?thesis using reply_parses(1) [OF A 2 d(2)] by simp
  qed
qed


text \<open>
  The session of a request that was armed once: the entry's history, in which everything that
  opens was sent by the request's tap.
\<close>

lemma world_session:
  assumes A: "aead_correct A" and w: "world_runs A N keys ls es w"
    and ls: "sink_inputs ls = pre @ EpArm r (keys r) rcfg t1 t0 # post" and once: "armed_once A pre r post"
  obtains cfg peer js where "read_by post js"
    and "sink_effects A pre r (keys r) rcfg t1 t0 post = trace (entry_step A r) (Entry_new (keys r) rcfg t1 t0) js"
    and "tap_events r es = trace (tap_step A) (tap_new N r (keys r) cfg peer) (tap_inputs r ls)"
    and "authentic_to_sink A (keys r) js
      (us_sent (sd_socket (final (tap_step A) (tap_new N r (keys r) cfg peer) (tap_inputs r ls))))"
    and "session_of A r post (Entry_new (keys r) rcfg t1 t0) js"
proof -
  have ran: "parts_ran A N keys ls es w" and ok: "wire_ok A keys es w" using world_invariant [OF A w] by auto
  obtain js where js: "session_of A r post (Entry_new (keys r) rcfg t1 t0) js" "read_by post js"
    "sink_effects A pre r (keys r) rcfg t1 t0 post = trace (entry_step A r) (Entry_new (keys r) rcfg t1 t0) js"
    by (rule sink_session [OF once])
  have rd: "read_by (sink_inputs ls) js" using js(2) unfolding ls read_by_def by fastforce
  have mine: "request_id_of d = Inr r" if mem: "EDatagram d src now env \<in> set js" for d src now env
  proof -
    have "set js \<subseteq> (\<Union>i \<in> set post. set (addressed r i))" using js(1) by (simp add: session_of_def)
    then obtain i where "EDatagram d src now env \<in> set (addressed r i)" using mem by blast
    then show ?thesis by (cases i) (auto split: if_splits)
  qed
  obtain cfg peer where tap: "tap_events r es = trace (tap_step A) (tap_new N r (keys r) cfg peer) (tap_inputs r ls)"
    "\<forall>sd. wd_taps w r = Some sd \<longrightarrow> sd = final (tap_step A) (tap_new N r (keys r) cfg peer) (tap_inputs r ls)"
    by (rule world_tap [OF ran, of r])
  have "authentic_to_sink A (keys r) js
      (us_sent (sd_socket (final (tap_step A) (tap_new N r (keys r) cfg peer) (tap_inputs r ls))))"
    using world_authentic_to_sink [OF A ran ok rd] mine tap(2) unfolding authentic_to_sink_def by blast
  then show thesis by (rule that [OF js(2,3) tap(1) _ js(1)])
qed

text \<open>What a tap opens is a reply of the sink, and of its own request if keys are not shared.\<close>

lemma world_authentic_to_tap:
  assumes A: "aead_correct A" and w: "world_runs A N keys ls es w"
    and sep: "\<And>r' d. d \<in> set (replies (effects_of r' (sink_events es))) \<Longrightarrow> is_ok (open_body A (keys r) Dir_Recv d) \<Longrightarrow> r' = r"
  shows "authentic_to_tap A (keys r) (tap_inputs r ls) (replies (effects_of r (sink_events es)))"
  unfolding authentic_to_tap_def
proof (intro allI impI, elim conjE)
  fix inp d assume inp: "TapPump inp \<in> set (tap_inputs r ls)" "pi_answer inp = Received d"
    and opens: "is_ok (open_body A (keys r) Dir_Recv d)"
  have ran: "parts_ran A N keys ls es w" and ok: "wire_ok A keys es w" using world_invariant [OF A w] by auto
  have "tap_gets (wd_wire w) (TapPump inp)" using ran inp(1) unfolding parts_ran_def by blast
  then obtain d0 where "d0 \<in> wd_wire w" "d = read_from d0" using inp(2) by auto
  then have "genuine A keys (wd_taps w) (sink_events es) d" using ok opens unfolding wire_ok_def by blast
  then consider r' sd where "wd_taps w r' = Some sd" "d \<in> set (us_sent (sd_socket sd))"
    | r' where "sealed_by A (keys r') r' d" "d \<in> set (replies (effects_of r' (sink_events es)))" unfolding genuine_def by blast
  then show "d \<in> set (replies (effects_of r (sink_events es)))"
  proof cases
    case 1
    have "tap_ran A N keys r' (tap_inputs r' ls) (tap_events r' es) (Some sd)" using ran 1(1) by (metis parts_ran_def)
    from tap_sent_parses(2) [OF A this 1(2) opens] show ?thesis by simp
  next
    case 2
    then show ?thesis using sep [OF 2(2) opens] by simp
  qed
qed

lemma effects_since_armed:
  assumes "run (endpoint_step A) Map.empty (pre @ EpArm r key rcfg t1 t0 # post) = (ep, es)" and "\<not> rearmed r pre"
  shows "effects_of r es = sink_effects A pre r key rcfg t1 t0 post"
proof -
  have es: "es = trace (endpoint_step A) Map.empty pre
      @ trace (endpoint_step A) (final (endpoint_step A) Map.empty pre) (EpArm r key rcfg t1 t0 # post)"
    using assms(1) unfolding run_append by (simp add: split_beta)
  have "effects_of r (trace (endpoint_step A) Map.empty pre) = []"
    using slot_run [of A r pre] slot_empty [OF assms(2), of A] by simp
  then show ?thesis unfolding es effects_of_append sink_effects_def by simp
qed

text \<open>A packet of a request, read by the sink.\<close>

definition read_for :: "aead \<Rightarrow> SessionKey \<Rightarrow> RequestId \<Rightarrow> EpInput list \<Rightarrow> XferSeq \<Rightarrow> Body \<Rightarrow> bool" where
  "read_for A key r ins s b \<longleftrightarrow> (\<exists>d src now env h. EpRead d src now env \<in> set ins
     \<and> open_body A key Dir_Send (read_from d) = Inr (h, b) \<and> hdr_seq h = s \<and> hdr_request_id h = r)"

lemma read_for_addressed:
  assumes "read_for A key r ins s b"
  shows "arrived_from A key (concat (map (addressed r) ins)) s b"
proof -
  obtain d src now env h where d: "EpRead d src now env \<in> set ins"
    "open_body A key Dir_Send (read_from d) = Inr (h, b)" "hdr_seq h = s" "hdr_request_id h = r"
    using assms unfolding read_for_def by blast
  then have "request_id_of (read_from d) = Inr r" using open_routes by (fastforce simp: open_body_Inr_iff)
  then have "EDatagram (read_from d) src now env \<in> set (concat (map (addressed r) ins))"
    using d(1) by (auto intro!: bexI [of _ "EpRead d src now env"])
  then show ?thesis using d unfolding arrived_from_def by blast
qed

section \<open>Properties\<close>

text \<open>
  C2: in every reachable state of the installation, with any number of taps and transfers, and
  whatever was lost, repeated, reordered or put on the wire by somebody without the keys, the
  frames delivered on the reliable stream of a request are, byte for byte and in order, a prefix of
  the frames the tap of that very request was given.
\<close>

theorem world_delivers_prefix:
  assumes "aead_correct A" and "request_id_wf r" and "world_runs A N keys ls es w"
    and "sink_inputs ls = pre @ EpArm r (keys r) rcfg t1 t0 # post" and "armed_once A pre r post"
    and "length (tap_frames (tap_events r es)) < 2 ^ 32 - 1"
    and "stays_closed (sink_effects A pre r (keys r) rcfg t1 t0 post)"
  shows "prefix (map frame_data (to_rel (sink_effects A pre r (keys r) rcfg t1 t0 post))) (tap_frames (tap_events r es))"
proof (rule world_session [OF assms(1,3-5)])
  fix cfg peer js
  assume eff: "sink_effects A pre r (keys r) rcfg t1 t0 post = trace (entry_step A r) (Entry_new (keys r) rcfg t1 t0) js"
    and tap: "tap_events r es = trace (tap_step A) (tap_new N r (keys r) cfg peer) (tap_inputs r ls)"
    and auth: "authentic_to_sink A (keys r) js
      (us_sent (sd_socket (final (tap_step A) (tap_new N r (keys r) cfg peer) (tap_inputs r ls))))"
  show ?thesis unfolding eff tap
    by (rule entry_delivers_prefix [OF assms(1,2) auth]) (use assms(6,7) eff tap in simp_all)
qed

text \<open>
  C1: in every such state, when the sink has reported \<open>Complete\<close> for a request and its application has
  refused no frame, it has been given exactly the frames of that request's tap.
\<close>

theorem world_complete_is_exact:
  assumes "aead_correct A" and "request_id_wf r" and "world_runs A N keys ls es w"
    and "sink_inputs ls = pre @ EpArm r (keys r) rcfg t1 t0 # post" and "armed_once A pre r post"
    and "length (tap_frames (tap_events r es)) < 2 ^ 32 - 1"
    and "Complete n \<in> set (reported (sink_effects A pre r (keys r) rcfg t1 t0 post))"
    and "\<And>f. RelRefused f \<notin> set (sink_effects A pre r (keys r) rcfg t1 t0 post)"
  shows "map frame_data (to_rel (sink_effects A pre r (keys r) rcfg t1 t0 post)) = tap_frames (tap_events r es)"
proof (rule world_session [OF assms(1,3-5)])
  fix cfg peer js
  assume eff: "sink_effects A pre r (keys r) rcfg t1 t0 post = trace (entry_step A r) (Entry_new (keys r) rcfg t1 t0) js"
    and tap: "tap_events r es = trace (tap_step A) (tap_new N r (keys r) cfg peer) (tap_inputs r ls)"
    and auth: "authentic_to_sink A (keys r) js
      (us_sent (sd_socket (final (tap_step A) (tap_new N r (keys r) cfg peer) (tap_inputs r ls))))"
  show ?thesis unfolding eff tap
    by (rule entry_complete_exact [OF assms(1,2) auth]) (use assms(6-8) eff tap in auto)
qed

text \<open>
  C10: in every such state, when a tap has opened an \<open>EndAck\<close> (which is what lets \<open>finish\<close> return), every
  frame it has emitted has been read by the sink under its number.  Here no reply of the sink for
  another request may open under this request's key: a tap does not compare the request id of a
  reply with its own.
\<close>

theorem world_end_ack_means_all_arrived:
  assumes "aead_correct A" and "request_id_wf r" and "world_runs A N keys ls es w"
    and "sink_inputs ls = pre @ EpArm r (keys r) rcfg t1 t0 # post" and "armed_once A pre r post" and "\<not> rearmed r pre"
    and "length (tap_frames (tap_events r es)) < 2 ^ 32 - 1"
    and "\<And>r' d. d \<in> set (replies (effects_of r' (sink_events es))) \<Longrightarrow> is_ok (open_body A (keys r) Dir_Recv d) \<Longrightarrow> r' = r"
    and "opened_by A (keys r) (tap_inputs r ls) B_EndAck" and "(s, b) \<in> set (data_emits (tap_events r es))"
  shows "read_packet A (keys r) post s b"
proof (rule world_session [OF assms(1,3-5)])
  fix cfg peer js
  assume rd: "read_by post js"
    and eff: "sink_effects A pre r (keys r) rcfg t1 t0 post = trace (entry_step A r) (Entry_new (keys r) rcfg t1 t0) js"
    and tap: "tap_events r es = trace (tap_step A) (tap_new N r (keys r) cfg peer) (tap_inputs r ls)"
    and auth: "authentic_to_sink A (keys r) js
      (us_sent (sd_socket (final (tap_step A) (tap_new N r (keys r) cfg peer) (tap_inputs r ls))))"
  have "run (endpoint_step A) Map.empty (sink_inputs ls) = (wd_sink w, sink_events es)"
    using world_invariant [OF assms(1,3)] by (simp add: parts_ran_def)
  then have "effects_of r (sink_events es) = trace (entry_step A r) (Entry_new (keys r) rcfg t1 t0) js"
    using effects_since_armed [OF _ assms(6)] eff unfolding assms(4) by simp
  then have answer: "authentic_to_tap A (keys r) (tap_inputs r ls) (replies (trace (entry_step A r) (Entry_new (keys r) rcfg t1 t0) js))"
    using world_authentic_to_tap [OF assms(1,3,8)] by simp
  have "arrived_from A (keys r) js s b"
    by (rule entry_end_ack [OF assms(1,2) auth answer]) (use assms(7,9,10) tap in simp_all)
  then show ?thesis by (rule read_by_packet [OF rd])
qed

text \<open>
  C11: in every such state, when everything the tap of a request has emitted, its \<open>End\<close> included, has been
  read by the sink from when the request was armed, in any order, any number of times and among
  the traffic of other transfers, and the request has not been dropped, the sink has reported
  completion with the tap's number of frames, unless it had given up before.
\<close>

theorem world_full_delivery_completes:
  assumes "aead_correct A" and "request_id_wf r" and "world_runs A N keys ls es w"
    and "sink_inputs ls = pre @ EpArm r (keys r) rcfg t1 t0 # post" and "armed_once A pre r post"
    and "length (tap_frames (tap_events r es)) < 2 ^ 32 - 1"
    and "\<And>s b. Emit s b \<in> set (tap_events r es) \<Longrightarrow> read_for A (keys r) r post s b" and "ends (tap_events r es) \<noteq> []"
    and "\<And>i. i \<in> set post \<Longrightarrow> \<not> gives_up r i"
    and "\<And>x. Aborted x \<notin> set (reported (sink_effects A pre r (keys r) rcfg t1 t0 post))"
  shows "\<exists>n. reported (sink_effects A pre r (keys r) rcfg t1 t0 post) = [Complete n]
    \<and> unat n = length (tap_frames (tap_events r es))"
proof (rule world_session [OF assms(1,3-5)])
  let ?e = "Entry_new (keys r) rcfg t1 t0"
  fix cfg peer js
  assume eff: "sink_effects A pre r (keys r) rcfg t1 t0 post = trace (entry_step A r) ?e js"
    and tap: "tap_events r es = trace (tap_step A) (tap_new N r (keys r) cfg peer) (tap_inputs r ls)"
    and auth: "authentic_to_sink A (keys r) js
      (us_sent (sd_socket (final (tap_step A) (tap_new N r (keys r) cfg peer) (tap_inputs r ls))))"
    and sess: "session_of A r post ?e js"
  note short = assms(6) [unfolded tap] and alive = assms(10) [unfolded eff]
  show ?thesis
  proof (cases "final (slot_step A r) (Some ?e) post")
    case None
    then have "rx_closed (en_state (final (entry_step A r) ?e js))"
      using sess assms(9) by (auto simp: session_of_def)
    from entry_closed_reports [OF assms(1,2) auth short this alive] show ?thesis unfolding eff tap .
  next
    case (Some e')
    then have "js = concat (map (addressed r) post)" using sess by (simp add: session_of_def)
    then have "arrived_from A (keys r) js s b" if "Emit s b \<in> set (tap_events r es)" for s b
      using read_for_addressed [OF assms(7) [OF that]] by simp
    from entry_completes [OF assms(1,2) auth short this [unfolded tap] assms(8) [unfolded tap] alive]
    show ?thesis unfolding eff tap .
  qed
qed

section \<open>An instance\<close>

text \<open>A stretch of a run in which only one tap, or only the sink, moves and reads what is on the wire already.\<close>

lemma tap_history_map [simp]:
  "tap_inputs r (map (WTap r') is) = (if r' = r then is else [])" "sink_inputs (map (WTap r') is) = []"
  by (induction "is") auto

lemma sink_history_map [simp]: "tap_inputs r (map WSink is) = []" "sink_inputs (map WSink is) = is"
  by (induction "is") simp_all

lemma world_tap_stretch:
  assumes "world_runs A N keys ls es w" and "wd_taps w r = Some sd" and "\<forall>i \<in> set is. tap_gets (wd_wire w) i"
    and "set (us_sent (sd_socket sd)) \<subseteq> wd_wire w"
  shows "\<exists>w'. world_runs A N keys (ls @ map (WTap r) is) (es @ map (FromTap r) (trace (tap_step A) sd is)) w'
    \<and> wd_taps w' r = Some (final (tap_step A) sd is) \<and> wd_sink w' = wd_sink w \<and> wd_wire w \<subseteq> wd_wire w'
    \<and> set (us_sent (sd_socket (final (tap_step A) sd is))) \<subseteq> wd_wire w'"
  using assms
proof (induction "is" arbitrary: ls es w sd)
  case (Cons i "is")
  obtain sd1 es1 where i: "tap_step A sd i = (sd1, es1)" by force
  let ?w = "w\<lparr>wd_taps := (wd_taps w)(r \<mapsto> sd1), wd_wire := wd_wire w \<union> set (us_sent (sd_socket sd1))\<rparr>"
  have "world_step A N keys w (WTap r i) (map (FromTap r) es1) ?w" by (rule world_step.tap) (use Cons.prems i in auto)
  with Cons.prems(1) have "world_runs A N keys (ls @ [WTap r i]) (es @ map (FromTap r) es1) ?w" by (rule runs_snoc)
  moreover have "\<forall>j \<in> set is. tap_gets (wd_wire ?w) j" using Cons.prems(3) by (auto intro: tap_gets_mono)
  ultimately obtain w' where "world_runs A N keys ((ls @ [WTap r i]) @ map (WTap r) is)
      ((es @ map (FromTap r) es1) @ map (FromTap r) (trace (tap_step A) sd1 is)) w'"
    "wd_taps w' r = Some (final (tap_step A) sd1 is)" "wd_sink w' = wd_sink w" "wd_wire ?w \<subseteq> wd_wire w'"
    "set (us_sent (sd_socket (final (tap_step A) sd1 is))) \<subseteq> wd_wire w'"
    using Cons.IH [of "ls @ [WTap r i]" "es @ map (FromTap r) es1" ?w sd1] by auto
  then show ?case using i by (intro exI [of _ w']) (auto simp: split_beta)
qed auto

lemma world_sink_stretch:
  assumes "world_runs A N keys ls es w" and "\<forall>i \<in> set is. sink_gets keys (wd_wire w) i"
  shows "\<exists>w'. world_runs A N keys (ls @ map WSink is) (es @ map FromSink (trace (endpoint_step A) (wd_sink w) is)) w'
    \<and> wd_taps w' = wd_taps w \<and> wd_wire w \<subseteq> wd_wire w' \<and> sent_by (trace (endpoint_step A) (wd_sink w) is) \<subseteq> wd_wire w'"
  using assms
proof (induction "is" arbitrary: ls es w)
  case (Cons i "is")
  obtain ep es1 where i: "endpoint_step A (wd_sink w) i = (ep, es1)" by force
  let ?w = "w\<lparr>wd_sink := ep, wd_wire := wd_wire w \<union> sent_by es1\<rparr>"
  have "world_step A N keys w (WSink i) (map FromSink es1) ?w" by (rule world_step.sink) (use Cons.prems i in auto)
  with Cons.prems(1) have "world_runs A N keys (ls @ [WSink i]) (es @ map FromSink es1) ?w" by (rule runs_snoc)
  moreover have "\<forall>j \<in> set is. sink_gets keys (wd_wire ?w) j" using Cons.prems(2) by (auto intro: sink_gets_mono)
  ultimately obtain w' where "world_runs A N keys ((ls @ [WSink i]) @ map WSink is)
      ((es @ map FromSink es1) @ map FromSink (trace (endpoint_step A) ep is)) w'"
    "wd_taps w' = wd_taps w" "wd_wire ?w \<subseteq> wd_wire w'" "sent_by (trace (endpoint_step A) ep is) \<subseteq> wd_wire w'"
    using Cons.IH [of "ls @ [WSink i]" "es @ map FromSink es1" ?w] by auto
  then show ?case using i by (intro exI [of _ w']) (auto simp: split_beta sent_by_def)
qed (auto simp: sent_by_def)


text \<open>The example transfer, with something meaningless on the wire and another request before it.\<close>

definition demo_sink_run :: "EpInput list" where
  "demo_sink_run = demo_before @ EpArm demo_id demo_key audio_engine 0 0 # demo_reads"

definition demo_world :: "WorldInput list" where
  "demo_world = [WInject [], WStart demo_id SenderConfig_default (V4 [127, 0, 0, 1] 9000)]
     @ map (WTap demo_id) demo_tap_run @ map WSink demo_sink_run
     @ map (WTap demo_id) [TapPump \<lparr>pi_answer = Received (demo_sealed Dir_Recv 0 B_EndAck []), pi_handle_at = 6, pi_tick_at = 6\<rparr>]"

lemma demo_history: "sink_inputs demo_world = demo_sink_run" "tap_inputs demo_id demo_world = demo_tap_run'"
  by (simp_all add: demo_world_def demo_tap_run'_def)

lemma demo_replied: "demo_sealed Dir_Recv 0 B_EndAck [] \<in> sent_by (trace (endpoint_step demo_aead) Map.empty demo_sink_run)"
proof -
  have "final (endpoint_step demo_aead) Map.empty demo_before = Map.empty"
    by (simp add: demo_before_def arm_def ArmedRequest_drop_def disarm_def)
  then show ?thesis using demo_seal [of B_EndAck 0 Dir_Recv]
    by (auto simp: sent_by_def demo_sink_run_def trace_append demo_reads_def demo_wire_eq demo_wire_reads arm_def
        on_datagram_locked_def ep_events_def entry_datagram_eq demo_wire_opens Entry_new_def rx_eval apply_one_def
        reply_with_def Entry_seal_def ControlSeq_FIRST_def Let_def simp del: to_be.simps)
qed

lemma demo_world_opens:
  "\<exists>w. world_runs demo_aead quiet_net (\<lambda>_. demo_key)
     [WInject [], WStart demo_id SenderConfig_default (V4 [127, 0, 0, 1] 9000)] [] w
     \<and> wd_taps w demo_id = Some demo_tap \<and> wd_sink w = Map.empty"
proof -
  let ?K = "\<lambda>_ :: RequestId. demo_key"
  let ?junk = "World_new\<lparr>wd_wire := {[]}\<rparr>"
  let ?w = "?junk\<lparr>wd_taps := [demo_id \<mapsto> demo_tap]\<rparr>"
  have "\<not> is_ok (open_body demo_aead key dir (read_from []))" for key dir
    by (simp add: read_from_def open_body_def crypto_open_def Header_parse_def HEADER_LEN_def)
  then have "world_step demo_aead quiet_net ?K World_new (WInject []) [] ?junk"
    using world_step.inject [of demo_aead ?K World_new "[]" quiet_net] by (simp add: harmless_def World_new_def)
  then have "world_runs demo_aead quiet_net ?K [WInject []] [] ?junk" using runs_snoc [OF runs_nil] by fastforce
  moreover have "world_step demo_aead quiet_net ?K ?junk (WStart demo_id SenderConfig_default (V4 [127, 0, 0, 1] 9000)) [] ?w"
    using world_step.start [of ?junk demo_id demo_aead quiet_net ?K] by (simp add: World_new_def)
  ultimately have "world_runs demo_aead quiet_net ?K [WInject [], WStart demo_id SenderConfig_default (V4 [127, 0, 0, 1] 9000)] [] ?w"
    using runs_snoc by fastforce
  then show ?thesis by (intro exI [of _ ?w]) (simp add: World_new_def)
qed

lemma demo_world_runs:
  obtains es w where "world_runs demo_aead quiet_net (\<lambda>_. demo_key) demo_world es w"
    and "tap_events demo_id es = trace (tap_step demo_aead) demo_tap demo_tap_run'"
    and "sink_events es = trace (endpoint_step demo_aead) Map.empty demo_sink_run"
proof -
  let ?K = "\<lambda>_ :: RequestId. demo_key" and ?A = demo_aead
  let ?opening = "[WInject [], WStart demo_id SenderConfig_default (V4 [127, 0, 0, 1] 9000)]"
    and ?ack = "TapPump \<lparr>pi_answer = Received (demo_sealed Dir_Recv 0 B_EndAck []), pi_handle_at = 6, pi_tick_at = 6\<rparr>"
    and ?sd = "final (tap_step demo_aead) demo_tap demo_tap_run"
  obtain w1 where w1: "world_runs ?A quiet_net ?K ?opening [] w1" "wd_taps w1 demo_id = Some demo_tap" "wd_sink w1 = Map.empty"
    using demo_world_opens by blast
  obtain w2 where w2: "world_runs ?A quiet_net ?K (?opening @ map (WTap demo_id) demo_tap_run)
      ([] @ map (FromTap demo_id) (trace (tap_step ?A) demo_tap demo_tap_run)) w2"
    "wd_taps w2 demo_id = Some ?sd" "wd_sink w2 = Map.empty" "set demo_wire \<subseteq> wd_wire w2"
    using world_tap_stretch [OF w1(1,2), of demo_tap_run] w1(3)
    by (auto simp: demo_tap_run_def demo_wire_def tap_new_def UdpSocket_new_def)
  have "\<forall>i \<in> set demo_sink_run. sink_gets ?K (wd_wire w2) i"
    using w2(4) by (auto simp: demo_sink_run_def demo_before_def demo_reads_def request_id_wf_def RequestId_LEN_def demo_id_def)
  from world_sink_stretch [OF w2(1) this] obtain w3 where
    w3: "world_runs ?A quiet_net ?K ((?opening @ map (WTap demo_id) demo_tap_run) @ map WSink demo_sink_run)
      (([] @ map (FromTap demo_id) (trace (tap_step ?A) demo_tap demo_tap_run))
        @ map FromSink (trace (endpoint_step ?A) Map.empty demo_sink_run)) w3"
    "wd_taps w3 demo_id = Some ?sd" "set (us_sent (sd_socket ?sd)) \<subseteq> wd_wire w3"
    and ack: "demo_sealed Dir_Recv 0 B_EndAck [] \<in> wd_wire w3"
    using demo_replied w2(2-4) unfolding demo_wire_def by auto
  have "read_from (demo_sealed Dir_Recv 0 B_EndAck []) = demo_sealed Dir_Recv 0 B_EndAck []"
    using demo_length [of B_EndAck "[]" Dir_Recv 0] by (simp add: read_from_def READ_BUF_def)
  then have "\<forall>i \<in> set [?ack]. tap_gets (wd_wire w3) i" using ack by (auto intro: rev_image_eqI)
  from world_tap_stretch [OF w3(1,2) this w3(3)] show thesis
    by (auto simp: demo_world_def demo_tap_run'_def trace_append intro!: that)
qed

text \<open>The sink replies to nobody else.\<close>

lemma demo_replies_to_one:
  assumes "d \<in> set (replies (effects_of r (trace (endpoint_step demo_aead) Map.empty demo_sink_run)))"
  shows "r = demo_id"
proof (rule ccontr)
  assume "r \<noteq> demo_id"
  then have "trace (slot_step demo_aead r) None demo_sink_run = []"
    by (auto simp: demo_sink_run_def demo_before_def demo_reads_def demo_wire_eq demo_wire_reads simp del: to_be.simps)
  then show False using assms slot_run [of demo_aead r demo_sink_run] by simp
qed

theorem world_delivers_prefix_witness:
  "prefix [(0, [1])] (tap_frames (trace (tap_step demo_aead) demo_tap demo_tap_run'))"
proof (rule demo_world_runs)
  fix es w assume w: "world_runs demo_aead quiet_net (\<lambda>_. demo_key) demo_world es w"
    and tap: "tap_events demo_id es = trace (tap_step demo_aead) demo_tap demo_tap_run'"
  from world_delivers_prefix [OF demo_aead_correct demo_id_wf w demo_history(1) [unfolded demo_sink_run_def] demo_armed_once]
  show ?thesis unfolding tap demo_sink_effects by (simp add: demo_acked tap_frames_def frame_data_def)
qed

theorem world_complete_is_exact_witness:
  "[(0, [1])] = tap_frames (trace (tap_step demo_aead) demo_tap demo_tap_run')"
proof (rule demo_world_runs)
  fix es w assume w: "world_runs demo_aead quiet_net (\<lambda>_. demo_key) demo_world es w"
    and tap: "tap_events demo_id es = trace (tap_step demo_aead) demo_tap demo_tap_run'"
  from world_complete_is_exact [OF demo_aead_correct demo_id_wf w demo_history(1) [unfolded demo_sink_run_def] demo_armed_once, of 1]
  show ?thesis unfolding tap demo_sink_effects by (simp add: demo_acked tap_frames_def frame_data_def)
qed

theorem world_end_ack_means_all_arrived_witness:
  "read_packet demo_aead demo_key demo_reads 1 (B_Data 0 [1])"
proof (rule demo_world_runs)
  fix es w assume w: "world_runs demo_aead quiet_net (\<lambda>_. demo_key) demo_world es w"
    and tap: "tap_events demo_id es = trace (tap_step demo_aead) demo_tap demo_tap_run'"
    and sink: "sink_events es = trace (endpoint_step demo_aead) Map.empty demo_sink_run"
  have "\<not> rearmed demo_id demo_before" using demo_other_id by (auto simp: rearmed_def demo_before_def)
  from world_end_ack_means_all_arrived [OF demo_aead_correct demo_id_wf w demo_history(1) [unfolded demo_sink_run_def] demo_armed_once this]
  show ?thesis unfolding tap sink demo_history(2)
    by (simp add: demo_acked tap_frames_def demo_replies_to_one demo_opened)
qed

theorem world_full_delivery_completes_witness:
  "\<exists>n. reported (sink_effects demo_aead demo_before demo_id demo_key audio_engine 0 0 demo_reads) = [Complete n]
     \<and> unat n = length (tap_frames (trace (tap_step demo_aead) demo_tap demo_tap_run'))"
proof (rule demo_world_runs)
  fix es w assume w: "world_runs demo_aead quiet_net (\<lambda>_. demo_key) demo_world es w"
    and tap: "tap_events demo_id es = trace (tap_step demo_aead) demo_tap demo_tap_run'"
  have rd: "read_for demo_aead demo_key demo_id demo_reads s b"
    if "d \<in> set demo_wire" "read_from d = d" "open_body demo_aead demo_key Dir_Send d = Inr (h, b)" "hdr_seq h = s" "hdr_request_id h = demo_id" for d h s b
    unfolding read_for_def
    by (intro exI [of _ d] exI [of _ "V4 [10, 0, 0, 1] 7"] exI [of _ 5] exI [of _ "\<lambda>_. (5, True)"] exI [of _ h])
      (use that in \<open>auto simp: demo_reads_def\<close>)
  have "read_for demo_aead demo_key demo_id demo_reads s b" if "Emit s b \<in> set (tap_events demo_id es)" for s b
    using that rd [OF _ demo_wire_reads(1)] rd [OF _ demo_wire_reads(2)] unfolding tap demo_acked
    by (auto simp: demo_wire_eq demo_wire_opens simp del: to_be.simps)
  moreover have "\<not> gives_up demo_id i" if "i \<in> set demo_reads" for i using that by (auto simp: demo_reads_def)
  ultimately show ?thesis
    using world_full_delivery_completes [OF demo_aead_correct demo_id_wf w demo_history(1) [unfolded demo_sink_run_def] demo_armed_once]
    unfolding tap demo_sink_effects by (simp add: demo_acked tap_frames_def)
qed

end
