(* ===== verification/Pf4_Nonces.thy ===== *)
theory Pf4_Nonces
  imports Pf4_World Pf4_Recovery
begin

text \<open>
  The cipher is only safe while no nonce is used twice under a key.  Tap and sink seal under the same
  key: the tap under the numbers of its payload frames and its control packets, the sink under the
  control numbers of its replies.  Over a whole session, in any reachable state of the
  installation, all of these nonces are different.
\<close>

section \<open>The replies of an entry are numbered in turn\<close>

definition in_turn :: "aead \<Rightarrow> SessionKey \<Rightarrow> RequestId \<Rightarrow> bytes list \<Rightarrow> bool" where
  "in_turn A key rid ds \<longleftrightarrow> (\<forall>k < length ds. \<exists>b. sink_sealed A key rid (k, b) (ds ! k)
     \<and> PacketKind_direction (Body_kind b) = Dir_Recv)"

definition counted :: "aead \<Rightarrow> SessionKey \<Rightarrow> RequestId \<Rightarrow> bytes list \<Rightarrow> Entry \<Rightarrow> bool" where
  "counted A key rid ds e \<longleftrightarrow> en_key e = key \<and> en_control_seq e = of_nat (length ds) \<and> in_turn A key rid ds"

definition fits_a_reply :: "RecvEvent \<Rightarrow> bool" where
  "fits_a_reply ev \<longleftrightarrow> (case ev of SendNack m \<Rightarrow> length m \<le> MAX_NACK_ENTRIES | _ \<Rightarrow> True)"

lemma in_turn_snoc:
  assumes "in_turn A key rid ds" and "sink_sealed A key rid (length ds, b) d" and "PacketKind_direction (Body_kind b) = Dir_Recv"
  shows "in_turn A key rid (ds @ [d])"
  using assms by (auto simp: in_turn_def nth_append less_Suc_eq)

lemma reply_counted:
  assumes "aead_total A" and "counted A key rid ds e" and p: "encode_body b = Inr p" and dir: "PacketKind_direction (Body_kind b) = Dir_Recv"
  shows "counted A key rid (ds @ replies (snd (reply_with A e rid b))) (fst (reply_with A e rid b))"
proof -
  have "length p \<le> 1200" using length_encode_body [OF p] by (simp add: MAX_PAYLOAD_def)
  then have enc: "encrypt A k x a p \<noteq> None" for k x a using assms(1) by (simp add: aead_total_def)
  obtain n where n: "crypto_seal A (en_key e) (Header_new (Body_kind b) rid (en_control_seq e)) Dir_Recv p = Inr n"
    unfolding crypto_seal_Inr_iff using enc by (metis not_Some_eq)
  then have r: "reply_with A e rid b = (e\<lparr>en_control_seq := ControlSeq_next (en_control_seq e)\<rparr>, [Reply n])"
    using p by (simp add: reply_with_def Entry_seal_def Let_def)
  have "sink_sealed A key rid (length ds, b) n" using assms(2) p n by (simp add: counted_def sink_sealed_def)
  then show ?thesis unfolding r using assms(2) in_turn_snoc dir by (auto simp: counted_def ControlSeq_next_def add.commute)
qed

lemma apply_one_counted:
  assumes "aead_total A" and "counted A key rid ds e" and "fits_a_reply ev"
  shows "counted A key rid (ds @ replies (snd (apply_one A rid a e ev))) (fst (apply_one A rid a e ev))"
proof (cases ev)
  case (SendNack m)
  then have "\<exists>p. encode_body (B_Nack m) = Inr p" using assms(3) by (simp add: fits_a_reply_def del: to_be.simps)
  then show ?thesis using SendNack reply_counted [OF assms(1,2), of "B_Nack m"] by (auto simp: apply_one_def split_beta)
next
  case (SendAck c h ms)
  have "\<exists>p. encode_body (B_Ack c h ms') = Inr p" for ms' by (simp del: to_be.simps)
  then show ?thesis using SendAck reply_counted [OF assms(1,2), of "B_Ack c h _"] by (auto simp: apply_one_def split_beta)
next
  case SendEndAck
  then show ?thesis using reply_counted [OF assms(1,2), of B_EndAck] by (auto simp: apply_one_def split_beta)
qed (use assms(2) in \<open>simp_all add: apply_one_def counted_def split_beta Let_def\<close>)

lemma apply_events_counted:
  assumes "aead_total A" and "counted A key rid ds e" and "\<forall>ev \<in> set evs. fits_a_reply ev"
  shows "counted A key rid (ds @ replies (snd (apply_events A rid env e evs))) (fst (apply_events A rid env e evs))"
  using assms(2,3)
proof (induction evs arbitrary: env e ds)
  case (Cons ev evs)
  let ?r = "apply_one A rid (env 0) e ev"
  have "counted A key rid (ds @ replies (snd ?r)) (fst ?r)" using apply_one_counted [OF assms(1)] Cons.prems by simp
  from Cons.IH [OF this] Cons.prems show ?case by simp
qed simp


text \<open>Every request of a receiver fits a packet.\<close>

lemma recv_step_fits:
  assumes "rx = final recv_step (XferReceiver_new cfg t0) ris" and "ev \<in> set (snd (recv_step rx i))"
  shows "fits_a_reply ev"
proof (cases ev)
  case (SendNack m)
  have "nacks_ok (trace recv_step (XferReceiver_new cfg t0) (ris @ [i])) (final recv_step (XferReceiver_new cfg t0) (ris @ [i]))"
    by (rule nack_shape.holds)
  moreover have "m \<in> set (nack_lists (trace recv_step (XferReceiver_new cfg t0) (ris @ [i])))"
    using assms SendNack unfolding trace_snoc by (auto simp: nack_lists_def set_map_filter_iff intro!: bexI [of _ ev])
  ultimately show ?thesis using SendNack by (auto simp: fits_a_reply_def nacks_ok_def nack_ok_def list_all_iff)
qed (simp_all add: fits_a_reply_def)

lemma entry_step_counted:
  assumes A: "aead_total A" and e: "en_state e = final recv_step (XferReceiver_new cfg t0) ris" and "counted A key rid ds e"
  shows "counted A key rid (ds @ replies (snd (entry_step A rid e i))) (fst (entry_step A rid e i))"
proof -
  have upd: "counted A key rid ds (e\<lparr>en_state := st\<rparr>)" "counted A key rid ds (e\<lparr>en_peer := p, en_state := st\<rparr>)"
    "counted A key rid ds (e\<lparr>en_feedback := fb\<rparr>)" for st p fb using assms(3) by (simp_all add: counted_def)
  note fits = recv_step_fits [OF e]
  show ?thesis
  proof (cases i)
    case (EDatagram d src now env)
    have "\<forall>ev \<in> set (snd (recv_handle (en_state e) s b now)). fits_a_reply ev" for s b
      using fits [of _ "Packet s b now"] by simp
    then show ?thesis using EDatagram apply_events_counted [OF A upd(1)] apply_events_counted [OF A upd(2)] assms(3)
      by (auto simp: entry_datagram_eq split_beta Let_def split: sum.splits option.splits)
  next
    case (ETick now env)
    have "\<forall>ev \<in> set (snd (recv_tick (en_state e) now)). fits_a_reply ev" using fits [of _ "RTick now"] by simp
    then show ?thesis using ETick apply_events_counted [OF A upd(1)] by (simp add: entry_tick_def split_beta Let_def)
  next
    case (EPlayhead ms now)
    then show ?thesis using upd(3) by simp
  qed
qed

lemma entry_counted:
  assumes "aead_total A"
  shows "counted A key rid (replies (trace (entry_step A rid) (Entry_new key cfg t1 t0) js)) (final (entry_step A rid) (Entry_new key cfg t1 t0) js)"
proof (induction js rule: rev_induct)
  case Nil
  then show ?case by (simp add: counted_def in_turn_def Entry_new_def ControlSeq_FIRST_def)
next
  case (snoc i js)
  obtain ris where "en_state (final (entry_step A rid) (Entry_new key cfg t1 t0) js) = final recv_step (XferReceiver_new cfg t0) ris"
    using entry.holds [of A key rid cfg t0 js t1] unfolding entry_inv_def fed_def by blast
  from entry_step_counted [OF assms this snoc.IH] show ?case by (simp add: final_snoc trace_snoc del: entry_step.simps)
qed

section \<open>Nonces\<close>

text \<open>The nonce under which a datagram was sealed can be read off its header.\<close>

definition datagram_nonce :: "Direction \<Rightarrow> bytes \<Rightarrow> bytes option" where
  "datagram_nonce dir d =
     (case Header_parse d of
        Inl err \<Rightarrow> None
      | Inr (h, c) \<Rightarrow> Some (nonce_for dir (PacketKind_seq_class (hdr_kind h)) (hdr_seq h)))"

lemma in_turn_nonce:
  assumes "request_id_wf rid" and "in_turn A key rid ds" and "k < length ds"
  shows "datagram_nonce Dir_Recv (ds ! k) = Some (nonce_for Dir_Recv SC_Control (of_nat k))"
proof -
  obtain b p c where b: "PacketKind_direction (Body_kind b) = Dir_Recv" "ds ! k = Header_to_bytes (Header_new (Body_kind b) rid (of_nat k)) @ c"
    using assms(2,3) by (auto simp: in_turn_def sink_sealed_def crypto_seal_Inr_iff)
  then have "PacketKind_seq_class (Body_kind b) = SC_Control" by (cases b) (simp_all add: class_of_body PacketKind_seq_class_def)
  then show ?thesis using b(2) assms(1) by (simp add: datagram_nonce_def Header_parse_to_bytes)
qed

lemma reply_nonces:
  assumes "request_id_wf rid" and "in_turn A key rid ds" and "length ds \<le> 2 ^ 32"
  shows "distinct (map (datagram_nonce Dir_Recv) ds)"
    and "x \<in> set (map (datagram_nonce Dir_Recv) ds) \<Longrightarrow> \<exists>s. x = Some (nonce_for Dir_Recv SC_Control s)"
proof -
  have eq: "map (datagram_nonce Dir_Recv) ds = map (\<lambda>k. Some (nonce_for Dir_Recv SC_Control (of_nat k))) [0..<length ds]"
    by (rule nth_equalityI) (simp_all add: in_turn_nonce [OF assms(1,2)])
  have "inj_on (\<lambda>k. of_nat k :: u32) {0..<length ds}"
    using assms(3) by (auto simp: inj_on_def word_unat_eq_iff unat_of_nat)
  then show "distinct (map (datagram_nonce Dir_Recv) ds)"
    unfolding eq by (auto simp: distinct_map inj_on_def nonce_for_inj)
  show "x \<in> set (map (datagram_nonce Dir_Recv) ds) \<Longrightarrow> \<exists>s. x = Some (nonce_for Dir_Recv SC_Control s)"
    unfolding eq by auto
qed

lemma emit_nonces_dir: "x \<in> set (emit_nonces es) \<Longrightarrow> \<exists>c s. x = nonce_for Dir_Send c s"
  by (auto simp: emit_nonces_def)

section \<open>Properties\<close>

text \<open>
  C14: in every reachable state, no nonce has been used twice under the key of a session: the
  packets the tap of a request has sealed and the replies the sink has sealed for it, from when
  the request was armed, all have different nonces, within the range of the counters.
\<close>

theorem session_nonces_never_repeat:
  assumes "aead_correct A" and "aead_total A" and "request_id_wf r" and "world_runs A N keys ls es w"
    and "sink_inputs ls = pre @ EpArm r (keys r) rcfg t1 t0 # post" and "armed_once A pre r post"
    and "length (data_emits (tap_events r es)) \<le> 2 ^ 32 - 1" and "length (control_emits (tap_events r es)) < 2 ^ 32"
    and "length (replies (sink_effects A pre r (keys r) rcfg t1 t0 post)) \<le> 2 ^ 32"
  shows "distinct (map Some (emit_nonces (tap_events r es))
    @ map (datagram_nonce Dir_Recv) (replies (sink_effects A pre r (keys r) rcfg t1 t0 post)))"
proof (rule world_session [OF assms(1,4-6)])
  fix cfg peer js
  assume eff: "sink_effects A pre r (keys r) rcfg t1 t0 post = trace (entry_step A r) (Entry_new (keys r) rcfg t1 t0) js"
    and tap: "tap_events r es = trace (tap_step A) (tap_new N r (keys r) cfg peer) (tap_inputs r ls)"
  obtain "is" where "tap_events r es = trace send_step (XferSender_new cfg) is"
    using tap_run_drives [of A cfg "keys r" r "tap_inputs r ls" N peer] tap unfolding drives_def by auto
  then have "seq_inv (tap_events r es) (final send_step (XferSender_new cfg) is)" using seqs.holds by simp
  then have sent: "distinct (emit_nonces (tap_events r es))"
    using seq_inv_distinct assms(7,8) by (intro distinct_nonces) auto
  have "in_turn A (keys r) r (replies (sink_effects A pre r (keys r) rcfg t1 t0 post))"
    unfolding eff using entry_counted [OF assms(2)] by (simp add: counted_def)
  note rep = reply_nonces [OF assms(3) this assms(9)]
  show ?thesis using sent rep(1) rep(2) emit_nonces_dir
    by (fastforce simp: distinct_map nonce_for_inj)
qed

theorem session_nonces_never_repeat_witness:
  "distinct (map Some (emit_nonces (trace (tap_step demo_aead) demo_tap demo_tap_run'))
     @ map (datagram_nonce Dir_Recv) [demo_sealed Dir_Recv 0 B_EndAck []])"
proof (rule demo_world_runs)
  fix es w assume w: "world_runs demo_aead quiet_net (\<lambda>_. demo_key) demo_world es w"
    and tap: "tap_events demo_id es = trace (tap_step demo_aead) demo_tap demo_tap_run'"
  from session_nonces_never_repeat [OF demo_aead_correct demo_aead_total demo_id_wf w demo_history(1) [unfolded demo_sink_run_def] demo_armed_once]
  show ?thesis unfolding tap demo_sink_effects by (simp add: demo_acked)
qed

end
