(* ===== verification/Pf4_Endpoint_Sends.thy ===== *)
theory Pf4_Endpoint_Sends
  imports Pf4_Endpoint_Tasks
begin

text \<open>
  The tasks of an endpoint (\<open>protofish4/src/receiver.rs\<close>) down to the sends.  \<open>on_datagram\<close> and \<open>tick\<close> collect
  what they have to send while they hold the lock of the table and send it, one await per datagram,
  after \<open>drop(entries)\<close>: the sections of other tasks, and their sends, may come in between.
  \<open>Pf4_Endpoint_Tasks\<close> counts these datagrams to the step that leaves the section; here they wait in
  the task that will send them.  The lock is \<open>tokio\<close>'s mutex: while one task holds it no other gets it.
\<close>

section \<open>Sending after the lock was given up\<close>

fun is_sent :: "EpEvent \<Rightarrow> bool" where
  "is_sent (EpSent d peer) = True"
| "is_sent _ = False"

abbreviation sends :: "EpEvent list \<Rightarrow> EpEvent list" where
  "sends \<equiv> filter is_sent"

abbreviation others :: "EpEvent list \<Rightarrow> EpEvent list" where
  "others \<equiv> filter (\<lambda>ev. \<not> is_sent ev)"

text \<open>
  What the read loop still has to send before it reads again, and what each call of \<open>tick\<close> has to send.
\<close>

record Async =
  as_tasks :: Tasks
  as_replies :: "EpEvent list"
  as_outbound :: "EpEvent list list"

definition Async_new :: Async where
  "Async_new = \<lparr>as_tasks = Tasks_new, as_replies = [], as_outbound = []\<rparr>"

datatype AsyncInput = Section TaskInput | ReplySent | TickSent nat

fun reads_socket :: "TaskInput \<Rightarrow> bool" where
  "reads_socket (Take (EpRead d src now env)) = True"
| "reads_socket _ = False"

fun ticks :: "TaskInput \<Rightarrow> bool" where
  "ticks (Take (EpTick now env order)) = True"
| "ticks _ = False"

fun async_step :: "aead \<Rightarrow> Async \<Rightarrow> AsyncInput \<Rightarrow> (Async \<times> EpEvent list) option" where
  "async_step A a (Section i) =
     (if reads_socket i \<and> as_replies a \<noteq> [] then None
      else case task_step A (as_tasks a) i of
             None \<Rightarrow> None
           | Some (t, es) \<Rightarrow>
               Some (if ticks i then a\<lparr>as_tasks := t, as_outbound := as_outbound a @ [sends es]\<rparr>
                     else a\<lparr>as_tasks := t, as_replies := as_replies a @ sends es\<rparr>, others es))"
| "async_step A a ReplySent =
     (case as_replies a of [] \<Rightarrow> None | ev # evs \<Rightarrow> Some (a\<lparr>as_replies := evs\<rparr>, [ev]))"
| "async_step A a (TickSent k) =
     (if k < length (as_outbound a)
      then case as_outbound a ! k of
             [] \<Rightarrow> None
           | ev # evs \<Rightarrow> Some (a\<lparr>as_outbound := (as_outbound a)[k := evs]\<rparr>, [ev])
      else None)"

section \<open>Delayed sends add no behaviour\<close>

definition queued :: "Async \<Rightarrow> EpEvent multiset" where
  "queued a = mset (as_replies a) + mset (concat (as_outbound a))"

fun sections :: "AsyncInput list \<Rightarrow> TaskInput list" where
  "sections [] = []"
| "sections (Section i # is) = i # sections is"
| "sections (_ # is) = sections is"

lemma sections_append [simp]: "sections (is @ js) = sections is @ sections js"
  by (induction "is" rule: sections.induct) simp_all

lemma sends_others [simp]: "sends (others es) = []" "others (others es) = others es"
  by (induction es) simp_all

text \<open>Only sends wait.\<close>

definition only_sends :: "Async \<Rightarrow> bool" where
  "only_sends a \<longleftrightarrow> (\<forall>ev \<in># queued a. is_sent ev)"

lemma mset_concat_update:
  assumes "k < length xss" and "xss ! k = x # xs"
  shows "mset (concat (xss[k := xs])) = mset (concat xss) - {#x#}" and "x \<in># mset (concat xss)"
proof -
  have "xss = take k xss @ (x # xs) # drop (Suc k) xss" using assms by (metis id_take_nth_drop)
  moreover have "xss[k := xs] = take k xss @ xs # drop (Suc k) xss" using assms(1) by (rule upd_conv_take_nth_drop)
  ultimately have eq: "concat xss = concat (take k xss) @ x # xs @ concat (drop (Suc k) xss)"
    "concat (xss[k := xs]) = concat (take k xss) @ xs @ concat (drop (Suc k) xss)"
    by (metis concat.simps(2) concat_append append_Cons)+
  show "mset (concat (xss[k := xs])) = mset (concat xss) - {#x#}" "x \<in># mset (concat xss)"
    unfolding eq by simp_all
qed

text \<open>A step takes a section and queues its sends, or sends one datagram that was queued.\<close>

lemma async_step_cases:
  assumes "async_step A a i = Some (a', es)"
  obtains (locked) j fs where "i = Section j" and "task_step A (as_tasks a) j = Some (as_tasks a', fs)"
      and "es = others fs" and "queued a' = queued a + mset (sends fs)"
    | (sent) ev where "sections [i] = []" and "es = [ev]" and "as_tasks a' = as_tasks a" and "queued a = add_mset ev (queued a')"
proof (cases i)
  case (Section j)
  then obtain t fs where "task_step A (as_tasks a) j = Some (t, fs)"
    using assms by (auto split: if_splits option.splits)
  then show thesis using assms Section by (intro locked) (auto simp: queued_def split: if_splits)
next
  case ReplySent
  then obtain ev evs where "es = [ev]" "as_replies a = ev # evs" "a' = a\<lparr>as_replies := evs\<rparr>"
    using assms by (auto split: list.splits)
  then show thesis using ReplySent by (intro sent [of ev]) (auto simp: queued_def)
next
  case (TickSent k)
  then obtain ev evs where k: "k < length (as_outbound a)" "as_outbound a ! k = ev # evs" "es = [ev]"
    "a' = a\<lparr>as_outbound := (as_outbound a)[k := evs]\<rparr>"
    using assms by (auto split: if_splits list.splits)
  then show thesis using TickSent mset_concat_update [OF k(1,2)] by (intro sent [of ev]) (auto simp: queued_def)
qed

lemma sends_refine_tasks:
  assumes "run_opt (async_step A) Async_new is = Some (a, es)"
  shows "\<exists>fs. run_opt (task_step A) Tasks_new (sections is) = Some (as_tasks a, fs) \<and> others es = others fs
    \<and> mset (sends es) + queued a = mset (sends fs) \<and> only_sends a"
  using run_opt_runs [OF assms]
proof (induction rule: runs.induct)
  case runs_nil
  show ?case by (simp add: Async_new_def queued_def only_sends_def)
next
  case (runs_snoc "is" es a i es' a')
  then obtain fs where IH: "run_opt (task_step A) Tasks_new (sections is) = Some (as_tasks a, fs)" "others es = others fs"
    "mset (sends es) + queued a = mset (sends fs)" "only_sends a" by blast
  from runs_snoc.hyps(2) show ?case
  proof (cases rule: async_step_cases)
    case (locked j gs)
    then show ?thesis using IH by (intro exI [of _ "fs @ gs"]) (auto simp: run_opt_append only_sends_def ac_simps)
  next
    case (sent ev)
    then have "is_sent ev" using IH(4) by (simp add: only_sends_def)
    then show ?thesis using IH sent by (intro exI [of _ fs]) (auto simp: run_opt_append only_sends_def ac_simps)
  qed
qed


section \<open>A slow reader\<close>

text \<open>An entry but for what the application reports of its play head, which is shared outside the lock.\<close>

definition but_reports :: "Entry \<Rightarrow> Entry" where
  "but_reports e = e\<lparr>en_feedback := BufferFeedback_default 0\<rparr>"

lemma report_but_reports: "map_option but_reports (report r ms now t x) = map_option but_reports (t x)"
  by (simp add: report_def but_reports_def split: option.splits)

text \<open>A read that has a reliable frame to deliver ends up waiting for room, with the lock held.\<close>

lemma apply_until_waits: "Reliable f \<in> set evs \<Longrightarrow> snd (snd (apply_until A rid env e evs)) \<noteq> []"
proof (induction evs arbitrary: env e)
  case (Cons ev evs)
  then show ?case by (cases ev) (simp_all add: Let_def split_beta)
qed simp

lemma read_waits:
  assumes "async_step A a (Section (Take (EpRead d src now env))) = Some (a', es)"
    and "datagram_events A (tk_table (as_tasks a)) (read_from d) src now = Some (r, e, evs)" and "Reliable f \<in> set evs"
  shows "tk_lock (as_tasks a') \<noteq> None" and "queued a' = queued a"
proof -
  obtain t fs where t: "task_step A (as_tasks a) (Take (EpRead d src now env)) = Some (t, fs)" "as_tasks a' = t"
    "queued a' = queued a + mset (sends fs)"
    using assms(1) by (auto simp: queued_def split: if_splits option.splits)
  have p: "pass (tk_table (as_tasks a)) r [] [] (apply_until A r env e evs) = (t, fs)"
    using t(1) assms(2) by (auto split: option.splits)
  have rest: "snd (snd (apply_until A r env e evs)) \<noteq> []" by (rule apply_until_waits [OF assms(3)])
  have "sends (map (EpEffect r) x) = []" for x by (induction x) simp_all
  moreover have "tk_lock t \<noteq> None" "fs = map (EpEffect r) (fst (snd (apply_until A r env e evs)))"
    using p rest by (auto simp: pass_def Let_def split_beta)
  ultimately show "tk_lock (as_tasks a') \<noteq> None" "queued a' = queued a" using t(2,3) by simp_all
qed

fun is_report :: "TaskInput \<Rightarrow> bool" where
  "is_report (Take (EpPlayhead rid ms now)) = True"
| "is_report _ = False"

fun answered :: "AsyncInput \<Rightarrow> bool" where
  "answered (Section (Poll (Ready ok) env)) = True"
| "answered _ = False"

text \<open>While the lock is held and the channel has no room.\<close>

definition stands :: "Async \<Rightarrow> Async \<Rightarrow> EpEvent list \<Rightarrow> bool" where
  "stands a a' es \<longleftrightarrow> tk_lock (as_tasks a') \<noteq> None
     \<and> (\<forall>x. map_option but_reports (tk_table (as_tasks a') x) = map_option but_reports (tk_table (as_tasks a) x))
     \<and> mset es + queued a' = queued a"

lemma held_stands:
  assumes "tk_lock (as_tasks a) \<noteq> None" and "async_step A a i = Some (a', es)" and "\<not> answered i"
  shows "stands a a' es \<and> (\<forall>j. i = Section (Take j) \<longrightarrow> is_report (Take j))"
  using assms(2)
proof (cases rule: async_step_cases)
  case (locked j fs)
  have "fs = [] \<and> tk_lock (as_tasks a') \<noteq> None \<and> (\<forall>x. map_option but_reports (tk_table (as_tasks a') x)
      = map_option but_reports (tk_table (as_tasks a) x)) \<and> (\<forall>k. j = Take k \<longrightarrow> is_report j)"
  proof (cases j)
    case (Take k)
    then show ?thesis using locked(2) assms(1)
      by (cases k) (auto simp: endpoint_step_report report_but_reports simp del: endpoint_step.simps dest!: sym [of _ "as_tasks a'"])
  next
    case (Poll answer env)
    then show ?thesis using locked(1,2) assms(1,3) by (cases answer) auto
  qed
  then show ?thesis using locked by (auto simp: stands_def)
next
  case (sent ev)
  then show ?thesis using assms(1) by (auto simp: stands_def)
qed

lemma held_run_stands:
  assumes "tk_lock (as_tasks a) \<noteq> None" and "run_opt (async_step A) a js = Some (a', es)" and "\<forall>i \<in> set js. \<not> answered i"
  shows "stands a a' es \<and> (\<forall>j. Section (Take j) \<in> set js \<longrightarrow> is_report (Take j))"
  using assms
proof (induction js arbitrary: a es)
  case Nil
  then show ?case by (simp add: stands_def)
next
  case (Cons i js)
  then obtain a1 e1 e2 where step: "async_step A a i = Some (a1, e1)" and rest: "run_opt (async_step A) a1 js = Some (a', e2)"
    and es: "es = e1 @ e2" by (auto simp: run_opt_cons simp del: run_opt.simps)
  have h: "stands a a1 e1 \<and> (\<forall>j. i = Section (Take j) \<longrightarrow> is_report (Take j))"
    using held_stands [OF Cons.prems(1) step] Cons.prems(3) by simp
  then have "stands a1 a' e2 \<and> (\<forall>j. Section (Take j) \<in> set js \<longrightarrow> is_report (Take j))"
    using Cons.IH [OF _ rest] Cons.prems(3) by (simp add: stands_def)
  moreover from this h have "mset (e1 @ e2) + queued a' = queued a"
    unfolding stands_def mset_append by (metis add.assoc)
  ultimately show ?case using h unfolding es by (auto simp: stands_def)
qed

section \<open>Properties\<close>

text \<open>
  C39: one reader that does not drain its reliable stream stops the whole endpoint.  A datagram is read
  that opens for an armed request and releases a reliable frame; from then on, until that
  request's reliable channel answers, no task of the endpoint takes a datagram, a tick, an arming or a
  disarming, for whatever request: only play heads are still reported.  No entry of any transfer
  changes otherwise, and nothing is handed to any application; all that can still be seen are
  sends, of datagrams that were already waiting to be sent when the datagram was read.
\<close>

theorem slow_reader_stops_endpoint:
  assumes "run_opt (async_step A) Async_new is = Some (a, es)"
    and "async_step A a (Section (Take (EpRead d src now env))) = Some (a1, es1)"
    and "datagram_events A (tk_table (as_tasks a)) (read_from d) src now = Some (r, e, evs)" and "Reliable f \<in> set evs"
    and "run_opt (async_step A) a1 js = Some (a2, es2)" and "\<forall>i \<in> set js. \<not> answered i"
  shows "(\<forall>j. Section (Take j) \<in> set js \<longrightarrow> is_report (Take j))
    \<and> (\<forall>x. map_option but_reports (tk_table (as_tasks a2) x) = map_option but_reports (tk_table (as_tasks a1) x))
    \<and> (\<forall>ev \<in> set es2. is_sent ev) \<and> mset es2 + queued a2 = queued a"
proof -
  note w = read_waits [OF assms(2-4)]
  have h: "stands a1 a2 es2" "\<forall>j. Section (Take j) \<in> set js \<longrightarrow> is_report (Take j)"
    using held_run_stands [OF w(1) assms(5,6)] by auto
  have "set_mset (mset es2) \<subseteq> set_mset (queued a)" using h(1) w(2) unfolding stands_def by (metis mset_subset_eq_add_left set_mset_mono)
  moreover have "only_sends a" using sends_refine_tasks [OF assms(1)] by blast
  ultimately show ?thesis using h w(2) by (auto simp: stands_def only_sends_def)
qed

section \<open>An instance\<close>

text \<open>A request is armed and its first frame read; the reader has no room.\<close>

definition demo_sections :: "AsyncInput list" where
  "demo_sections = [Section (Take (EpArm demo_id demo_key audio_engine 0 0))]"

lemma demo_armed:
  "run_opt (async_step demo_aead) Async_new demo_sections
     = Some (\<lparr>as_tasks = \<lparr>tk_table = [demo_id \<mapsto> Entry_new demo_key audio_engine 0 0], tk_lock = None\<rparr>,
              as_replies = [], as_outbound = []\<rparr>, [EpArmed \<lparr>ar_request_id = demo_id\<rparr>])"
  by (simp add: demo_sections_def Async_new_def Tasks_new_def arm_def)

theorem slow_reader_stops_endpoint_witness:
  "\<exists>a a1 es1 a2 es2. async_step demo_aead a (Section (Take (EpRead (demo_frame 1 1) (V4 [10, 0, 0, 1] 7) 5 demo_env))) = Some (a1, es1)
     \<and> run_opt (async_step demo_aead) a1
         [Section (Poll Pending demo_env), Section (Take (EpPlayhead demo_id 7 6)), Section (Poll Pending demo_env)] = Some (a2, es2)
     \<and> map_option but_reports (tk_table (as_tasks a2) demo_id) = map_option but_reports (tk_table (as_tasks a1) demo_id)
     \<and> (\<forall>ev \<in> set es2. is_sent ev)"
proof -
  let ?a = "\<lparr>as_tasks = \<lparr>tk_table = [demo_id \<mapsto> Entry_new demo_key audio_engine 0 0], tk_lock = None\<rparr>,
              as_replies = [], as_outbound = []\<rparr>"
    and ?js = "[Section (Poll Pending demo_env), Section (Take (EpPlayhead demo_id 7 6)), Section (Poll Pending demo_env)]"
    and ?i = "Section (Take (EpRead (demo_frame 1 1) (V4 [10, 0, 0, 1] 7) 5 demo_env))"
  have "async_step demo_aead ?a ?i \<noteq> None" by (simp add: split_beta)
  then obtain a1 es1 where step: "async_step demo_aead ?a ?i = Some (a1, es1)" by auto
  obtain e evs where ev: "datagram_events demo_aead (tk_table (as_tasks ?a)) (read_from (demo_frame 1 1)) (V4 [10, 0, 0, 1] 7) 5
      = Some (demo_id, e, evs)" "Reliable \<lparr>fr_seq = 1, fr_ts = 0, fr_payload = [1]\<rparr> \<in> set evs"
    by (simp add: demo_frame_read demo_frame_events Entry_new_def rx_eval Let_def)
  have "tk_lock (as_tasks a1) \<noteq> None" by (rule read_waits(1) [OF step ev])
  then obtain a2 es2 where r: "run_opt (async_step demo_aead) a1 ?js = Some (a2, es2)"
    by (auto simp: endpoint_step_report simp del: endpoint_step.simps)
  have "\<forall>i \<in> set ?js. \<not> answered i" by simp
  from slow_reader_stops_endpoint [OF demo_armed step ev r this]
  have "map_option but_reports (tk_table (as_tasks a2) demo_id) = map_option but_reports (tk_table (as_tasks a1) demo_id)"
    "\<forall>ev \<in> set es2. is_sent ev" by blast+
  with step r show ?thesis by blast
qed

end
