(* ===== verification/Pf4_Oversized.thy ===== *)
theory Pf4_Oversized
  imports Pf4_Example
begin

text \<open>
  A frame that is too large, from the call that refuses it to the end of the transfer.  \<open>push_frame\<close> numbers a
  frame before \<open>encode_body\<close> checks its size, so the refused frame leaves a number that no datagram will ever
  carry; whatever else is sent, the transfer cannot be completed any more.
\<close>

text \<open>No packet that opens carries more than a payload's worth.\<close>

lemma opened_fits: "open_body A key dir d = Inr (h, B_Data ts p) \<Longrightarrow> length p \<le> MAX_PAYLOAD"
  by (cases "hdr_kind h") (auto simp: open_body_Inr_iff decode_body_def Let_def rbind_Inr_iff split: if_splits)

section \<open>Properties\<close>

text \<open>
  C38: a frame whose payload is too large is refused with an error, but it has used up a sequence number, and
  the gap is permanent: whatever is done with the tap afterwards, no datagram it sends, before or
  after, ever carries a frame under that number, and no sink that reads authentic datagrams of
  this tap ever reports the transfer complete.  (Within the range of the sequence numbers.)
\<close>

theorem oversized_frame_leaves_gap:
  assumes "aead_correct A" and "request_id_wf r"
    and "sd = final (tap_step A) (tap_new N r key cfg peer) tis" and "can_send (sd_state sd)" and "MAX_PAYLOAD < length p"
    and "send_frame A sd ts p ((now, inp) # turns) = (sd', res)" and "sd'' = final (tap_step A) sd' later"
    and "length (tap_frames (trace (tap_step A) (tap_new N r key cfg peer) (tis @ TapPush ts p now # later))) < 2 ^ 32 - 1"
  shows "res = Returned (Inl (E_Proto (PayloadTooLarge (length p) MAX_PAYLOAD)))
    \<and> (\<forall>d \<in> set (us_sent (sd_socket sd'')). \<forall>h ts' p'. open_body A key Dir_Send d = Inr (h, B_Data ts' p')
         \<longrightarrow> hdr_seq h \<noteq> tx_next_seq (sd_state sd))
    \<and> (\<forall>ins rcfg t1 t0 n. authentic_to_sink A key ins (us_sent (sd_socket sd''))
         \<longrightarrow> Complete n \<notin> set (reported (trace (entry_step A r) (Entry_new key rcfg t1 t0) ins)))"
proof -
  let ?tis = "tis @ TapPush ts p now # later" and ?n = "tx_next_seq (sd_state sd)"
  let ?es = "trace (tap_step A) (tap_new N r key cfg peer) ?tis"
  have push: "sd' = fst (tap_step A sd (TapPush ts p now))" "Emit ?n (B_Data ts p) \<in> set (snd (tap_step A sd (TapPush ts p now)))"
    and res: "res = Returned (Inl (E_Proto (PayloadTooLarge (length p) MAX_PAYLOAD)))"
    using assms(4-6) by (auto simp: push_frame_open dispatch_one_def seal_body_def)
  have fin: "sd'' = final (tap_step A) (tap_new N r key cfg peer) ?tis"
    using push(1) assms(3,7) by (simp add: final_append split_beta)
  have mem: "(?n, B_Data ts p) \<in> set (data_emits ?es)"
    using push(2) assms(3) by (simp add: data_emits_set trace_append split_beta)
  have few: "length (data_emits ?es) < 2 ^ 32 - 1" using assms(8) by (simp add: tap_frames_def)
  note num = tap_numbered(1) [OF few]
  have only: "p' = p" if "Emit ?n (B_Data ts' p') \<in> set ?es" for ts' p'
  proof -
    have "(?n, B_Data ts' p') \<in> set (data_emits ?es)" using that by (simp add: data_emits_set)
    from numbered_nth(3) [OF num this] numbered_nth(3) [OF num mem] show ?thesis by simp
  qed
  have wire: "hdr_seq h \<noteq> ?n" if "d \<in> set (us_sent (sd_socket sd''))" "open_body A key Dir_Send d = Inr (h, B_Data ts' p')" for d h ts' p'
  proof
    assume "hdr_seq h = ?n"
    then have "Emit ?n (B_Data ts' p') \<in> set ?es"
      using wire_opens [OF assms(1,2) that(1) [unfolded fin]] that(2) by auto
    from only [OF this] show False using opened_fits [OF that(2)] assms(5) by simp
  qed
  have "Complete k \<notin> set (reported (trace (entry_step A r) (Entry_new key rcfg t1 t0) ins))"
    if auth: "authentic_to_sink A key ins (us_sent (sd_socket sd''))" for ins rcfg t1 t0 k
  proof
    assume "Complete k \<in> set (reported (trace (entry_step A r) (Entry_new key rcfg t1 t0) ins))"
    from entry_complete_arrived [OF assms(1,2) auth [unfolded fin] assms(8) this mem] obtain d h ts' p' where
      "d \<in> set (us_sent (sd_socket sd''))" "open_body A key Dir_Send d = Inr (h, B_Data ts' p')" "hdr_seq h = ?n"
      using auth unfolding arrived_from_def authentic_to_sink_def by force
    then show False using wire by blast
  qed
  then show ?thesis using res wire by blast
qed

text \<open>The tap is given 2000 bytes, then one byte, and finishes.\<close>

theorem oversized_frame_leaves_gap_witness:
  "\<exists>sd'. send_frame demo_aead demo_tap 0 (replicate 2000 0) [(0, \<lparr>pi_answer = TimedOut, pi_handle_at = 0, pi_tick_at = 0\<rparr>)]
      = (sd', Returned (Inl (E_Proto (PayloadTooLarge 2000 MAX_PAYLOAD))))
    \<and> (\<forall>d \<in> set (us_sent (sd_socket (final (tap_step demo_aead) sd' demo_tap_run))).
         \<forall>h ts' p'. open_body demo_aead demo_key Dir_Send d = Inr (h, B_Data ts' p') \<longrightarrow> hdr_seq h \<noteq> 1)"
proof -
  let ?turns = "[(0, \<lparr>pi_answer = TimedOut, pi_handle_at = 0, pi_tick_at = 0\<rparr>)]"
  obtain sd' res where call: "send_frame demo_aead demo_tap 0 (replicate 2000 0) ?turns = (sd', res)" by force
  have st: "sd_state demo_tap = XferSender_new SenderConfig_default" by (simp add: tap_new_def)
  have can: "can_send (sd_state demo_tap)" and first: "tx_next_seq (sd_state demo_tap) = 1" unfolding st by (simp_all add: tx_eval)
  have big: "MAX_PAYLOAD < length (replicate 2000 (0 :: u8))" by (simp add: MAX_PAYLOAD_def)
  have few: "length (tap_frames (trace (tap_step demo_aead) demo_tap ([] @ TapPush 0 (replicate 2000 0) 0 # demo_tap_run))) < 2 ^ 32 - 1"
    by (simp add: tap_frames_def demo_tap_run_def tap_new_def UdpSocket_new_def quiet_net_def tx_eval push_frame_def
      dispatch_one_def seal_body_def crypto_seal_def SessionKey_seal_def demo_aead_def socket_send_def
      MAX_PAYLOAD_def send_finish_def control_seq_def record_sealed_def rr_push_def evict_to_budget.simps Let_def)
  have init: "demo_tap = final (tap_step demo_aead) demo_tap []" by simp
  from oversized_frame_leaves_gap [OF demo_aead_correct demo_id_wf init can big call refl few] call
  show ?thesis unfolding first by auto
qed

end
