(* ===== verification/Pf4_Tests.thy ===== *)
theory Pf4_Tests
  imports Pf4_Recovery Pf4_Replay
begin

text \<open>
  The repository's tests, as definitions that are true when every assertion of the test holds, and
  the lemmas that they hold in the model: those of the receiving state machine
  (\<open>protofish4-proto/tests/transfer.rs\<close>), those of the sending one
  (\<open>protofish4-proto/tests/sender.rs\<close>), those of the wire format
  (\<open>protofish4-proto/tests/crypto.rs\<close>) and the four of the \<open>tests\<close> module of
  \<open>protofish4/src/receiver.rs\<close>. A test reads the clock, draws a key and an identifier at random and
  binds a socket: what it gets is an argument here, so a lemma speaks of every run of the test.
\<close>

section \<open>The tests of the receiving state machine\<close>

text \<open>\<open>tests/transfer.rs\<close>; the readers of a list of events are those of \<open>Pf4_Receiver\<close>.\<close>

definition test_data :: "instant \<Rightarrow> u32 \<Rightarrow> RecvInput" where
  "test_data now s = Packet s (B_Data (ucast s * 20) (replicate 40 (ucast s))) now"

definition unrel_seqs :: "RecvEvent list \<Rightarrow> u32 list" where
  "unrel_seqs es = map fr_seq (played es)"

definition rel_seqs :: "RecvEvent list \<Rightarrow> u32 list" where
  "rel_seqs es = map fr_seq (reliable_frames es)"

definition outcome_of :: "RecvEvent list \<Rightarrow> RelOutcome option" where
  "outcome_of es = (case outcomes es of [] \<Rightarrow> None | o' # _ \<Rightarrow> Some o')"

definition acks_of :: "RecvEvent list \<Rightarrow> (XferSeq \<times> XferSeq \<times> u16) list" where
  "acks_of es = List.map_filter (\<lambda>ev. case ev of SendAck c h b \<Rightarrow> Some (c, h, b) | _ \<Rightarrow> None) es"

definition clean_transfer_completes_both_streams :: "instant \<Rightarrow> bool" where
  "clean_transfer_completes_both_streams t0 =
     (let all = trace recv_step (XferReceiver_new audio_engine t0)
            (map (test_data t0) [1, 2, 3, 4, 5, 6, 7, 8, 9, 10] @ [Packet 1 (B_End 10) t0])
      in unrel_seqs all = [1, 2, 3, 4, 5, 6, 7, 8, 9, 10] \<and> rel_seqs all = [1, 2, 3, 4, 5, 6, 7, 8, 9, 10]
         \<and> outcome_of all = Some (Complete 10) \<and> SendEndAck \<in> set all)"

definition unreliable_yields_out_of_order_arrivals_immediately :: "instant \<Rightarrow> bool" where
  "unreliable_yields_out_of_order_arrivals_immediately t0 =
     (let all = trace recv_step (XferReceiver_new audio_engine t0) (map (test_data t0) [1, 2, 5, 3, 9])
      in unrel_seqs all = [1, 2, 5, 3, 9] \<and> rel_seqs all = [1, 2, 3])"

definition duplicates_are_delivered_once :: "instant \<Rightarrow> bool" where
  "duplicates_are_delivered_once t0 =
     (let all = trace recv_step (XferReceiver_new audio_engine t0) (map (test_data t0) [1, 2, 2, 1, 3])
      in unrel_seqs all = [1, 2, 3] \<and> rel_seqs all = [1, 2, 3])"

definition nack_recovers_a_gap_and_commits :: "instant \<Rightarrow> bool" where
  "nack_recovers_a_gap_and_commits t0 =
     (let (rx, all) = run recv_step (XferReceiver_new audio_engine t0)
            (map (test_data t0) [1, 2, 4, 5] @ [Packet 1 (B_End 5) t0]);
          t1 = t0 + int (from_millis 50);
          (rx1, ticked) = recv_tick rx t1;
          all1 = all @ snd (recv_step rx1 (test_data t1 3))
      in nacked ticked = [3] \<and> rel_seqs all1 = [1, 2, 3, 4, 5] \<and> outcome_of all1 = Some (Complete 5))"

definition unanswered_nacks_abort_rel_but_never_unrel :: "instant \<Rightarrow> bool" where
  "unanswered_nacks_abort_rel_but_never_unrel t0 =
     (let cfg = audio_engine; backoff = int (sum_list (nack_backoff cfg));
          (rx, all) = run recv_step (XferReceiver_new cfg t0)
            (map (test_data t0) [1, 2, 4] @ map (\<lambda>k. RTick (t0 + k * backoff)) [1, 2, 3, 4, 5, 6, 7, 8]);
          more = snd (recv_step rx (test_data (t0 + 8 * backoff) 5))
      in outcome_of all = Some (Aborted UnrecoverableGap) \<and> unrel_seqs more = [5])"

definition sender_reporting_lost_frames_aborts_rel_immediately :: "instant \<Rightarrow> bool" where
  "sender_reporting_lost_frames_aborts_rel_immediately t0 =
     (let (rx, all) = run recv_step (XferReceiver_new audio_engine t0) (map (test_data t0) [1, 2, 6]);
          all1 = all @ snd (recv_step rx (Packet 1 (B_Keepalive 5) t0))
      in outcome_of all = None \<and> outcome_of all1 = Some (Aborted SenderDiscarded))"

definition rel_only_mode_yields_no_unreliable_frames :: "instant \<Rightarrow> bool" where
  "rel_only_mode_yields_no_unreliable_frames t0 =
     (let all = trace recv_step (XferReceiver_new cache_worker t0) (map (test_data t0) [1, 3, 2] @ [Packet 1 (B_End 3) t0])
      in unrel_seqs all = [] \<and> rel_seqs all = [1, 2, 3] \<and> outcome_of all = Some (Complete 3))"

definition cache_worker_outlasts_audio_engine_on_the_same_gap :: bool where
  "cache_worker_outlasts_audio_engine_on_the_same_gap \<longleftrightarrow>
     max_nack_attempts cache_worker > max_nack_attempts audio_engine
     \<and> rel_stall_timeout cache_worker > rel_stall_timeout audio_engine
     \<and> reorder_window cache_worker > reorder_window audio_engine
     \<and> mode audio_engine = Dual \<and> mode cache_worker = RelOnly"

definition silence_closes_the_transfer :: "instant \<Rightarrow> bool" where
  "silence_closes_the_transfer t0 =
     (let cfg = audio_engine;
          rx = final recv_step (XferReceiver_new cfg t0) [test_data t0 1];
          (rx1, events) = recv_tick rx (t0 + int (idle_timeout cfg) + int (from_secs 1))
      in Closed \<in> set events \<and> outcome_of events = Some (Aborted PeerGone) \<and> rx_closed rx1)"

definition acks_report_progress_for_the_send_window :: "instant \<Rightarrow> bool" where
  "acks_report_progress_for_the_send_window t0 =
     (let cfg = audio_engine;
          rx = final recv_step (XferReceiver_new cfg t0) (map (test_data t0) [1, 2, 5]);
          events = snd (recv_tick (set_buffered_ms rx 1234) (t0 + int (ack_interval cfg) + int (from_millis 1)))
      in (case acks_of events of [] \<Rightarrow> False | ack # _ \<Rightarrow> ack = (2, 5, 1234)))"

definition reorder_window_overflow_aborts_rel_and_frees_memory :: "instant \<Rightarrow> bool" where
  "reorder_window_overflow_aborts_rel_and_frees_memory t0 =
     (let cfg = audio_engine\<lparr>reorder_window := 8\<rparr>;
          all = trace recv_step (XferReceiver_new cfg t0) (map (\<lambda>k. test_data t0 (of_nat k)) [2..<41])
      in outcome_of all = Some (Aborted BufferExhausted) \<and> unrel_seqs all = map of_nat [2..<41])"

lemmas recv_test_eval = acks_of_def List.map_filter_simps test_data_def unrel_seqs_def rel_seqs_def outcome_of_def rx_eval recv_tick_def emit_nacks_def
  missing_def missing_fill.simps nack_delay_def MAX_NACK_ENTRIES_def Let_def reliable_frames_def outcomes_def
  played_def nacked_def nack_lists_def set_buffered_ms_def cache_worker_def word_le_nat_alt word_less_nat_alt

lemma ucast_1234: "ucast (min (1234 :: u64) (ucast (-1 :: u16))) = (1234 :: u16)" by code_simp

lemma receiver_tests_hold:
  shows "clean_transfer_completes_both_streams t0"
    and "unreliable_yields_out_of_order_arrivals_immediately t0"
    and "duplicates_are_delivered_once t0"
    and "nack_recovers_a_gap_and_commits t0"
    and "unanswered_nacks_abort_rel_but_never_unrel t0"
    and "sender_reporting_lost_frames_aborts_rel_immediately t0"
    and "rel_only_mode_yields_no_unreliable_frames t0"
    and "cache_worker_outlasts_audio_engine_on_the_same_gap"
    and "silence_closes_the_transfer t0"
    and "acks_report_progress_for_the_send_window t0"
    and "reorder_window_overflow_aborts_rel_and_frees_memory t0"
proof -
  show "clean_transfer_completes_both_streams t0" by (simp add: clean_transfer_completes_both_streams_def recv_test_eval)
  show "unreliable_yields_out_of_order_arrivals_immediately t0" by (simp add: unreliable_yields_out_of_order_arrivals_immediately_def recv_test_eval)
  show "duplicates_are_delivered_once t0" by (simp add: duplicates_are_delivered_once_def recv_test_eval)
  show "nack_recovers_a_gap_and_commits t0" by (simp add: nack_recovers_a_gap_and_commits_def recv_test_eval)
  show "unanswered_nacks_abort_rel_but_never_unrel t0" by (simp add: unanswered_nacks_abort_rel_but_never_unrel_def recv_test_eval)
  show "sender_reporting_lost_frames_aborts_rel_immediately t0" by (simp add: sender_reporting_lost_frames_aborts_rel_immediately_def recv_test_eval)
  show "rel_only_mode_yields_no_unreliable_frames t0" by (simp add: rel_only_mode_yields_no_unreliable_frames_def recv_test_eval)
  show "cache_worker_outlasts_audio_engine_on_the_same_gap" by (simp add: cache_worker_outlasts_audio_engine_on_the_same_gap_def recv_test_eval)
  show "silence_closes_the_transfer t0" by (simp add: silence_closes_the_transfer_def recv_test_eval)
  show "acks_report_progress_for_the_send_window t0" by (simp add: acks_report_progress_for_the_send_window_def recv_test_eval ucast_1234)
  show "reorder_window_overflow_aborts_rel_and_frees_memory t0" by (simp add: reorder_window_overflow_aborts_rel_and_frees_memory_def recv_test_eval upt_rec)
qed

section \<open>The tests of the sending state machine\<close>

text \<open>\<open>tests/sender.rs\<close>.\<close>

fun decimal :: "nat \<Rightarrow> bytes" where
  "decimal n = (if n < 10 then [of_nat (48 + n)] else decimal (n div 10) @ [of_nat (48 + n mod 10)])"

declare decimal.simps [simp del]

definition test_sealed :: "XferSeq \<Rightarrow> bytes" where
  "test_sealed s = [115, 101, 97, 108, 101, 100, 58] @ decimal (unat s)"

definition send_one :: "instant \<Rightarrow> XferSender \<Rightarrow> XferSender \<times> XferSeq option" where
  "send_one now tx =
     (case push_frame tx 0 (replicate 40 0xAB) now of
        (tx1, Some (Emit s b)) \<Rightarrow> (record_sealed tx1 s (test_sealed s), Some s)
      | (tx1, _) \<Rightarrow> (tx1, None))"

primrec send_n :: "nat \<Rightarrow> instant \<Rightarrow> XferSender \<Rightarrow> XferSender" where
  "send_n 0 now tx = tx"
| "send_n (Suc n) now tx = send_n n now (fst (send_one now tx))"

primrec all_sent :: "nat \<Rightarrow> instant \<Rightarrow> XferSender \<Rightarrow> bool" where
  "all_sent 0 now tx = True"
| "all_sent (Suc n) now tx = (snd (send_one now tx) \<noteq> None \<and> all_sent n now (fst (send_one now tx)))"

lemma send_n_numeral: "send_n (numeral k) now tx = send_n (pred_numeral k) now (fst (send_one now tx))"
  "all_sent (numeral k) now tx = (snd (send_one now tx) \<noteq> None \<and> all_sent (pred_numeral k) now (fst (send_one now tx)))"
  by (simp_all add: numeral_eq_Suc)

definition is_keepalive :: "SendEvent \<Rightarrow> bool" where
  "is_keepalive ev \<longleftrightarrow> (case ev of Emit s (B_Keepalive l) \<Rightarrow> True | _ \<Rightarrow> False)"

definition frames_are_numbered_from_one :: "instant \<Rightarrow> bool" where
  "frames_are_numbered_from_one t0 =
     (let (tx1, s1) = send_one t0 (XferSender_new SenderConfig_default); (tx2, s2) = send_one t0 tx1
      in s1 = Some 1 \<and> s2 = Some 2)"

definition send_window_closes_without_acks :: "instant \<Rightarrow> bool" where
  "send_window_closes_without_acks t0 =
     (let tx = XferSender_new (SenderConfig_default\<lparr>max_outstanding := 4\<rparr>);
          tx4 = send_n 4 t0 tx;
          tx5 = fst (send_handle tx4 (B_Ack 4 4 0) t0)
      in all_sent 4 t0 tx \<and> \<not> can_send tx4
         \<and> snd (push_frame tx4 0 (replicate 10 0) t0) = None \<and> can_send tx5 \<and> snd (send_one t0 tx5) \<noteq> None)"

definition loss_does_not_stall_the_window :: "instant \<Rightarrow> bool" where
  "loss_does_not_stall_the_window t0 =
     (let tx = send_n 4 t0 (XferSender_new (SenderConfig_default\<lparr>max_outstanding := 4\<rparr>))
      in \<not> can_send tx \<and> can_send (fst (send_handle tx (B_Ack 1 4 0) t0)))"

definition buffer_occupancy_pauses_and_resumes :: "instant \<Rightarrow> bool" where
  "buffer_occupancy_pauses_and_resumes t0 =
     (let cfg = SenderConfig_default; high = buffer_high_water_ms cfg; low = buffer_low_water_ms cfg;
          tx = fst (send_one t0 (XferSender_new cfg));
          tx1 = fst (send_handle tx (B_Ack 1 1 high) t0);
          mid = (high + low) div 2;
          tx2 = fst (send_handle tx1 (B_Ack 1 1 mid) t0);
          tx3 = fst (send_handle tx2 (B_Ack 1 1 low) t0)
      in \<not> can_send tx1 \<and> \<not> can_send tx2 \<and> can_send tx3)"

definition nack_resends_the_original_sealed_bytes :: "instant \<Rightarrow> bool" where
  "nack_resends_the_original_sealed_bytes t0 =
     (let tx = send_n 3 t0 (XferSender_new SenderConfig_default);
          (tx1, events) = send_handle tx (B_Nack [2]) t0; again = snd (send_handle tx1 (B_Nack [2]) t0)
      in events = [Resend [test_sealed 2]] \<and> again = events)"

definition acked_frames_leave_the_retransmit_ring :: "instant \<Rightarrow> bool" where
  "acked_frames_leave_the_retransmit_ring t0 =
     (let tx = send_n 3 t0 (XferSender_new SenderConfig_default);
          tx1 = fst (send_handle tx (B_Ack 2 3 0) t0)
      in snd (send_handle tx1 (B_Nack [1, 3]) t0) = [Resend [test_sealed 3]])"

definition end_carries_the_final_sequence_number :: "instant \<Rightarrow> bool" where
  "end_carries_the_final_sequence_number t0 =
     (case snd (send_finish (send_n 7 t0 (XferSender_new SenderConfig_default)) t0) of
        Some (Emit s (B_End final_seq)) \<Rightarrow> final_seq = 7 | _ \<Rightarrow> False)"

definition keepalives_flow_while_finalizing :: "instant \<Rightarrow> bool" where
  "keepalives_flow_while_finalizing t0 =
     (let cfg = SenderConfig_default; interval = tail_keepalive_interval cfg;
          tx = fst (send_one t0 (XferSender_new cfg));
          tx1 = fst (send_finish (fst (send_handle tx (B_Ack 1 1 0) t0)) t0)
      in list_ex is_keepalive (snd (send_tick tx1 (t0 + int interval + int (from_millis 1)))))"

definition end_ack_completes_the_transfer :: "instant \<Rightarrow> bool" where
  "end_ack_completes_the_transfer t0 =
     (let tx = fst (send_finish (fst (send_one t0 (XferSender_new SenderConfig_default))) t0);
          (tx1, events) = send_handle tx B_EndAck t0
      in events = [Completed] \<and> is_done tx1)"

definition no_ack_at_all_fails_the_transfer :: "instant \<Rightarrow> bool" where
  "no_ack_at_all_fails_the_transfer t0 =
     (let cfg = SenderConfig_default; timeout = first_ack_timeout cfg;
          tx = fst (send_one t0 (XferSender_new cfg));
          (tx1, early) = send_tick tx (t0 + int (timeout div 2));
          (tx2, events) = send_tick tx1 (t0 + int timeout + int (from_millis 1))
      in early = [] \<and> events = [Failed NoAck] \<and> is_done tx2)"

definition a_paused_sender_keeps_the_transfer_alive :: "instant \<Rightarrow> bool" where
  "a_paused_sender_keeps_the_transfer_alive t0 =
     (let cfg = SenderConfig_default\<lparr>tail_keepalive_interval := from_secs 1, buffer_high_water_ms := 1000,
            buffer_low_water_ms := 500\<rparr>;
          (tx, s) = send_one t0 (XferSender_new cfg);
          (tx1, acked) = send_handle tx (B_Ack 1 1 60000) t0;
          (tx2, events) = send_tick tx1 (t0 + int (from_secs 2));
          tx3 = fst (send_handle tx2 (B_Ack 1 1 0) (t0 + int (from_secs 2)))
      in s \<noteq> None \<and> acked = [] \<and> \<not> can_send tx1 \<and> list_ex is_keepalive events \<and> can_send tx3)"

definition ring_overflow_reports_lost_frames_rather_than_failing :: "instant \<Rightarrow> bool" where
  "ring_overflow_reports_lost_frames_rather_than_failing t0 =
     (let cfg = SenderConfig_default\<lparr>retrans_ring_frames := 4, max_outstanding := 1000\<rparr>;
          tx = send_n 10 t0 (XferSender_new cfg);
          (tx1, events1) = send_handle tx (B_Nack [1]) t0;
          (tx2, events2) = send_handle tx1 (B_Nack [10]) t0;
          events3 = snd (send_tick (fst (send_finish tx2 t0)) (t0 + int (from_secs 6)))
      in events1 = [] \<and> events2 = [Resend [test_sealed 10]]
         \<and> (case List.find is_keepalive events3 of Some (Emit s (B_Keepalive lost_below)) \<Rightarrow> lost_below = 6 | _ \<Rightarrow> False))"

lemmas send_test_eval = send_one_def send_n_numeral is_keepalive_def is_done_def tx_defs tx_eval test_sealed_def decimal.simps
  rr_push_def rr_get_def evict_to_budget.simps evict_oldest_def List.map_filter_simps send_tick_def
  first_ack_expired_def emit_keepalive_def control_seq_def duration_since_def from_secs_def from_millis_def Let_def
  word_le_nat_alt word_less_nat_alt



lemma ack_handled:
  "send_handle tx (B_Ack c h b) now =
     (tx\<lparr>tx_got_ack := True, tx_ring := ack_through (tx_ring tx) c,
        tx_acked_highest := (if h > tx_acked_highest tx then h else tx_acked_highest tx), tx_buffered_ms := b,
        tx_paused := (buffer_high_water_ms (tx_cfg tx) \<le> b \<or> \<not> b \<le> buffer_low_water_ms (tx_cfg tx) \<and> tx_paused tx)\<rparr>, [])"
  by (cases tx) (simp add: send_handle_def Let_def)

lemma one_sent:
  assumes "can_send tx"
  shows "send_one now tx = (tx\<lparr>tx_next_seq := XferSeq_next (tx_next_seq tx),
      tx_first_data_at := (case tx_first_data_at tx of None \<Rightarrow> Some now | d \<Rightarrow> d),
      tx_ring := rr_push (tx_ring tx) (tx_next_seq tx) (test_sealed (tx_next_seq tx))\<rparr>, Some (tx_next_seq tx))"
  using assms by (cases tx) (simp add: send_one_def push_frame_def record_sealed_def Let_def split: option.split)

lemmas flow_eval = send_n_numeral one_sent ack_handled can_send_def XferSender_new_def SenderConfig_default_def
  XferSeq_FIRST_def XferSeq_next_def sat_sub_def sat_add_def word_le_nat_alt word_less_nat_alt Let_def



lemma window_filled:
  assumes "max_outstanding c = 4"
  shows "all_sent 4 t0 (XferSender_new c)" "tx_state (send_n 4 t0 (XferSender_new c)) = S_Streaming"
    "\<not> tx_paused (send_n 4 t0 (XferSender_new c))" "tx_acked_highest (send_n 4 t0 (XferSender_new c)) = 0"
    "tx_cfg (send_n 4 t0 (XferSender_new c)) = c" "tx_next_seq (send_n 4 t0 (XferSender_new c)) = 5"
  using assms by (simp_all add: flow_eval)

lemma send_window_test_holds: "send_window_closes_without_acks t0"
proof -
  let ?c = "SenderConfig_default\<lparr>max_outstanding := 4\<rparr>"
  let ?tx = "send_n 4 t0 (XferSender_new ?c)"
  have c: "max_outstanding ?c = 4" by simp
  note f = window_filled [OF c]
  have 2: "\<not> can_send ?tx"
    by (simp add: can_send_def f sat_sub_def word_less_nat_alt word_le_nat_alt)
  have 3: "can_send (fst (send_handle ?tx (B_Ack 4 4 0) t0))"
    by (simp add: ack_handled can_send_def f sat_sub_def word_less_nat_alt word_le_nat_alt) (simp add: SenderConfig_default_def)
  show ?thesis
    unfolding send_window_closes_without_acks_def Let_def case_prod_beta
    using f(1) 2 3 one_sent [OF 3, of t0] by (simp add: push_frame_def)
qed

lemma one_frame_out:
  "tx_state (fst (send_one t0 (XferSender_new SenderConfig_default))) = S_Streaming"
  "tx_acked_highest (fst (send_one t0 (XferSender_new SenderConfig_default))) = 0"
  "tx_next_seq (fst (send_one t0 (XferSender_new SenderConfig_default))) = 2"
  "tx_cfg (fst (send_one t0 (XferSender_new SenderConfig_default))) = SenderConfig_default"
  by (simp_all add: flow_eval)

lemma buffer_occupancy_test_holds: "buffer_occupancy_pauses_and_resumes t0"
proof -
  have marks: "buffer_high_water_ms SenderConfig_default = 10000" "buffer_low_water_ms SenderConfig_default = 5000"
      "max_outstanding SenderConfig_default = 512"
    by (simp_all add: SenderConfig_default_def)
  have mid: "((10000 :: u16) + 5000) div 2 = 7500" by code_simp
  show ?thesis
    unfolding buffer_occupancy_pauses_and_resumes_def Let_def marks mid
    by (simp add: ack_handled can_send_def one_frame_out marks sat_sub_def word_le_nat_alt word_less_nat_alt)
qed

lemma push_room:
  "length es < m \<Longrightarrow> b + length d \<le> B \<Longrightarrow>
     rr_push \<lparr>rr_entries = es, rr_bytes = b, rr_max_frames = m, rr_max_bytes = B, rr_lost_below = l\<rparr> s d
       = \<lparr>rr_entries = es @ [(s, d)], rr_bytes = b + length d, rr_max_frames = m, rr_max_bytes = B, rr_lost_below = l\<rparr>"
  by (simp add: rr_push_def evict_to_budget.simps)

lemma push_full:
  "length es + 1 = m \<Longrightarrow> b + length d \<le> B \<Longrightarrow> l < s0 \<Longrightarrow>
     rr_push \<lparr>rr_entries = (s0, d0) # es, rr_bytes = b, rr_max_frames = m, rr_max_bytes = B, rr_lost_below = l\<rparr> s d
       = \<lparr>rr_entries = es @ [(s, d)], rr_bytes = b + length d - length d0, rr_max_frames = m, rr_max_bytes = B, rr_lost_below = s0\<rparr>"
  by (subst rr_push_def, subst evict_to_budget.simps)
    (simp add: evict_oldest_def evict_to_budget.simps)

lemma sealed_length: "length (test_sealed s) = (if unat s < 10 then 8 else if unat s < 100 then 9 else length (test_sealed s))"
  by (auto simp: test_sealed_def decimal.simps)

lemma overflowed:
  assumes "max_outstanding c = 1000" "retrans_ring_frames c = 4" "retrans_ring_bytes c = 1048576"
  shows "tx_ring (send_n 10 t0 (XferSender_new c)) = \<lparr>rr_entries = map (\<lambda>s. (s, test_sealed s)) [7, 8, 9, 10],
      rr_bytes = 33, rr_max_frames = 4, rr_max_bytes = 1048576, rr_lost_below = 6\<rparr>"
    "tx_state (send_n 10 t0 (XferSender_new c)) = S_Streaming"
    "tx_cfg (send_n 10 t0 (XferSender_new c)) = c" "tx_next_seq (send_n 10 t0 (XferSender_new c)) = 11"
  by (simp_all add: assms flow_eval RetransRing_new_def push_room push_full sealed_length)


lemma ring_overflow_test_holds: "ring_overflow_reports_lost_frames_rather_than_failing t0"
proof -
  let ?c = "SenderConfig_default\<lparr>retrans_ring_frames := 4, max_outstanding := 1000\<rparr>"
  let ?tx = "send_n 10 t0 (XferSender_new ?c)"
  have c: "max_outstanding ?c = 1000" "retrans_ring_frames ?c = 4" "retrans_ring_bytes ?c = 1048576"
      "tail_keepalive_interval ?c = from_secs 5" "finalize_timeout ?c = from_secs 30" "first_ack_timeout ?c = from_secs 2"
    by (simp_all add: SenderConfig_default_def)
  note f = overflowed [OF c(1-3)]
  show ?thesis
    unfolding ring_overflow_reports_lost_frames_rather_than_failing_def Let_def case_prod_beta
    by (simp add: send_handle_def send_finish_def send_tick_def f c rr_get_def List.map_filter_simps first_ack_expired_def
        emit_keepalive_def control_seq_def is_keepalive_def duration_since_def from_secs_def Let_def)
qed

lemma sender_tests_hold:
  shows "frames_are_numbered_from_one t0"
    and "send_window_closes_without_acks t0"
    and "loss_does_not_stall_the_window t0"
    and "buffer_occupancy_pauses_and_resumes t0"
    and "nack_resends_the_original_sealed_bytes t0"
    and "acked_frames_leave_the_retransmit_ring t0"
    and "end_carries_the_final_sequence_number t0"
    and "keepalives_flow_while_finalizing t0"
    and "end_ack_completes_the_transfer t0"
    and "no_ack_at_all_fails_the_transfer t0"
    and "a_paused_sender_keeps_the_transfer_alive t0"
    and "ring_overflow_reports_lost_frames_rather_than_failing t0"
proof -
  show "frames_are_numbered_from_one t0" by (simp add: frames_are_numbered_from_one_def send_test_eval)
  show "send_window_closes_without_acks t0" by (rule send_window_test_holds)
  show "loss_does_not_stall_the_window t0" by (simp add: loss_does_not_stall_the_window_def send_test_eval)
  show "buffer_occupancy_pauses_and_resumes t0" by (rule buffer_occupancy_test_holds)
  show "nack_resends_the_original_sealed_bytes t0" by (simp add: nack_resends_the_original_sealed_bytes_def send_test_eval)
  show "acked_frames_leave_the_retransmit_ring t0" by (simp add: acked_frames_leave_the_retransmit_ring_def send_test_eval)
  show "end_carries_the_final_sequence_number t0" by (simp add: end_carries_the_final_sequence_number_def send_test_eval)
  show "keepalives_flow_while_finalizing t0" by (simp add: keepalives_flow_while_finalizing_def send_test_eval)
  show "end_ack_completes_the_transfer t0" by (simp add: end_ack_completes_the_transfer_def send_test_eval)
  show "no_ack_at_all_fails_the_transfer t0" by (simp add: no_ack_at_all_fails_the_transfer_def send_test_eval)
  show "a_paused_sender_keeps_the_transfer_alive t0" by (simp add: a_paused_sender_keeps_the_transfer_alive_def send_test_eval)
  show "ring_overflow_reports_lost_frames_rather_than_failing t0" by (rule ring_overflow_test_holds)
qed

section \<open>Unit tests of the endpoint\<close>

definition an_ack_carries_the_buffered_ms_the_sink_reported ::
  "aead \<Rightarrow> net \<Rightarrow> (bytes \<Rightarrow> bytes) \<Rightarrow> RequestId \<Rightarrow> instant \<Rightarrow> instant \<Rightarrow> instant \<Rightarrow> instant \<Rightarrow> env \<Rightarrow> bool" where
  "an_ack_carries_the_buffered_ms_the_sink_reported A N fill rid feedback_at armed_at reported_at now env =
     (case SessionKey_from_bytes (random_key fill) of
        Inl err \<Rightarrow> False
      | Inr key \<Rightarrow>
          (case Endpoint_bind N (V4 [127, 0, 0, 1] 0) of
             Inl err \<Rightarrow> False
           | Inr endpoint \<Rightarrow>
               let cfg = audio_engine; interval = ack_interval cfg in
               (case arm endpoint rid key cfg feedback_at armed_at of
                  Inl err \<Rightarrow> False
                | Inr tbl \<Rightarrow>
                    let tbl1 = fst (endpoint_step A tbl (EpPlayhead rid 1000 reported_at)) in
                    (case tbl1 rid of
                       None \<Rightarrow> False
                     | Some entry \<Rightarrow>
                         let (st1, events1) = recv_handle (en_state entry) 1 (B_Data 5320 (replicate 40 7)) now;
                             (st2, events2) = recv_tick st1 (now + int interval + int (from_millis 1));
                             (entry', effects) = apply_events A rid env (entry\<lparr>en_state := st2\<rparr>) (events1 @ events2)
                         in (case replies effects of
                               [] \<Rightarrow> False
                             | datagram # _ \<Rightarrow>
                                 (case open_body A key Dir_Recv datagram of
                                    Inr (header, B_Ack contiguous highest buffered_ms) \<Rightarrow> buffered_ms = 4320
                                  | _ \<Rightarrow> False))))))"

definition a_fresh_play_head_is_what_goes_on_the_wire :: "instant \<Rightarrow> instant \<Rightarrow> instant \<Rightarrow> bool" where
  "a_fresh_play_head_is_what_goes_on_the_wire epoch reported_at now =
     (let feedback = set_playhead_ms (BufferFeedback_default epoch) 1000 reported_at
      in ack_buffered_ms feedback 999 5321 now = 4321)"

definition an_over_range_backlog_is_clamped_to_the_wire_limit :: "instant \<Rightarrow> instant \<Rightarrow> instant \<Rightarrow> bool" where
  "an_over_range_backlog_is_clamped_to_the_wire_limit epoch reported_at now =
     (let feedback = set_playhead_ms (BufferFeedback_default epoch) 0 reported_at
      in ack_buffered_ms feedback 0 (-1) now = -1)"

definition a_stale_report_falls_back_to_the_state_machines_value :: "instant \<Rightarrow> instant \<Rightarrow> instant \<Rightarrow> bool" where
  "a_stale_report_falls_back_to_the_state_machines_value epoch reported_at now =
     (let feedback = set_playhead_ms (BufferFeedback_default epoch) 0 reported_at;
          later = now + int BUFFER_REPORT_TTL + int (from_millis 1)
      in ack_buffered_ms feedback 1234 60000 now = 60000 \<and> ack_buffered_ms feedback 1234 60000 later = 1234)"

text \<open>
  The tests read the clock: \<open>prompt\<close> says that the readings do not go back and that less than two
  seconds, by a millisecond, pass between the report and the last of them.
\<close>

definition prompt :: "instant \<Rightarrow> instant \<Rightarrow> instant \<Rightarrow> bool" where
  "prompt epoch reported_at now \<longleftrightarrow> epoch \<le> reported_at \<and> reported_at \<le> now
     \<and> now - reported_at \<le> int (from_millis 1999) \<and> reported_at - epoch < 2 ^ 64"

lemma report_date:
  assumes "prompt epoch reported_at now"
  obtains t where "bf_epoch (set_playhead_ms (BufferFeedback_default epoch) ms reported_at)
      + int (from_millis (unat (bf_written_at_ms (set_playhead_ms (BufferFeedback_default epoch) ms reported_at)))) = t"
    and "t \<le> reported_at" and "reported_at - t < 1000000"
proof -
  let ?d = "nat (reported_at - epoch)"
  have "?d div 1000000 < 2 ^ 64" using assms by (auto simp: prompt_def nat_less_iff intro: le_less_trans [OF div_le_dividend])
  then have "unat (of_nat (?d div 1000000) :: u64) = ?d div 1000000" by (simp add: unat_of_nat)
  then have w: "unat (bf_written_at_ms (set_playhead_ms (BufferFeedback_default epoch) ms reported_at)) = ?d div 1000000"
    "bf_epoch (set_playhead_ms (BufferFeedback_default epoch) ms reported_at) = epoch"
    by (simp_all add: set_playhead_ms_def BufferFeedback_default_def as_millis_def duration_since_def)
  let ?t = "epoch + int (from_millis (?d div 1000000))"
  have d: "int ?d = reported_at - epoch" using assms by (simp add: prompt_def)
  have "int (?d div 1000000 * 1000000) + int (?d mod 1000000) = int ?d"
    by (metis div_mult_mod_eq of_nat_add)
  then have "?t + int (?d mod 1000000) = reported_at" using d by (simp add: from_millis_def)
  moreover have "int (?d mod 1000000) < 1000000" by simp
  ultimately show thesis using that [of ?t] w by simp
qed

lemma fresh_report:
  assumes "prompt epoch reported_at now"
  shows "fresh_playhead_ms (set_playhead_ms (BufferFeedback_default epoch) ms reported_at) now BUFFER_REPORT_TTL = Some ms"
proof -
  obtain t where "bf_epoch (set_playhead_ms (BufferFeedback_default epoch) ms reported_at)
      + int (from_millis (unat (bf_written_at_ms (set_playhead_ms (BufferFeedback_default epoch) ms reported_at)))) = t"
    "t \<le> reported_at" "reported_at - t < 1000000" by (rule report_date [OF assms])
  moreover have "nat (now - t) \<le> 2000000000" if "t \<le> reported_at" "reported_at - t < 1000000" for t
    using assms that by (auto simp: prompt_def from_millis_def nat_le_iff)
  ultimately have "\<not> BUFFER_REPORT_TTL < duration_since now (bf_epoch (set_playhead_ms (BufferFeedback_default epoch) ms reported_at)
      + int (from_millis (unat (bf_written_at_ms (set_playhead_ms (BufferFeedback_default epoch) ms reported_at)))))"
    by (simp add: BUFFER_REPORT_TTL_def from_secs_def duration_since_def not_less)
  moreover have "bf_playhead_ms (set_playhead_ms (BufferFeedback_default epoch) ms reported_at) = ms"
    by (simp add: set_playhead_ms_def)
  ultimately show ?thesis by (simp add: fresh_playhead_ms_def Let_def)
qed

lemma stale_report:
  assumes "prompt epoch reported_at now" and "now + int BUFFER_REPORT_TTL < later"
  shows "fresh_playhead_ms (set_playhead_ms (BufferFeedback_default epoch) ms reported_at) later BUFFER_REPORT_TTL = None"
proof -
  obtain t where "bf_epoch (set_playhead_ms (BufferFeedback_default epoch) ms reported_at)
      + int (from_millis (unat (bf_written_at_ms (set_playhead_ms (BufferFeedback_default epoch) ms reported_at)))) = t"
    "t \<le> reported_at" by (rule report_date [OF assms(1)])
  moreover have "BUFFER_REPORT_TTL < nat (later - t)" if "t \<le> reported_at" for t
    using assms that by (auto simp: prompt_def zless_nat_conj)
  ultimately show ?thesis by (simp add: fresh_playhead_ms_def duration_since_def Let_def)
qed

lemma clamp:
  "ucast (min (4321 :: u64) (ucast (-1 :: u16))) = (4321 :: u16)"
  "ucast (min (60000 :: u64) (ucast (-1 :: u16))) = (60000 :: u16)"
  "ucast (ucast (-1 :: u16) :: u64) = (-1 :: u16)"
  "ucast (min (4320 :: u64) (ucast (-1 :: u16))) = (4320 :: u16)"
  by code_simp+

lemma occupancy_tests_pass:
  assumes "prompt epoch reported_at now"
  shows "a_fresh_play_head_is_what_goes_on_the_wire epoch reported_at now"
    and "an_over_range_backlog_is_clamped_to_the_wire_limit epoch reported_at now"
    and "a_stale_report_falls_back_to_the_state_machines_value epoch reported_at now"
proof -
  show "a_fresh_play_head_is_what_goes_on_the_wire epoch reported_at now"
    by (simp add: a_fresh_play_head_is_what_goes_on_the_wire_def ack_buffered_ms_def fresh_report [OF assms] sat_sub_def clamp)
  show "an_over_range_backlog_is_clamped_to_the_wire_limit epoch reported_at now"
    by (simp add: an_over_range_backlog_is_clamped_to_the_wire_limit_def ack_buffered_ms_def fresh_report [OF assms] sat_sub_def clamp)
  have later: "now + int BUFFER_REPORT_TTL < now + int BUFFER_REPORT_TTL + int (from_millis 1)" by (simp add: from_millis_def)
  show "a_stale_report_falls_back_to_the_state_machines_value epoch reported_at now"
    by (simp add: a_stale_report_falls_back_to_the_state_machines_value_def ack_buffered_ms_def fresh_report [OF assms]
        stale_report [OF assms later, simplified] sat_sub_def clamp Let_def)
qed

lemma test_events:
  assumes "armed_at \<le> now"
  shows "\<exists>rx acks. recv_handle (XferReceiver_new audio_engine armed_at) 1 (B_Data 5320 (replicate 40 7)) now = (rx,
      [Unreliable \<lparr>fr_seq = 1, fr_ts = 5320, fr_payload = replicate 40 7\<rparr>,
       Reliable \<lparr>fr_seq = 1, fr_ts = 5320, fr_payload = replicate 40 7\<rparr>] @ acks)
    \<and> (acks = [] \<or> acks = [SendAck 1 1 0])
    \<and> snd (recv_tick rx (now + int (ack_interval audio_engine) + int (from_millis 1))) = [SendAck 1 1 0]"
  using assms
  by (simp add: rx_eval recv_tick_def emit_nacks_def missing_def Let_def)

lemma ack_test_passes:
  assumes A: "aead_correct A" "aead_total A" and id: "request_id_wf rid" and N: "net_bind N (V4 [127, 0, 0, 1] 0) = Inr ()"
    and key: "length (fill (replicate 32 0)) = 32" and clock: "armed_at \<le> now" "\<And>k. prompt feedback_at reported_at (fst (env k))"
  shows "an_ack_carries_the_buffered_ms_the_sink_reported A N fill rid feedback_at armed_at reported_at now env"
proof -
  let ?key = "SessionKey (random_key fill)" and ?fb = "set_playhead_ms (BufferFeedback_default feedback_at) 1000 reported_at"
    and ?f = "\<lparr>fr_seq = 1, fr_ts = 5320, fr_payload = replicate 40 7\<rparr>"
  let ?e = "(Entry_new ?key audio_engine feedback_at armed_at)\<lparr>en_feedback := ?fb\<rparr>"
  obtain rx acks where ev: "recv_handle (XferReceiver_new audio_engine armed_at) 1 (B_Data 5320 (replicate 40 7)) now
      = (rx, [Unreliable ?f, Reliable ?f] @ acks)" "acks = [] \<or> acks = [SendAck 1 1 0]"
    "snd (recv_tick rx (now + int (ack_interval audio_engine) + int (from_millis 1))) = [SendAck 1 1 0]"
    using test_events [OF clock(1)] by blast
  obtain rx2 where rx2: "recv_tick rx (now + int (ack_interval audio_engine) + int (from_millis 1)) = (rx2, [SendAck 1 1 0])"
    using ev(3) by (metis prod.collapse)
  obtain more where all: "[Unreliable ?f, Reliable ?f] @ acks @ [SendAck 1 1 0] = [Unreliable ?f, Reliable ?f, SendAck 1 1 0] @ more"
    using ev(2) by auto
  let ?entry = "?e\<lparr>en_state := rx2\<rparr>"
  let ?unrel = "fst (apply_one A rid (env 0) ?entry (Unreliable ?f))"
  let ?rel = "fst (apply_one A rid (env 1) ?unrel (Reliable ?f))"
  have e2: "en_newest_data_ms ?rel = 5320" "en_feedback ?rel = ?fb" "en_key ?rel = ?key"
    by (simp_all add: apply_one_def Entry_new_def Let_def split_beta)
  have "ack_buffered_ms ?fb 0 5320 (fst (env 2)) = 4320"
    using clamp(4) by (simp add: ack_buffered_ms_def fresh_report [OF clock(2)] sat_sub_def)
  then have ack: "apply_one A rid (env 2) ?rel (SendAck 1 1 0) = reply_with A ?rel rid (B_Ack 1 1 4320)"
    using e2 by (simp add: apply_one_def split_beta)
  have enc: "\<exists>p. encode_body (B_Ack 1 1 4320) = Inr p" by (simp del: to_be.simps)
  then obtain n h where n: "snd (reply_with A ?rel rid (B_Ack 1 1 4320)) = [Reply n]"
    "open_body A ?key Dir_Recv n = Inr (h, B_Ack 1 1 4320)"
    using reply_sealed [OF A id, of "B_Ack 1 1 4320" _ ?rel] e2(3) by auto
  have quiet: "replies (snd (apply_one A rid (env 0) ?entry (Unreliable ?f))) = []"
    "replies (snd (apply_one A rid (env 1) ?unrel (Reliable ?f))) = []"
    by (simp_all add: apply_one_def Let_def split_beta)
  have "\<exists>ds. replies (snd (apply_events A rid env ?entry ([Unreliable ?f, Reliable ?f, SendAck 1 1 0] @ more))) = n # ds"
    using quiet ack n(1) by (simp add: numeral_2_eq_2)
  then obtain ds where ds: "replies (snd (apply_events A rid env ?entry (([Unreliable ?f, Reliable ?f] @ acks) @ [SendAck 1 1 0]))) = n # ds"
    using all by auto
  have entry: "fst (endpoint_step A (Map.empty(rid \<mapsto> Entry_new ?key audio_engine feedback_at armed_at)) (EpPlayhead rid 1000 reported_at)) rid
      = Some ?e" by (simp add: Entry_new_def)
  have st: "en_state ?e = XferReceiver_new audio_engine armed_at" by (simp add: Entry_new_def)
  show ?thesis
    using N random_key_accepted [of fill, OF key] entry st ev(1) rx2 ds n(2)
    by (simp add: an_ack_carries_the_buffered_ms_the_sink_reported_def Endpoint_bind_def arm_def
        split_beta Let_def del: endpoint_step.simps apply_events.simps)
qed


text \<open>
  The four unit tests of the endpoint hold in every run: whatever key and identifier they draw
  and whatever the clock shows, provided less than two seconds, by a millisecond, pass between the
  report and the acknowledgement. In the first, the acknowledgement that \<open>apply\<close> seals, opened with
  the key of the request, carries 4320, the newest time stamp less the play head the sink reported.
\<close>

lemma endpoint_unit_tests_hold:
  assumes "aead_correct A" "aead_total A" and "request_id_wf rid" and "net_bind N (V4 [127, 0, 0, 1] 0) = Inr ()"
    and "length (fill (replicate 32 0)) = 32" and "armed_at \<le> now" and "\<And>k. prompt feedback_at reported_at (fst (env k))"
  shows "an_ack_carries_the_buffered_ms_the_sink_reported A N fill rid feedback_at armed_at reported_at now env
    \<and> a_fresh_play_head_is_what_goes_on_the_wire feedback_at reported_at (fst (env 0))
    \<and> an_over_range_backlog_is_clamped_to_the_wire_limit feedback_at reported_at (fst (env 0))
    \<and> a_stale_report_falls_back_to_the_state_machines_value feedback_at reported_at (fst (env 0))"
  using ack_test_passes [where env = env and fill = fill, OF assms] occupancy_tests_pass [OF assms(7) [of 0]] by blast

lemma endpoint_unit_tests_hold_instance:
  "an_ack_carries_the_buffered_ms_the_sink_reported demo_aead quiet_net (map (\<lambda>_. 7)) demo_id 0 0 5 10 (\<lambda>k. (10, True))"
proof -
  have "prompt 0 5 (fst ((\<lambda>k. (10, True)) (k :: nat)))" for k by (simp add: prompt_def from_millis_def)
  moreover have "net_bind quiet_net (V4 [127, 0, 0, 1] 0) = Inr ()" by (simp add: quiet_net_def)
  ultimately show ?thesis
    using endpoint_unit_tests_hold [of demo_aead demo_id quiet_net "map (\<lambda>_. 7)" 0 10 0 5 "\<lambda>k. (10, True)"]
      demo_aead_correct demo_aead_total demo_id_wf by (simp add: KEY_LEN_def)
qed

section \<open>The tests of the wire format\<close>

text \<open>
  \<open>tests/crypto.rs\<close>, for every cipher that opens what it sealed; the tests that tamper with a
  datagram say something about the cipher and not about the program.
\<close>

definition test_key :: SessionKey where
  "test_key = SessionKey (replicate 32 7)"

definition seal_test :: "aead \<Rightarrow> PacketKind \<Rightarrow> RequestId \<Rightarrow> u32 \<Rightarrow> Direction \<Rightarrow> Body \<Rightarrow> bytes result" where
  "seal_test A kind rid s dir body =
     rbind (encode_body body) (\<lambda>p. crypto_seal A test_key (Header_new kind rid s) dir p)"

definition data_packet :: "aead \<Rightarrow> RequestId \<Rightarrow> u32 \<Rightarrow> bytes \<Rightarrow> bytes result" where
  "data_packet A rid s payload = seal_test A PK_Data rid s Dir_Send (B_Data (ucast s * 20) payload)"

definition kinds :: "(PacketKind \<times> u32 \<times> Body) list" where
  "kinds = [(PK_Data, 1, B_Data 20 [1, 2, 3]), (PK_End, 0, B_End 900), (PK_EndAck, 1, B_EndAck),
     (PK_Ack, 2, B_Ack 10 14 9000), (PK_Nack, 3, B_Nack [11, 12, 13]), (PK_Keepalive, 4, B_Keepalive 5)]"

definition round_trips_every_kind :: "aead \<Rightarrow> RequestId \<Rightarrow> bool" where
  "round_trips_every_kind A rid = list_all (\<lambda>(kind, s, body).
     let dir = PacketKind_direction kind; header = Header_new kind rid s in
     case seal_test A kind rid s dir body of
       Inl err \<Rightarrow> False
     | Inr datagram \<Rightarrow>
         (case crypto_open A test_key datagram dir of
            Inl err \<Rightarrow> False
          | Inr (got_header, plaintext) \<Rightarrow> got_header = header \<and> decode_body kind plaintext = Inr body)) kinds"

definition nonce_space_does_not_collide_across_kinds :: "aead \<Rightarrow> RequestId \<Rightarrow> bool" where
  "nonce_space_does_not_collide_across_kinds A rid =
     (case (seal_test A PK_Data rid 5 Dir_Send (B_Data 100 (replicate 8 0)), seal_test A PK_End rid 5 Dir_Send (B_End 5),
            seal_test A PK_Ack rid 5 Dir_Recv (B_Ack 5 5 0)) of
        (Inr data, Inr end', Inr ack) \<Rightarrow>
          drop HEADER_LEN data \<noteq> drop HEADER_LEN end' \<and> is_ok (crypto_open A test_key data Dir_Send)
          \<and> is_ok (crypto_open A test_key end' Dir_Send) \<and> is_ok (crypto_open A test_key ack Dir_Recv)
      | _ \<Rightarrow> False)"

definition rejects_wrong_direction :: "aead \<Rightarrow> RequestId \<Rightarrow> bool" where
  "rejects_wrong_direction A rid =
     (case data_packet A rid 1 [111, 112, 117, 115] of
        Inl err \<Rightarrow> False | Inr datagram \<Rightarrow> \<not> is_ok (crypto_open A test_key datagram Dir_Recv))"

definition proxy_can_route_without_the_key :: "aead \<Rightarrow> RequestId \<Rightarrow> bool" where
  "proxy_can_route_without_the_key A rid =
     (case data_packet A rid 1 [111, 112, 117, 115] of
        Inl err \<Rightarrow> False | Inr datagram \<Rightarrow> request_id_of datagram = Inr rid)"

fun verdicts :: "ReplayWindow \<Rightarrow> u32 list \<Rightarrow> bool list" where
  "verdicts w [] = []"
| "verdicts w (c # cs) = (let (w', r) = accept w c in is_ok r # verdicts w' cs)"

definition retransmission_is_byte_identical :: "aead \<Rightarrow> RequestId \<Rightarrow> bool" where
  "retransmission_is_byte_identical A rid =
     (let first = data_packet A rid 42 [111, 112, 117, 115]; again = data_packet A rid 42 [111, 112, 117, 115]
      in is_ok first \<and> first = again)"

definition replay_window_accepts_in_order_and_rejects_repeats :: bool where
  "replay_window_accepts_in_order_and_rejects_repeats \<longleftrightarrow>
     verdicts ReplayWindow_new (map of_nat [0..<2000] @ [1999, 1500]) = replicate 2000 True @ [False, False]"

definition replay_window_tolerates_reordering_but_not_duplicates :: bool where
  "replay_window_tolerates_reordering_but_not_duplicates \<longleftrightarrow>
     verdicts ReplayWindow_new [10, 14, 11, 11, 13, 14] = [True, True, True, False, True, False]"

definition replay_window_drops_packets_older_than_the_window :: bool where
  "replay_window_drops_packets_older_than_the_window \<longleftrightarrow> verdicts ReplayWindow_new [0, 5000, 1] = [True, True, False]"

text \<open>Counters that come in order are all accepted, and none of them is taken again.\<close>

lemma verdicts_in_order:
  assumes "rw_invar w" and "\<forall>d. rw_blocked w d \<longleftrightarrow> d < m" and "m + n \<le> 2 ^ 32" 
    and "rw_started w \<longrightarrow> unat (rw_highest w) + 1 = m"
  shows "\<exists>w'. rw_invar w' \<and> (\<forall>d < m + n. rw_blocked w' d)
    \<and> verdicts w (map of_nat [m..<m + n] @ cs) = replicate n True @ verdicts w' cs"
  using assms
proof (induction n arbitrary: w m)
  case 0
  then show ?case by auto
next
  case (Suc n)
  let ?c = "of_nat m :: u32" let ?w = "fst (accept w ?c)"
  have c: "unat ?c = m" using Suc.prems(3) by (simp add: unat_of_nat)
  then have ok: "is_ok (snd (accept w ?c))" using rw.acc_ok_iff [OF Suc.prems(1)] Suc.prems(2) by simp
  have st: "rw_started ?w \<and> unat (rw_highest ?w) = m"
    using Suc.prems(4) c accept_first [of w ?c] accept_ahead [of w ?c] by (cases "rw_started w") (auto simp: unat_simps)
  have "\<not> rw_started w \<longrightarrow> m = 0" using Suc.prems(2) by (auto simp: rw_blocked_def)
  then have "\<forall>d. rw_blocked ?w d \<longleftrightarrow> d < Suc m"
    using rw_blocked_first [OF Suc.prems(1)] rw_blocked_ahead [OF Suc.prems(1), of ?c] Suc.prems(2,4) c
    by (cases "rw_started w") (auto simp: less_Suc_eq)
  from Suc.IH [OF rw_invar_accept [OF Suc.prems(1)] this] st Suc.prems(3) obtain w' where
    "rw_invar w'" "\<forall>d < m + Suc n. rw_blocked w' d"
    "verdicts ?w (map of_nat [Suc m..<m + Suc n] @ cs) = replicate n True @ verdicts w' cs" by auto
  moreover have "[m..<m + Suc n] = m # [Suc m..<m + Suc n]" by (simp add: upt_conv_Cons del: upt_Suc)
  ultimately show ?case using ok by (auto simp: split_beta simp del: upt_Suc)
qed

lemma in_order_test: "replay_window_accepts_in_order_and_rejects_repeats"
proof -
  obtain w where "rw_invar w" "\<forall>d < 2000. rw_blocked w d"
    "verdicts ReplayWindow_new (map of_nat [0..<2000] @ [1999, 1500]) = replicate 2000 True @ verdicts w [1999, 1500]"
    using verdicts_in_order [OF rw_invar_new, of 0 2000 "[1999, 1500]"] rw.blocked_init
    by (auto simp: ReplayWindow_new_def simp del: upt_Suc)
  then show ?thesis by (simp add: replay_window_accepts_in_order_and_rejects_repeats_def accept_blocked)
qed

lemma seal_test_ok:
  assumes "aead_correct A" "aead_total A" "request_id_wf rid" and "\<exists>p. encode_body body = Inr p" and "kind = Body_kind body"
  obtains p d where "seal_test A kind rid s (PacketKind_direction kind) body = Inr d" and "encode_body body = Inr p"
    and "crypto_open A test_key d (PacketKind_direction kind) = Inr (Header_new kind rid s, p)"
    and "decode_body kind p = Inr body" and "length d = HEADER_LEN + length p + TAG_LEN"
proof -
  obtain p where p: "encode_body body = Inr p" using assms(4) by blast
  have "length p \<le> 1200" using length_encode_body [OF p] by (simp add: MAX_PAYLOAD_def)
  then have enc: "encrypt A k x a p \<noteq> None" for k x a using assms(2) by (simp add: aead_total_def)
  obtain d where d: "crypto_seal A test_key (Header_new kind rid s) (PacketKind_direction kind) p = Inr d"
    unfolding crypto_seal_Inr_iff using enc by (metis not_Some_eq)
  show thesis
  proof (rule that [OF _ p])
    show "seal_test A kind rid s (PacketKind_direction kind) body = Inr d" using p d by (simp add: seal_test_def rbind_Inr_iff)
    show "crypto_open A test_key d (PacketKind_direction kind) = Inr (Header_new kind rid s, p)"
      by (rule open_seal [OF assms(1) _ _ d]) (use assms(3) in simp_all)
    show "decode_body kind p = Inr body" using decode_encode [OF p] assms(5) by simp
    show "length d = HEADER_LEN + length p + TAG_LEN" using length_seal [OF assms(1) _ d] assms(3) by simp
  qed
qed

lemma encodable: "\<forall>(kind, s, body) \<in> set kinds. (\<exists>p. encode_body body = Inr p) \<and> kind = Body_kind body"
  by (simp add: kinds_def MAX_PAYLOAD_def MAX_NACK_ENTRIES_def del: to_be.simps)

lemma wire_tests_hold:
  assumes "aead_correct A" "aead_total A" "request_id_wf rid"
  shows "round_trips_every_kind A rid" and "nonce_space_does_not_collide_across_kinds A rid"
    and "rejects_wrong_direction A rid" and "retransmission_is_byte_identical A rid" and "proxy_can_route_without_the_key A rid"
    and "replay_window_accepts_in_order_and_rejects_repeats"
    and "replay_window_tolerates_reordering_but_not_duplicates" and "replay_window_drops_packets_older_than_the_window"
proof -
  note seal = seal_test_ok [OF assms]
  show "round_trips_every_kind A rid"
    unfolding round_trips_every_kind_def list_all_iff
  proof (intro ballI, clarify)
    fix kind s body assume "(kind, s, body) \<in> set kinds"
    then have "\<exists>p. encode_body body = Inr p" "kind = Body_kind body" using encodable by auto
    then show "let dir = PacketKind_direction kind; header = Header_new kind rid s in
      case seal_test A kind rid s dir body of Inl err \<Rightarrow> False
      | Inr datagram \<Rightarrow> (case crypto_open A test_key datagram dir of Inl err \<Rightarrow> False
          | Inr (got_header, plaintext) \<Rightarrow> got_header = header \<and> decode_body kind plaintext = Inr body)"
      by (rule seal [of body kind s]) simp
  qed
  obtain d p where d: "seal_test A PK_Data rid 1 Dir_Send (B_Data (ucast (1 :: u32) * 20) [111, 112, 117, 115]) = Inr d"
    "crypto_open A test_key d Dir_Send = Inr (Header_new PK_Data rid 1, p)"
    by (rule seal [of "B_Data (ucast (1 :: u32) * 20) [111, 112, 117, 115]" PK_Data 1])
      (simp_all add: MAX_PAYLOAD_def del: to_be.simps)
  show "proxy_can_route_without_the_key A rid"
    using d open_routes [OF d(2)] by (simp add: proxy_can_route_without_the_key_def data_packet_def)
  have "\<exists>p. crypto_seal A test_key (Header_new PK_Data rid 1) Dir_Send p = Inr d"
    using d(1) by (auto simp: seal_test_def rbind_Inr_iff)
  then have "\<not> is_ok (crypto_open A test_key d Dir_Recv)"
    using reflection_refused [of "Header_new PK_Data rid 1" Dir_Send A test_key _ d] assms(3) by auto
  then show "rejects_wrong_direction A rid" using d(1) by (simp add: rejects_wrong_direction_def data_packet_def)
  obtain x y z where "seal_test A PK_Data rid 5 Dir_Send (B_Data 100 (replicate 8 0)) = Inr x"
      "is_ok (crypto_open A test_key x Dir_Send)" "length x = HEADER_LEN + 16 + TAG_LEN"
    and "seal_test A PK_End rid 5 Dir_Send (B_End 5) = Inr y"
      "is_ok (crypto_open A test_key y Dir_Send)" "length y = HEADER_LEN + 4 + TAG_LEN"
    and "seal_test A PK_Ack rid 5 Dir_Recv (B_Ack 5 5 0) = Inr z" "is_ok (crypto_open A test_key z Dir_Recv)"
    by (rule seal [of "B_Data 100 (replicate 8 0)" PK_Data 5]; (rule seal [of "B_End 5" PK_End 5])?; (rule seal [of "B_Ack 5 5 0" PK_Ack 5])?)
      (auto simp: MAX_PAYLOAD_def simp del: to_be.simps)
  moreover from this have "drop HEADER_LEN x \<noteq> drop HEADER_LEN y" by (auto dest: arg_cong [where f = length])
  ultimately show "nonce_space_does_not_collide_across_kinds A rid"
    by (auto simp: nonce_space_does_not_collide_across_kinds_def)
  have "is_ok (data_packet A rid 42 [111, 112, 117, 115])"
    by (rule seal [of "B_Data (ucast (42 :: u32) * 20) [111, 112, 117, 115]" PK_Data 42])
      (simp_all add: data_packet_def MAX_PAYLOAD_def del: to_be.simps)
  then show "retransmission_is_byte_identical A rid" by (simp add: retransmission_is_byte_identical_def Let_def)
  show "replay_window_accepts_in_order_and_rejects_repeats" by (rule in_order_test)
  show "replay_window_tolerates_reordering_but_not_duplicates"
    unfolding replay_window_tolerates_reordering_but_not_duplicates_def by code_simp
  show "replay_window_drops_packets_older_than_the_window"
    unfolding replay_window_drops_packets_older_than_the_window_def by code_simp
qed

end
