(* ===== verification/Spec2Isabelle.thy ===== *)
theory Spec2Isabelle
  imports Pf4_Replay Pf4_Receiver_Wf Pf4_Nack_Spec Pf4_Endpoint_Tasks Pf4_Recovery Pf4_Send_Spec Pf4_Nonces Pf4_Endpoint_Sends Pf4_Oversized Pf4_Tests
begin

text \<open>
  A verification of protofish4, which moves one audio transfer from a tap to a sink over UDP and
  gives the sink two views of it: an unreliable stream for playback and a reliable one, recovered
  by retransmission, for the cache.

  \<^bold>\<open>The program.\<close>  The sans-IO crate (\<open>src/protofish4-proto\<close>) has the wire format (header, body codec,
  sealing), a replay window, and two state machines: the sender numbers payload frames, keeps
  sealed datagrams in a ring for retransmission and obeys acknowledgements; the receiver tracks
  gaps, buffers out-of-order frames, asks for missing ones and decides when the reliable stream is
  complete or given up.  The tokio crate (\<open>src/protofish4\<close>) drives them: a tap per transfer, and an
  endpoint that demultiplexes many transfers by request id.

  \<^bold>\<open>The theories\<close>, each modelling the file it names, with the same function names where possible:
  \<^item> \<open>Rust_Prelude\<close>: machine integers as words, durations (nanoseconds) and instants, saturating
    arithmetic, \<open>Result\<close>, checked slices, big-endian conversion, and the lemmas about them.
  \<^item> \<open>Rust_BTree\<close>: \<open>BTreeSet\<close> and \<open>BTreeMap\<close> as sorted lists, with their contracts as the locales
    \<open>ordered_set\<close> and \<open>ordered_map\<close>.
  \<^item> \<open>Machine\<close>: runs of a machine that emits events, the sequencing of code that appends to one
    event vector (\<open>andthen\<close>), runs in which an input may have to wait (\<open>run_opt\<close>), and invariants
    over histories and forward simulations as locales.
  \<^item> \<open>Pf4_Types\<close> (\<open>types.rs\<close>, \<open>error.rs\<close>, \<open>frame/\<close>), \<open>Pf4_Config\<close> (\<open>config.rs\<close>), \<open>Pf4_Header\<close>
    (\<open>header.rs\<close>), \<open>Pf4_Codec\<close> (\<open>codec.rs\<close>), \<open>Pf4_Crypto\<close> (\<open>crypto.rs\<close>: sealing, opening, nonces):
    exact round trips, canonicity of the wire form, size bounds, direction checks.
  \<^item> \<open>Pf4_Replay\<close> (\<open>crypto.rs\<close>: \<open>ReplayWindow\<close>): the shifting loops act as a shift of a 1024-bit map;
    the contract \<open>replay_guard\<close> says which counters are refused, with the exact-jump exception.
  \<^item> \<open>Pf4_Gap_Tracker\<close> (\<open>xfer/gap_tracker.rs\<close>): contract \<open>arrival_tracker\<close>; the prefix is the longest
    gap-free run and \<open>missing\<close> the sorted list of gaps.
  \<^item> \<open>Pf4_Retrans\<close> (\<open>xfer/retrans.rs\<close>): contract \<open>sealed_store\<close>; budget and byte accounting.
  \<^item> \<open>Pf4_Sender\<close> (\<open>xfer/sender.rs\<close>): send window, numbering and nonces, verbatim retransmission,
    pausing, memory, and the finalize deadline, over every sequence of calls.
  \<^item> \<open>Pf4_Send_Spec\<close>: a specification of the sender without clocks, words or byte counters as a step
    relation, its refinement by the state machine, and from it what the reported failures mean.
  \<^item> \<open>Pf4_Receiver\<close> (\<open>xfer/receiver.rs\<close>): the invariant that ties reorder buffer, byte counter and
    tracker together, and with it the shape of the reliable stream.
  \<^item> \<open>Pf4_Receiver_Streams\<close>, \<open>Pf4_Receiver_Output\<close>, \<open>Pf4_Receiver_Props\<close>: playback, the NACK budget and
    arrivals; the shape of all output, timers and what an \<open>EndAck\<close> means; and the properties, over
    every sequence of packets and ticks.
  \<^item> \<open>Pf4_Rel_Spec\<close>: an abstract specification of the reliable stream as a step relation, and the
    refinement of it by the receiver; from it, that a receiver which has everything is complete.
  \<^item> \<open>Pf4_Receiver_Wf\<close>: well-formedness of the receiver's state as an executable predicate, kept by
    every method; what remains in memory after the reliable stream is over.
  \<^item> \<open>Pf4_Nack_Spec\<close>: the NACK loop equals a specification of what is due.
  \<^item> \<open>Pf4_Net\<close>, \<open>Pf4_Tap\<close> (\<open>protofish4/src/error.rs\<close>, \<open>sender.rs\<close>): sockets, the tap's dispatch and pump,
    \<open>send_frame\<close>, \<open>finish\<close> and \<open>send_all\<close>, which are shown to be runs of single turns.
  \<^item> \<open>Pf4_Endpoint\<close> (\<open>protofish4/src/receiver.rs\<close>): the table of entries, event application, replies,
    occupancy feedback.
  \<^item> \<open>Pf4_Endpoint_Run\<close> (the same file: \<open>bind\<close>, \<open>run\<close>, the drop handler): all tasks of an endpoint,
    interleaved at the granularity of the table's lock; the endpoint is the product of independent
    slots, each session a run of its entry, and replies go only to authenticated peers.
  \<^item> \<open>Pf4_Endpoint_Tasks\<close> (the same file): the tasks at the granularity of their await points, where
    \<open>apply\<close> waits for room in a reliable channel with the table locked.  The finer interleaving refines
    to the one above, and finitely many answers of the channel release the lock.
  \<^item> \<open>Pf4_Endpoint_Sends\<close> (the same file): the datagrams of a section are sent after the lock was given up, one
    await each, among the sections and sends of other tasks.  This adds nothing but a delay of the sends;
    and while one reader does not drain its reliable stream, the whole endpoint stands still.
  \<^item> \<open>Pf4_System\<close> and this theory: one tap and one session of an endpoint, for a network that delivers
    nothing forged: what is delivered is a prefix of what was sent, \<open>Complete\<close> means all of
    it, an \<open>EndAck\<close> means all of it arrived, and full delivery means completion.
  \<^item> \<open>Pf4_World\<close>: the whole installation as a transition system, any number of taps, the endpoint and
    the wire with an attacker on it; the same statements as properties of every reachable state,
    with the authenticity of each session proved as an invariant.
  \<^item> \<open>Pf4_Nonces\<close>: over a session no nonce is used twice under its key, by tap or sink.
  \<^item> \<open>Pf4_Oversized\<close>: a frame too large to send, from the call that refuses it to the end of the
    transfer, which can no longer be completed.
  \<^item> \<open>Pf4_Example\<close>: one small transfer, run in full; the witnesses use it.
  \<^item> \<open>Pf4_Recovery\<close>: the return path between sink and tap.  Gaps that are due are asked for in one
    sealed request; when its answer arrives everything received so far has been released; and a
    sink that stops reporting its play head does not hold the tap back.
  \<^item> \<open>Pf4_Tests\<close>: the repository's tests of the two state machines, the wire format and the endpoint,
    as definitions, and that they hold in the model.

  \<^bold>\<open>State and effects.\<close>  Structures are records with the code's fields, methods are functions from
  the state to the new state and what they return, and event vectors are lists in order.  \<open>send_step\<close>,
  \<open>recv_step\<close>, \<open>tap_step\<close>, \<open>entry_step\<close>, \<open>endpoint_step\<close> and \<open>task_step\<close> gather the methods of a component as the
  inputs of one machine, so that a statement over all input lists covers every interleaving of calls.  Loops are
  recursive functions with measures or over the list they consume; only the two waiting loops of
  the tap and the endpoint's read loop can go on forever, and they consume a list of what the socket
  answers, so a call that is still waiting has the value \<open>Waiting\<close>, or no error yet.  Errors are values of sum types.

  \<^bold>\<open>Parameters.\<close>  The cipher is a record of an encryption and a decryption function, of which
  \<open>aead_correct\<close> (decryption inverts encryption; the tag is sixteen bytes) is assumed, and
  where a statement says that something is sealed, \<open>aead_total\<close> (encryption does not fail); that an
  attacker cannot forge tags is the condition \<open>harmless\<close> on what he puts on the wire of \<open>Pf4_World\<close>, and
  elsewhere the hypothesis \<open>authentic_reads\<close> or \<open>authentic_to_tap\<close> on a run.  A tap does not compare the
  request id of a reply with its own, so the theorem on \<open>EndAck\<close> further assumes that no reply to
  another request opens under its key.  Name
  resolution, binding and the results of send calls are parameters; clock readings, received
  datagrams and the answers of the channels to the application are inputs, of which the reliable
  channel is assumed to stay closed once closed (\<open>stays_closed\<close>).  The order in which the hash map
  yields its keys is an input of the tick, any permutation of them.  The socket cuts a datagram to
  the read buffer; no sealed datagram is that long (\<open>sealed_read_whole\<close>).

  \<^bold>\<open>Granularity.\<close>  The steps of \<open>endpoint_step\<close> are the critical sections of the table's lock, with the
  datagrams each of them leaves to be sent; \<open>Pf4_Endpoint_Tasks\<close> splits them at the awaits inside,
  \<open>Pf4_Endpoint_Sends\<close> puts the sends after them.  That the lock has one holder at a time is what
  \<open>tokio\<close>'s mutex promises.  The two relaxed stores of \<open>set_playhead_ms\<close>, and the two loads of
  \<open>fresh_playhead_ms\<close>, are one step each.

  \<^bold>\<open>Bounds.\<close>  Sequence numbers are 32-bit and saturate, control counters wrap; statements about
  numbering and nonces carry the corresponding bound on the number of packets.  Arithmetic that
  could overflow is word arithmetic and wraps as a release build does; byte counters of memory are
  natural numbers, and the invariants show that their subtractions never go below zero.

  \<^bold>\<open>Not modelled.\<close>  The generator of random ids and keys (a parameter where a key is drawn), formatting
  and logging, the local address of a socket, and the fairness of the runtime's scheduler: how long
  a channel takes to answer is not bounded.  Accessors are the fields they return.  The loopback
  tests run the operating system's sockets and are left out, as are the three tests that open a
  datagram under another key or with a flipped byte, which test the cipher.
\<close>

section \<open>One tap and one session\<close>

text \<open>What holds of a single session, when what the sink reads for it is authentic.\<close>

text \<open>
  Whatever the network does with the datagrams, and whatever else the sink's endpoint is doing
  for other transfers, the frames delivered to the application on the
  reliable stream are, byte for byte and in order, a prefix of the frames the tap was given:
  nothing is reordered, repeated, skipped, altered or invented.
\<close>

lemma delivered_is_prefix_of_sent:
  assumes "aead_correct A" and "request_id_wf r" and "armed_once A pre r post"
    and "authentic_reads A key post (us_sent (sd_socket (final (tap_step A) (tap_new N r key cfg peer) tis)))"
    and "length (tap_frames (trace (tap_step A) (tap_new N r key cfg peer) tis)) < 2 ^ 32 - 1"
    and "stays_closed (sink_effects A pre r key rcfg t1 t0 post)"
  shows "prefix (map frame_data (to_rel (sink_effects A pre r key rcfg t1 t0 post)))
    (tap_frames (trace (tap_step A) (tap_new N r key cfg peer) tis))"
proof -
  obtain js where js: "read_by post js"
    "sink_effects A pre r key rcfg t1 t0 post = trace (entry_step A r) (Entry_new key rcfg t1 t0) js"
    using sink_session [OF assms(3)] by blast
  show ?thesis unfolding js(2)
    by (rule entry_delivers_prefix [OF assms(1,2) read_by_authentic [OF js(1) assms(4)] assms(5) assms(6) [unfolded js(2)]])
qed

lemma delivered_is_prefix_of_sent_instance:
  "prefix [(0, [1])] (tap_frames [Emit 1 (B_Data 0 [1]), Emit 1 (B_End 1)])"
  using delivered_is_prefix_of_sent [OF demo_aead_correct demo_id_wf demo_armed_once demo_authentic [unfolded demo_wire_def],
      of audio_engine 0 0]
  unfolding demo_tap_trace demo_sink_effects by (simp add: tap_frames_def frame_data_def)

text \<open>
  When the sink reports \<open>Complete\<close> and the application's reliable stream has refused no frame,
  that stream has delivered exactly the frames the tap was given, all of them: a truncated
  transfer is never reported as complete.
\<close>

lemma complete_transfer_is_exact:
  assumes "aead_correct A" and "request_id_wf r" and "armed_once A pre r post"
    and "authentic_reads A key post (us_sent (sd_socket (final (tap_step A) (tap_new N r key cfg peer) tis)))"
    and "length (tap_frames (trace (tap_step A) (tap_new N r key cfg peer) tis)) < 2 ^ 32 - 1"
    and "Complete n \<in> set (reported (sink_effects A pre r key rcfg t1 t0 post))"
    and "\<And>f. RelRefused f \<notin> set (sink_effects A pre r key rcfg t1 t0 post)"
  shows "map frame_data (to_rel (sink_effects A pre r key rcfg t1 t0 post)) = tap_frames (trace (tap_step A) (tap_new N r key cfg peer) tis)"
proof -
  obtain js where js: "read_by post js"
    "sink_effects A pre r key rcfg t1 t0 post = trace (entry_step A r) (Entry_new key rcfg t1 t0) js"
    using sink_session [OF assms(3)] by blast
  show ?thesis unfolding js(2)
    by (rule entry_complete_exact [OF assms(1,2) read_by_authentic [OF js(1) assms(4)] assms(5)])
      (use assms(6,7) js(2) in auto)
qed

lemma complete_transfer_is_exact_instance:
  "[(0, [1])] = tap_frames [Emit 1 (B_Data 0 [1]), Emit 1 (B_End 1)]"
  using complete_transfer_is_exact [OF demo_aead_correct demo_id_wf demo_armed_once demo_authentic [unfolded demo_wire_def],
      of 1 audio_engine 0 0]
  unfolding demo_tap_trace demo_sink_effects by (simp add: tap_frames_def frame_data_def)

text \<open>
  When an \<open>EndAck\<close> opens at the tap, every frame the tap emitted has reached the sink under
  its own number; this is what a successful \<open>finish\<close> rests on.
\<close>

lemma end_ack_means_all_arrived:
  assumes "aead_correct A" and "request_id_wf r" and "armed_once A pre r post"
    and "authentic_reads A key post (us_sent (sd_socket (final (tap_step A) (tap_new N r key cfg peer) tis)))"
    and "authentic_to_tap A key tis (replies (sink_effects A pre r key rcfg t1 t0 post))"
    and "length (tap_frames (trace (tap_step A) (tap_new N r key cfg peer) tis)) < 2 ^ 32 - 1"
    and "opened_by A key tis B_EndAck"
    and "(s, b) \<in> set (data_emits (trace (tap_step A) (tap_new N r key cfg peer) tis))"
  shows "read_packet A key post s b"
proof -
  obtain js where js: "read_by post js"
    "sink_effects A pre r key rcfg t1 t0 post = trace (entry_step A r) (Entry_new key rcfg t1 t0) js"
    using sink_session [OF assms(3)] by blast
  have "arrived_from A key js s b"
    by (rule entry_end_ack [OF assms(1,2) read_by_authentic [OF js(1) assms(4)] _ assms(6-8)])
      (use assms(5) js(2) in simp)
  then show ?thesis by (rule read_by_packet [OF js(1)])
qed

lemma end_ack_means_all_arrived_instance:
  "read_packet demo_aead demo_key demo_reads 1 (B_Data 0 [1])"
proof (rule end_ack_means_all_arrived [of demo_aead demo_id demo_before demo_reads demo_key quiet_net
      SenderConfig_default "V4 [127, 0, 0, 1] 9000" demo_tap_run' audio_engine 0 0])
  show "authentic_to_tap demo_aead demo_key demo_tap_run' (replies (sink_effects demo_aead demo_before demo_id
      demo_key audio_engine 0 0 demo_reads))"
    by (auto simp: authentic_to_tap_def demo_tap_run'_def demo_tap_run_def demo_sink_effects)
qed (simp_all add: demo_aead_correct demo_armed_once demo_acked demo_authentic demo_opened tap_frames_def)

text \<open>
  When everything the tap emitted, its \<open>End\<close> included, has been read by the sink's endpoint, in
  any order, any number of times and among the traffic of other transfers, and the request has not
  been dropped, the sink has reported completion with the tap's number of frames, unless it had
  given up before.
\<close>

lemma full_delivery_completes:
  assumes "aead_correct A" and "request_id_wf r" and "armed_once A pre r post"
    and "\<And>i. i \<in> set post \<Longrightarrow> \<not> gives_up r i"
    and "authentic_reads A key post (us_sent (sd_socket (final (tap_step A) (tap_new N r key cfg peer) tis)))"
    and "length (tap_frames (trace (tap_step A) (tap_new N r key cfg peer) tis)) < 2 ^ 32 - 1"
    and "\<And>s b. Emit s b \<in> set (trace (tap_step A) (tap_new N r key cfg peer) tis) \<Longrightarrow> read_packet A key post s b"
    and "ends (trace (tap_step A) (tap_new N r key cfg peer) tis) \<noteq> []"
    and "\<And>x. Aborted x \<notin> set (reported (sink_effects A pre r key rcfg t1 t0 post))"
  shows "\<exists>n. reported (sink_effects A pre r key rcfg t1 t0 post) = [Complete n]
    \<and> unat n = length (tap_frames (trace (tap_step A) (tap_new N r key cfg peer) tis))"
proof -
  let ?e = "Entry_new key rcfg t1 t0"
  obtain js where js: "session_of A r post ?e js" "read_by post js"
    "sink_effects A pre r key rcfg t1 t0 post = trace (entry_step A r) ?e js"
    using sink_session [OF assms(3)] by blast
  note auth = read_by_authentic [OF js(2) assms(5)] and alive = assms(9) [unfolded js(3)]
  show ?thesis
  proof (cases "final (slot_step A r) (Some ?e) post")
    case None
    then have "rx_closed (en_state (final (entry_step A r) ?e js))"
      using js(1) assms(4) by (auto simp: session_of_def)
    from entry_closed_reports [OF assms(1,2) auth assms(6) this alive] show ?thesis unfolding js(3) .
  next
    case (Some e')
    then have "js = concat (map (addressed r) post)" using js(1) by (simp add: session_of_def)
    then have "arrived_from A key js s b" if "Emit s b \<in> set (trace (tap_step A) (tap_new N r key cfg peer) tis)" for s b
      using read_packet_addressed [OF assms(1,2,5) assms(7) [OF that]] by simp
    from entry_completes [OF assms(1,2) auth assms(6) this assms(8) alive] show ?thesis unfolding js(3) .
  qed
qed

lemma full_delivery_completes_instance:
  "\<exists>n. reported (sink_effects demo_aead demo_before demo_id demo_key audio_engine 0 0 demo_reads) = [Complete n]
     \<and> unat n = length (tap_frames (trace (tap_step demo_aead) demo_tap demo_tap_run))"
proof (rule full_delivery_completes [OF demo_aead_correct demo_id_wf demo_armed_once])
  show "\<not> gives_up demo_id i" if "i \<in> set demo_reads" for i using that by (auto simp: demo_reads_def)
  show "authentic_reads demo_aead demo_key demo_reads
      (us_sent (sd_socket (final (tap_step demo_aead) demo_tap demo_tap_run)))"
    using demo_authentic by (simp add: demo_wire_def)
  show "read_packet demo_aead demo_key demo_reads s b"
    if "Emit s b \<in> set (trace (tap_step demo_aead) demo_tap demo_tap_run)" for s b
  proof -
    have rd: "read_packet demo_aead demo_key demo_reads s b"
      if "d \<in> set demo_wire" "read_from d = d" "open_body demo_aead demo_key Dir_Send d = Inr (h, b)" "hdr_seq h = s" for d h
      unfolding read_packet_def
      by (intro exI [of _ d] exI [of _ "V4 [10, 0, 0, 1] 7"] exI [of _ 5] exI [of _ "\<lambda>_. (5, True)"] exI [of _ h])
        (use that in \<open>auto simp: demo_reads_def\<close>)
    show ?thesis using that rd [OF _ demo_wire_reads(1)] rd [OF _ demo_wire_reads(2)]
      unfolding demo_tap_trace by (auto simp: demo_wire_eq demo_wire_opens simp del: to_be.simps)
  qed
qed (simp_all add: demo_tap_trace demo_sink_effects tap_frames_def)

section \<open>A reply of the example\<close>

lemma demo_sent:
  "EpSent (demo_sealed Dir_Recv 0 B_EndAck []) (V4 [10, 0, 0, 1] 7)
     \<in> set (trace (endpoint_step demo_aead) Map.empty (EpArm demo_id demo_key audio_engine 0 0 # demo_reads))"
  using demo_seal [of B_EndAck 0 Dir_Recv]
  by (simp add: demo_reads_def demo_wire_eq demo_wire_reads arm_def on_datagram_locked_def ep_events_def
      entry_datagram_eq demo_wire_opens Entry_new_def rx_eval
      apply_one_def reply_with_def Entry_seal_def ControlSeq_FIRST_def Let_def del: to_be.simps)

theorem replies_only_to_vouched_peers_witness:
  "\<exists>rid key. armed_with (EpArm demo_id demo_key audio_engine 0 0 # demo_reads) rid key
     \<and> vouched demo_aead (EpArm demo_id demo_key audio_engine 0 0 # demo_reads) rid key (V4 [10, 0, 0, 1] 7)
     \<and> sealed_by demo_aead key rid (demo_sealed Dir_Recv 0 B_EndAck [])"
  by (rule replies_only_to_vouched_peers [OF demo_sent])

end
